(* ===== verification/Tautq_Prelude.thy ===== *)
theory Tautq_Prelude
  imports
    Main
    "HOL-Library.Word"
    "HOL-Library.AList"
    "HOL-Library.Char_ord"
    "HOL-Library.List_Lexorder"
    "HOL-Library.Monad_Syntax"
begin

text \<open>
  Shared vocabulary of the development: the machine integers of the C++ sources as words, byte
  strings, the one-to-one reading of a C++ \<^verbatim>\<open>std::string\<close> as a list of bytes, the named collections
  that the components fill, and the generic facts on words, lists and association lists that
  more than one component uses.
\<close>

unbundle bit_operations_syntax

type_synonym u8 = "8 word"
type_synonym u16 = "16 word"
type_synonym u32 = "32 word"
type_synonym u64 = "64 word"
type_synonym bytes = "u8 list"

named_theorems codec_read \<open>reading back an encoded field\<close>
named_theorems codec_step \<open>advancing past an encoded field\<close>
named_theorems decode_elims \<open>taking a successful decode apart\<close>
named_theorems safe_intros \<open>computations that never leave their buffer\<close>


section \<open>Computations without undefined behaviour\<close>

text \<open>
  \<open>None\<close> stands for undefined behaviour (a read outside its span). \<open>safe\<close> is compositional: the
  rules below take a decoder apart along its monadic structure and leave one bound per read.
\<close>

definition safe :: "'a option \<Rightarrow> bool" where
  "safe m \<longleftrightarrow> m \<noteq> None"

lemma safe_Some [safe_intros, simp]: "safe (Some x)"
  by (simp add: safe_def)

lemma safe_bind [safe_intros]:
  "safe m \<Longrightarrow> (\<And>v. m = Some v \<Longrightarrow> safe (f v)) \<Longrightarrow> safe (m \<bind> f)"
  by (auto simp: safe_def)

lemma safe_if [safe_intros]:
  "(c \<Longrightarrow> safe a) \<Longrightarrow> (\<not> c \<Longrightarrow> safe b) \<Longrightarrow> safe (if c then a else b)"
  by simp

lemma safe_case_option [safe_intros]:
  "(x = None \<Longrightarrow> safe a) \<Longrightarrow> (\<And>y. x = Some y \<Longrightarrow> safe (f y)) \<Longrightarrow>
     safe (case x of None \<Rightarrow> a | Some y \<Rightarrow> f y)"
  by (cases x) simp_all

lemma safe_case_prod [safe_intros]:
  "(\<And>y z. p = (y, z) \<Longrightarrow> safe (f y z)) \<Longrightarrow> safe (case p of (y, z) \<Rightarrow> f y z)"
  by (cases p) simp

text \<open>The same structure read backwards, from a successful result.\<close>

lemma bind_SomeE [decode_elims]:
  "m \<bind> f = Some y \<Longrightarrow> (\<And>x. m = Some x \<Longrightarrow> f x = Some y \<Longrightarrow> P) \<Longrightarrow> P"
  by (auto simp: bind_eq_Some_conv)

lemma guard_SomeE [decode_elims]:
  "(if c then Some None else m) = Some (Some y) \<Longrightarrow> (\<not> c \<Longrightarrow> m = Some (Some y) \<Longrightarrow> P) \<Longrightarrow> P"
  by (simp split: if_splits)

lemma inner_SomeE [decode_elims]:
  "(case x of None \<Rightarrow> Some None | Some p \<Rightarrow> f p) = Some (Some y) \<Longrightarrow>
     (\<And>p. x = Some p \<Longrightarrow> f p = Some (Some y) \<Longrightarrow> P) \<Longrightarrow> P"
  by (cases x) simp_all

lemma pair_SomeE [decode_elims]:
  "(case p of (x, y) \<Rightarrow> f x y) = Some z \<Longrightarrow> (\<And>x y. p = (x, y) \<Longrightarrow> f x y = Some z \<Longrightarrow> P) \<Longrightarrow> P"
  by (cases p) simp

lemma safe_ex: "safe m \<longleftrightarrow> (\<exists>v. m = Some v)"
  by (auto simp: safe_def)


section \<open>Bytes and characters\<close>

definition byte_of_char :: "char \<Rightarrow> u8" where
  "byte_of_char c = word_of_nat (of_char c)"

definition char_of_byte :: "u8 \<Rightarrow> char" where
  "char_of_byte w = char_of (unat w)"

lemma char_of_byte_of_char [simp]: "char_of_byte (byte_of_char c) = c"
proof -
  have "(of_char c :: nat) mod 256 = of_char c"
    by (rule of_char_mod_256)
  then have "unat (word_of_nat (of_char c) :: u8) = of_char c"
    by (simp add: unat_of_nat)
  then show ?thesis
    by (simp add: char_of_byte_def byte_of_char_def)
qed

lemma byte_of_char_of_byte [simp]: "byte_of_char (char_of_byte w) = w"
proof -
  have "unat w < 2 ^ 8"
    using unsigned_less [of w] by simp
  then show ?thesis
    by (simp add: char_of_byte_def byte_of_char_def)
qed

lemma map_char_of_byte_of_char [simp]: "map char_of_byte (map byte_of_char s) = s"
  by (induction s) simp_all

lemma map_byte_of_char_of_byte [simp]: "map byte_of_char (map char_of_byte b) = b"
  by (induction b) simp_all

lemma inj_byte_of_char: "inj byte_of_char"
  by (rule inj_on_inverseI [where g = char_of_byte]) simp


section \<open>Little-endian pieces of a word\<close>

lemma mask_0xFF: "(0xFF :: 'a::len word) = mask 8"
  by (simp add: mask_eq_exp_minus_1)

lemma ucast_and_0xFF [simp]: "(ucast (w AND 0xFF) :: u8) = ucast (w :: 'a::len word)"
  by (rule bit_word_eqI) (auto simp: bit_simps mask_0xFF dest: bit_imp_le_length)

lemma u16_of_bytes:
  "(ucast ((ucast (ucast (v :: u16) :: u8) :: u32) OR
     push_bit 8 (ucast (ucast (drop_bit 8 v) :: u8) :: u32)) :: u16) = v" (is "?l = v")
proof (rule bit_word_eqI)
  fix n assume "n < LENGTH(16)"
  then consider "n < 8" | "8 \<le> n" "n < 16"
    by fastforce
  then show "bit ?l n = bit v n"
    by cases (auto simp: bit_simps)
qed

lemma u32_of_bytes:
  "(ucast (ucast v :: u8) :: u32) OR
     push_bit 8 (ucast (ucast (drop_bit 8 v) :: u8)) OR
     push_bit 16 (ucast (ucast (drop_bit 16 v) :: u8)) OR
     push_bit 24 (ucast (ucast (drop_bit 24 v) :: u8)) = v" (is "?l = v")
proof (rule bit_word_eqI)
  fix n assume "n < LENGTH(32)"
  then consider "n < 8" | "8 \<le> n" "n < 16" | "16 \<le> n" "n < 24" | "24 \<le> n" "n < 32"
    by fastforce
  then show "bit ?l n = bit v n"
    by cases (auto simp: bit_simps)
qed

lemma u64_horner:
  "push_bit 8 (drop_bit (8 * Suc i) v) OR ucast (ucast (drop_bit (8 * i) v) :: u8) =
     drop_bit (8 * i) (v :: u64)" (is "?l = ?r")
proof (rule bit_word_eqI)
  fix n assume "n < LENGTH(64)"
  then consider "n < 8" | "8 \<le> n" "n < 64"
    by fastforce
  then show "bit ?l n = bit ?r n"
    by cases (auto simp: bit_simps)
qed

lemma drop_bit_64 [simp]: "drop_bit 64 (v :: u64) = 0"
  by (rule bit_word_eqI) (auto simp: bit_simps dest: bit_imp_le_length)


section \<open>What is left of a buffer\<close>

text \<open>
  Decoders walk a buffer with an offset. \<open>remaining b off r\<close> says that the offset is inside the
  buffer and that \<open>r\<close> is exactly what has not been consumed yet; the round-trip lemmas of the
  codecs move this predicate from field to field.
\<close>

definition remaining :: "'a list \<Rightarrow> nat \<Rightarrow> 'a list \<Rightarrow> bool" where
  "remaining b off r \<longleftrightarrow> off \<le> length b \<and> drop off b = r"

lemma remaining_start: "remaining b 0 b"
  by (simp add: remaining_def)

lemma remaining_append: "remaining (p @ r) (length p) r"
  by (simp add: remaining_def)

lemma remaining_length: "remaining b off r \<Longrightarrow> length b = off + length r"
  by (auto simp: remaining_def)

lemma remaining_step: "remaining b off (x @ r) \<Longrightarrow> remaining b (off + length x) r"
  unfolding remaining_def
  by (metis add.commute append_eq_conv_conj append_take_drop_id drop_drop le_add_diff_inverse
      length_append length_drop nat_add_left_cancel_le le_add1)

lemma remaining_nth:
  "remaining b off r \<Longrightarrow> i < length r \<Longrightarrow> b ! (off + i) = r ! i \<and> off + i < length b"
  by (auto simp: remaining_def)

lemma remaining_take:
  "remaining b off (x @ r) \<Longrightarrow> take (length x) (drop off b) = x"
  by (simp add: remaining_def)


section \<open>Association lists as hash tables\<close>

text \<open>
  A \<^verbatim>\<open>std::unordered_map\<close> is an association list with distinct keys, read through \<^const>\<open>map_of\<close>. Its
  iteration order is unspecified in C++; theorems quantify over every list with distinct keys,
  hence over every iteration order.
\<close>

abbreviation dict :: "('k \<times> 'v) list \<Rightarrow> bool" where
  "dict xs \<equiv> distinct (map fst xs)"

lemma map_of_update [simp]: "map_of (AList.update k v xs) = (map_of xs)(k \<mapsto> v)"
  by (rule update_conv')

lemma map_of_delete [simp]: "map_of (AList.delete k xs) = (map_of xs)(k := None)"
  by (rule delete_conv')

lemma dict_update [simp, intro]: "dict xs \<Longrightarrow> dict (AList.update k v xs)"
  by (rule distinct_update)

lemma dict_delete [simp, intro]: "dict xs \<Longrightarrow> dict (AList.delete k xs)"
  by (rule distinct_delete)

text \<open>A counter that did not wrap.\<close>

lemma word_less_succ: "x + 1 \<noteq> 0 \<Longrightarrow> y \<le> x \<Longrightarrow> y < x + (1 :: 'a :: len word)"
  using unatSuc [of x] by (simp add: word_less_nat_alt word_le_nat_alt add.commute)

end
