(* ===== verification/Bytes.thy ===== *)
theory Bytes
  imports Tautq_Prelude
begin

text \<open>
  The little-endian byte helpers of \<^verbatim>\<open>src/src/bytes.h\<close>. The writers append to a byte vector. The
  readers index a span; reading outside the span is undefined behaviour in C++, so a reader
  returns \<open>None\<close> there, and every decoder built on them carries that \<open>None\<close> outwards. A decoder
  is memory safe exactly when it never evaluates to the outer \<open>None\<close>.
\<close>

section \<open>Writers\<close>

definition put_u8 :: "bytes \<Rightarrow> u8 \<Rightarrow> bytes" where
  "put_u8 b v = b @ [v]"

definition put_u16 :: "bytes \<Rightarrow> u16 \<Rightarrow> bytes" where
  "put_u16 b v = (b @ [ucast (v AND 0xFF)]) @ [ucast (drop_bit 8 v AND 0xFF)]"

definition put_u32 :: "bytes \<Rightarrow> u32 \<Rightarrow> bytes" where
  "put_u32 b v = b @ map (\<lambda>i. ucast (drop_bit (8 * i) v AND 0xFF)) [0..<4]"

definition put_u64 :: "bytes \<Rightarrow> u64 \<Rightarrow> bytes" where
  "put_u64 b v = b @ map (\<lambda>i. ucast (drop_bit (8 * i) v AND 0xFF)) [0..<8]"

definition put_bytes :: "bytes \<Rightarrow> bytes \<Rightarrow> bytes" where
  "put_bytes b v = b @ v"


section \<open>Readers\<close>

definition get_u8 :: "bytes \<Rightarrow> nat \<Rightarrow> u8 option" where
  "get_u8 b off = (if off < length b then Some (b ! off) else None)"

definition get_u16 :: "bytes \<Rightarrow> nat \<Rightarrow> u16 option" where
  "get_u16 b off = do {
     x0 \<leftarrow> get_u8 b off;
     x1 \<leftarrow> get_u8 b (off + 1);
     Some (ucast ((ucast x0 :: u32) OR push_bit 8 (ucast x1)))
   }"

definition get_u32 :: "bytes \<Rightarrow> nat \<Rightarrow> u32 option" where
  "get_u32 b off = do {
     x0 \<leftarrow> get_u8 b off;
     x1 \<leftarrow> get_u8 b (off + 1);
     x2 \<leftarrow> get_u8 b (off + 2);
     x3 \<leftarrow> get_u8 b (off + 3);
     Some (ucast x0 OR push_bit 8 (ucast x1) OR push_bit 16 (ucast x2) OR push_bit 24 (ucast x3))
   }"

text \<open>The loop \<open>for (int i = 7; i >= 0; --i) v = (v << 8) | b[off + i]\<close>; the counter is \<open>i + 1\<close>.\<close>

fun get_u64_loop :: "bytes \<Rightarrow> nat \<Rightarrow> nat \<Rightarrow> u64 \<Rightarrow> u64 option" where
  "get_u64_loop b off 0 v = Some v"
| "get_u64_loop b off (Suc i) v = do {
     x \<leftarrow> get_u8 b (off + i);
     get_u64_loop b off i (push_bit 8 v OR ucast x)
   }"

definition get_u64 :: "bytes \<Rightarrow> nat \<Rightarrow> u64 option" where
  "get_u64 b off = get_u64_loop b off 8 0"


section \<open>Encoded fields\<close>

text \<open>What each writer appends, and its length: the form the codecs are reasoned about in.\<close>

definition u8_bytes :: "u8 \<Rightarrow> bytes" where
  "u8_bytes v = [v]"

definition u16_bytes :: "u16 \<Rightarrow> bytes" where
  "u16_bytes v = [ucast v, ucast (drop_bit 8 v)]"

definition u32_bytes :: "u32 \<Rightarrow> bytes" where
  "u32_bytes v = map (\<lambda>i. ucast (drop_bit (8 * i) v)) [0..<4]"

definition u64_bytes :: "u64 \<Rightarrow> bytes" where
  "u64_bytes v = map (\<lambda>i. ucast (drop_bit (8 * i) v)) [0..<8]"

lemma put_u8_append: "put_u8 b v = b @ u8_bytes v"
  by (simp add: put_u8_def u8_bytes_def)

lemma put_u16_append: "put_u16 b v = b @ u16_bytes v"
  by (simp add: put_u16_def u16_bytes_def)

lemma put_u32_append: "put_u32 b v = b @ u32_bytes v"
  by (simp add: put_u32_def u32_bytes_def)

lemma put_u64_append: "put_u64 b v = b @ u64_bytes v"
  by (simp add: put_u64_def u64_bytes_def)

lemmas put_append = put_u8_append put_u16_append put_u32_append put_u64_append put_bytes_def

lemma u8_bytes_length [simp]: "length (u8_bytes v) = 1"
  by (simp add: u8_bytes_def)

lemma u16_bytes_length [simp]: "length (u16_bytes v) = 2"
  by (simp add: u16_bytes_def)

lemma u32_bytes_length [simp]: "length (u32_bytes v) = 4"
  by (simp add: u32_bytes_def)

lemma u64_bytes_length [simp]: "length (u64_bytes v) = 8"
  by (simp add: u64_bytes_def)


section \<open>Reads inside the buffer are defined\<close>

lemma get_u8_defined: "off + 1 \<le> length b \<Longrightarrow> \<exists>v. get_u8 b off = Some v"
  by (simp add: get_u8_def)

lemma get_u16_defined: "off + 2 \<le> length b \<Longrightarrow> \<exists>v. get_u16 b off = Some v"
  by (simp add: get_u16_def get_u8_def)

lemma get_u32_defined: "off + 4 \<le> length b \<Longrightarrow> \<exists>v. get_u32 b off = Some v"
  by (simp add: get_u32_def get_u8_def)

lemma get_u64_loop_defined: "off + n \<le> length b \<Longrightarrow> \<exists>v. get_u64_loop b off n acc = Some v"
  by (induction n arbitrary: acc) (auto simp: get_u8_def)

lemma get_u64_defined: "off + 8 \<le> length b \<Longrightarrow> \<exists>v. get_u64 b off = Some v"
  unfolding get_u64_def by (rule get_u64_loop_defined)

text \<open>The bounds are exact: one byte less and the read leaves the span.\<close>

lemma get_u64_loop_Some: "get_u64_loop b off n acc = Some v \<Longrightarrow> 0 < n \<Longrightarrow> off + n \<le> length b"
proof (induction n arbitrary: acc)
  case 0
  then show ?case by simp
next
  case (Suc n)
  then show ?case by (auto simp: get_u8_def bind_eq_Some_conv split: if_splits)
qed

lemma get_in_bounds:
  "get_u8 b off = Some x8 \<Longrightarrow> off + 1 \<le> length b"
  "get_u16 b off = Some x16 \<Longrightarrow> off + 2 \<le> length b"
  "get_u32 b off = Some x32 \<Longrightarrow> off + 4 \<le> length b"
  "get_u64 b off = Some x64 \<Longrightarrow> off + 8 \<le> length b"
  using get_u64_loop_Some [of b off 8 0]
  by (auto simp: get_u8_def get_u16_def get_u32_def get_u64_def bind_eq_Some_conv split: if_splits)


section \<open>Reading back what was written\<close>

lemma remaining_u8: "remaining b off (u8_bytes v @ r) \<Longrightarrow> get_u8 b off = Some v"
  using remaining_nth [of b off "u8_bytes v @ r" 0] by (simp add: get_u8_def u8_bytes_def)

lemma remaining_u16:
  assumes "remaining b off (u16_bytes v @ r)"
  shows "get_u16 b off = Some v"
proof -
  have "get_u8 b off = Some (ucast v)" "get_u8 b (off + 1) = Some (ucast (drop_bit 8 v))"
    using assms remaining_nth [OF assms, of 0] remaining_nth [OF assms, of 1]
    by (simp_all add: get_u8_def u16_bytes_def)
  then show ?thesis
    by (simp add: get_u16_def u16_of_bytes)
qed

lemma remaining_u32:
  assumes "remaining b off (u32_bytes v @ r)"
  shows "get_u32 b off = Some v"
proof -
  have nth: "get_u8 b (off + i) = Some (ucast (drop_bit (8 * i) v))" if "i < 4" for i
    using remaining_nth [OF assms, of i] that
    by (simp add: get_u8_def nth_append u32_bytes_def)
  show ?thesis
    using nth [of 0] nth [of 1] nth [of 2] nth [of 3] u32_of_bytes [of v]
    by (simp add: get_u32_def)
qed

lemma get_u64_loop_bytes:
  assumes "remaining b off (u64_bytes v @ r)" "n \<le> 8"
  shows "get_u64_loop b off n (drop_bit (8 * n) v) = Some v"
  using \<open>n \<le> 8\<close>
proof (induction n)
  case 0
  then show ?case by simp
next
  case (Suc n)
  have "get_u8 b (off + n) = Some (ucast (drop_bit (8 * n) v))"
    using remaining_nth [OF assms(1), of n] Suc.prems
    by (simp add: get_u8_def nth_append u64_bytes_def)
  then show ?case
    using Suc u64_horner [of n v] by simp
qed

lemma remaining_u64:
  "remaining b off (u64_bytes v @ r) \<Longrightarrow> get_u64 b off = Some v"
  using get_u64_loop_bytes [of b off v r 8] by (simp add: get_u64_def)


section \<open>The interface of a fixed-width field\<close>

text \<open>
  What a record codec relies on for each of its fields: a fixed width, a reader that is defined
  exactly when the whole field lies inside the buffer, and that reads back what was written.
  The lemmas of the locale are proved once and reused for every field of the wire formats.
\<close>

locale fixed_field =
  fixes enc :: "'a \<Rightarrow> bytes" and get :: "bytes \<Rightarrow> nat \<Rightarrow> 'a option" and width :: nat
  assumes enc_length: "length (enc v) = width"
    and get_defined: "off + width \<le> length b \<Longrightarrow> \<exists>v. get b off = Some v"
    and get_bounds: "get b off = Some v \<Longrightarrow> off + width \<le> length b"
    and get_enc: "remaining b off (enc v @ r) \<Longrightarrow> get b off = Some v"
begin

lemma step: "remaining b off (enc v @ r) \<Longrightarrow> remaining b (off + width) r"
  using remaining_step [of b off "enc v" r] by (simp add: enc_length)

lemma fits: "remaining b off (enc v @ r) \<Longrightarrow> off + width \<le> length b"
  using remaining_length [of b off "enc v @ r"] by (simp add: enc_length)

lemma get_safe: "off + width \<le> length b \<Longrightarrow> safe (get b off)"
  using get_defined by (simp add: safe_ex)

lemma get_append: "get (p @ enc v @ r) (length p) = Some v"
  by (rule get_enc [OF remaining_append])

lemma get_iff: "get b off \<noteq> None \<longleftrightarrow> off + width \<le> length b"
  using get_defined get_bounds by (metis option.exhaust option.simps(3))

lemma enc_inj: "enc v = enc w \<Longrightarrow> v = w"
  using get_append [of "[]" v "[]"] get_append [of "[]" w "[]"] by simp

lemma prefix_free: "enc v @ r = enc w @ s \<Longrightarrow> v = w \<and> r = s"
  using enc_inj by (simp add: enc_length)

end

interpretation u8f: fixed_field u8_bytes get_u8 1
  by unfold_locales (use get_u8_defined get_in_bounds(1) remaining_u8 in auto)

interpretation u16f: fixed_field u16_bytes get_u16 2
  by unfold_locales (use get_u16_defined get_in_bounds(2) remaining_u16 in auto)

interpretation u32f: fixed_field u32_bytes get_u32 4
  by unfold_locales (use get_u32_defined get_in_bounds(3) remaining_u32 in auto)

interpretation u64f: fixed_field u64_bytes get_u64 8
  by unfold_locales (use get_u64_defined get_in_bounds(4) remaining_u64 in auto)

text \<open>
  A field is exact when every byte string of its width is an encoding: then decoding and
  encoding again gives the same bytes.
\<close>

locale exact_field = fixed_field +
  assumes enc_surj: "length xs = width \<Longrightarrow> \<exists>v. enc v = xs"
begin

lemma enc_get:
  assumes "get b off = Some v"
  shows "remaining b off (enc v @ drop (off + width) b)"
proof -
  have len: "off + width \<le> length b"
    using assms by (rule get_bounds)
  then have "length (take width (drop off b)) = width"
    by simp
  then obtain w where w: "enc w = take width (drop off b)"
    using enc_surj by blast
  have "drop (off + width) b = drop width (drop off b)"
    by (simp add: add.commute)
  then have r: "remaining b off (enc w @ drop (off + width) b)"
    using len w by (simp only: remaining_def append_take_drop_id) simp
  then have "v = w"
    using get_enc [OF r] assms by simp
  with r show ?thesis by simp
qed

lemma drop_get: "get b off = Some v \<Longrightarrow> off' = off + width \<Longrightarrow> drop off b = enc v @ drop off' b"
  using enc_get by (simp add: remaining_def)

end

lemma surj_by_card:
  fixes enc :: "'a::finite \<Rightarrow> bytes"
  assumes inj: "\<And>v w. enc v = enc w \<Longrightarrow> v = w" and len: "\<And>v. length (enc v) = n"
    and card: "card (UNIV :: 'a set) = 256 ^ n" and xs: "length xs = n"
  shows "\<exists>v. enc v = xs"
proof -
  have all: "{ys :: bytes. set ys \<subseteq> UNIV \<and> length ys = n} = {ys. length ys = n}"
    by simp
  have "card {ys :: bytes. length ys = n} = 256 ^ n"
    using card_lists_length_eq [of "UNIV :: u8 set" n] by (simp add: card_word)
  moreover have "finite {ys :: bytes. length ys = n}"
    using finite_lists_length_eq [of "UNIV :: u8 set" n] by simp
  moreover have "card (range enc) = 256 ^ n"
    using card_image [of enc UNIV] inj card by (simp add: inj_def)
  moreover have "range enc \<subseteq> {ys. length ys = n}"
    using len by auto
  ultimately have "range enc = {ys. length ys = n}"
    by (metis card_subset_eq)
  then show ?thesis
    using xs by (metis (mono_tags, lifting) mem_Collect_eq rangeE)
qed

interpretation u8x: exact_field u8_bytes get_u8 1
  by unfold_locales (rule surj_by_card [OF u8f.enc_inj u8f.enc_length], simp_all add: card_word)

interpretation u16x: exact_field u16_bytes get_u16 2
  by unfold_locales (rule surj_by_card [OF u16f.enc_inj u16f.enc_length], simp_all add: card_word)

interpretation u32x: exact_field u32_bytes get_u32 4
  by unfold_locales (rule surj_by_card [OF u32f.enc_inj u32f.enc_length], simp_all add: card_word)

interpretation u64x: exact_field u64_bytes get_u64 8
  by unfold_locales (rule surj_by_card [OF u64f.enc_inj u64f.enc_length], simp_all add: card_word)

lemmas word_field_get [codec_read] = u8f.get_enc u16f.get_enc u32f.get_enc u64f.get_enc
lemmas word_field_safe [safe_intros] = u8f.get_safe u16f.get_safe u32f.get_safe u64f.get_safe
lemmas word_field_step [codec_step] = u8f.step u16f.step u32f.step u64f.step

end
