(* ===== verification/Wire.thy ===== *)
theory Wire
  imports Bytes
begin

text \<open>
  The datagram formats of \<^verbatim>\<open>src/src/wire.h\<close> and \<^verbatim>\<open>src/src/wire.cc\<close>: the HELLO handshake, the RPC
  envelope and endpoints. A decoder has type \<open>bytes \<Rightarrow> 'a option option\<close>: the outer \<open>None\<close> is a
  read outside the span, \<open>Some None\<close> is the \<^verbatim>\<open>std::nullopt\<close> the source returns for malformed input.
\<close>

section \<open>Endpoints\<close>

text \<open>
  An endpoint is the transport library's address pair; the sources use its two fields, its
  equality and the value-initialised \<open>Endpoint{}\<close>.
\<close>

record Endpoint =
  addr_be :: u32
  port_be :: u16

definition Endpoint0 :: Endpoint where
  "Endpoint0 = \<lparr>addr_be = 0, port_be = 0\<rparr>"

definition kEndpointSize :: nat where
  "kEndpointSize = 6"

definition put_endpoint :: "bytes \<Rightarrow> Endpoint \<Rightarrow> bytes" where
  "put_endpoint b e = put_u16 (put_u32 b (addr_be e)) (port_be e)"

definition get_endpoint :: "bytes \<Rightarrow> nat \<Rightarrow> Endpoint option" where
  "get_endpoint b off = do {
     a \<leftarrow> get_u32 b off;
     p \<leftarrow> get_u16 b (off + 4);
     Some \<lparr>addr_be = a, port_be = p\<rparr>
   }"

definition ekey :: "Endpoint \<Rightarrow> u64" where
  "ekey e = push_bit 16 (ucast (addr_be e)) OR ucast (port_be e)"


section \<open>HELLO datagrams\<close>

definition kHelloMagic0 :: u8 where "kHelloMagic0 = byte_of_char (CHR ''T'')"
definition kHelloMagic1 :: u8 where "kHelloMagic1 = byte_of_char (CHR ''Q'')"
definition kHelloMagic2 :: u8 where "kHelloMagic2 = byte_of_char (CHR ''H'')"

record Hello =
  is_ack :: bool
  sender_boot :: u64
  echo_boot :: u64

definition Hello0 :: Hello where
  "Hello0 = \<lparr>is_ack = False, sender_boot = 0, echo_boot = 0\<rparr>"

definition encode_hello :: "Hello \<Rightarrow> bytes" where
  "encode_hello h =
    (let out = put_u8 [] kHelloMagic0;
         out = put_u8 out kHelloMagic1;
         out = put_u8 out kHelloMagic2;
         out = put_u8 out (if is_ack h then 2 else 1);
         out = put_u64 out (sender_boot h)
     in if is_ack h then put_u64 out (echo_boot h) else out)"

definition is_hello :: "bytes \<Rightarrow> bool option" where
  "is_hello b =
    (if length b < 4 then Some False
     else do {
       m0 \<leftarrow> get_u8 b 0;
       if m0 \<noteq> kHelloMagic0 then Some False
       else do {
         m1 \<leftarrow> get_u8 b 1;
         if m1 \<noteq> kHelloMagic1 then Some False
         else do {
           m2 \<leftarrow> get_u8 b 2;
           Some (m2 = kHelloMagic2)
         }
       }
     })"

definition decode_hello :: "bytes \<Rightarrow> Hello option option" where
  "decode_hello b = do {
     hello \<leftarrow> is_hello b;
     if \<not> hello then Some None
     else do {
       kind \<leftarrow> get_u8 b 3;
       if kind = 1 \<and> 12 \<le> length b then do {
         s \<leftarrow> get_u64 b 4;
         Some (Some (Hello0\<lparr>is_ack := False, sender_boot := s\<rparr>))
       }
       else if kind = 2 \<and> 20 \<le> length b then do {
         s \<leftarrow> get_u64 b 4;
         e \<leftarrow> get_u64 b 12;
         Some (Some (Hello0\<lparr>is_ack := True, sender_boot := s, echo_boot := e\<rparr>))
       }
       else Some None
     }
   }"


section \<open>The RPC envelope\<close>

datatype MsgKind = Request | Response

text \<open>
  The method byte is cast to the enumeration without a check, so a value outside the
  enumerators stays what it was.
\<close>

datatype Method =
    Ping | FwdSubmit | Replicate | Claim | Resync | FwdAck | FwdStatus | Apply | DrainHandoff
  | OtherMethod u8

fun u8_of_kind :: "MsgKind \<Rightarrow> u8" where
  "u8_of_kind Request = 1"
| "u8_of_kind Response = 2"

fun u8_of_method :: "Method \<Rightarrow> u8" where
  "u8_of_method Ping = 1"
| "u8_of_method FwdSubmit = 2"
| "u8_of_method Replicate = 3"
| "u8_of_method Claim = 4"
| "u8_of_method Resync = 5"
| "u8_of_method FwdAck = 6"
| "u8_of_method FwdStatus = 7"
| "u8_of_method Apply = 8"
| "u8_of_method DrainHandoff = 9"
| "u8_of_method (OtherMethod w) = w"

definition method_of_u8 :: "u8 \<Rightarrow> Method" where
  "method_of_u8 w =
    (if w = 1 then Ping else if w = 2 then FwdSubmit else if w = 3 then Replicate
     else if w = 4 then Claim else if w = 5 then Resync else if w = 6 then FwdAck
     else if w = 7 then FwdStatus else if w = 8 then Apply else if w = 9 then DrainHandoff
     else OtherMethod w)"

definition kRpcHeader :: nat where
  "kRpcHeader = 14"

record RpcMsg =
  msg_kind :: MsgKind
  msg_method :: Method
  msg_req_id :: u64
  msg_status :: u32
  msg_body :: bytes

definition encode_rpc :: "MsgKind \<Rightarrow> Method \<Rightarrow> u64 \<Rightarrow> u32 \<Rightarrow> bytes \<Rightarrow> bytes" where
  "encode_rpc kind method req_id status body =
    (let out = put_u8 [] (u8_of_kind kind);
         out = put_u8 out (u8_of_method method);
         out = put_u64 out req_id;
         out = put_u32 out status
     in put_bytes out body)"

definition decode_rpc :: "bytes \<Rightarrow> RpcMsg option option" where
  "decode_rpc b =
    (if length b < kRpcHeader then Some None
     else do {
       kind \<leftarrow> get_u8 b 0;
       if kind \<noteq> 1 \<and> kind \<noteq> 2 then Some None
       else do {
         m \<leftarrow> get_u8 b 1;
         req_id \<leftarrow> get_u64 b 2;
         status \<leftarrow> get_u32 b 10;
         Some (Some \<lparr>msg_kind = (if kind = 1 then Request else Response),
           msg_method = method_of_u8 m, msg_req_id = req_id, msg_status = status,
           msg_body = drop kRpcHeader b\<rparr>)
       }
     })"


section \<open>Endpoints as a fixed-width field\<close>

definition endpoint_bytes :: "Endpoint \<Rightarrow> bytes" where
  "endpoint_bytes e = u32_bytes (addr_be e) @ u16_bytes (port_be e)"

lemma put_endpoint_append: "put_endpoint b e = b @ endpoint_bytes e"
  by (simp add: put_endpoint_def put_append endpoint_bytes_def)

lemma get_endpoint_read:
  assumes "remaining b off (endpoint_bytes e @ r)"
  shows "get_endpoint b off = Some e"
proof -
  have 1: "remaining b off (u32_bytes (addr_be e) @ u16_bytes (port_be e) @ r)"
    using assms by (simp add: endpoint_bytes_def)
  show ?thesis
    using u32f.get_enc [OF 1] u16f.get_enc [OF u32f.step [OF 1]]
    by (simp add: get_endpoint_def)
qed

interpretation epf: fixed_field endpoint_bytes get_endpoint kEndpointSize
proof
  show "length (endpoint_bytes v) = kEndpointSize" for v
    by (simp add: endpoint_bytes_def kEndpointSize_def)
  show "\<exists>v. get_endpoint b off = Some v" if "off + kEndpointSize \<le> length b" for off b
    using u32f.get_defined [of off b] u16f.get_defined [of "off + 4" b] that
    by (auto simp: get_endpoint_def kEndpointSize_def)
  show "off + kEndpointSize \<le> length b" if "get_endpoint b off = Some v" for off b v
    using that
    by (auto simp: get_endpoint_def kEndpointSize_def bind_eq_Some_conv dest: u16f.get_bounds)
  show "get_endpoint b off = Some v" if "remaining b off (endpoint_bytes v @ r)" for b off v r
    using that by (rule get_endpoint_read)
qed

lemmas endpoint_safe [safe_intros] = epf.get_safe

interpretation epx: exact_field endpoint_bytes get_endpoint kEndpointSize
proof
  fix xs :: bytes assume len: "length xs = kEndpointSize"
  obtain a where a: "u32_bytes a = take 4 xs"
    using u32x.enc_surj [of "take 4 xs"] len by (auto simp: kEndpointSize_def)
  obtain p where p: "u16_bytes p = drop 4 xs"
    using u16x.enc_surj [of "drop 4 xs"] len by (auto simp: kEndpointSize_def)
  have "endpoint_bytes \<lparr>addr_be = a, port_be = p\<rparr> = xs"
    by (simp add: endpoint_bytes_def a p)
  then show "\<exists>v. endpoint_bytes v = xs" by blast
qed

text \<open>The endpoint key is injective, and the two casts used by a status query invert it.\<close>

lemma ekey_addr: "(ucast (drop_bit 16 (ekey e)) :: u32) = addr_be e"
  by (rule bit_word_eqI) (auto simp: ekey_def bit_simps dest: bit_imp_le_length)

lemma ekey_port: "(ucast (ekey e) :: u16) = port_be e"
  by (rule bit_word_eqI) (auto simp: ekey_def bit_simps dest: bit_imp_le_length)

lemma ekey_inj: "ekey a = ekey b \<longleftrightarrow> a = b"
proof
  assume eq: "ekey a = ekey b"
  have "addr_be a = addr_be b"
    using ekey_addr [of a] ekey_addr [of b] eq by simp
  moreover have "port_be a = port_be b"
    using ekey_port [of a] ekey_port [of b] eq by simp
  ultimately show "a = b" by simp
qed simp


section \<open>Handshake and envelope: safety and round trip\<close>

lemma method_of_u8_inverse [simp]: "u8_of_method (method_of_u8 w) = w"
  by (simp add: method_of_u8_def)

lemma method_of_u8_enumerator [simp]:
  "(\<And>w. m \<noteq> OtherMethod w) \<Longrightarrow> method_of_u8 (u8_of_method m) = m"
  by (cases m) (simp_all add: method_of_u8_def)

lemma is_hello_safe [safe_intros]: "safe (is_hello b)"
  unfolding is_hello_def by (intro safe_intros) simp_all

lemma is_hello_True:
  "is_hello b = Some True \<longleftrightarrow>
     4 \<le> length b \<and> b ! 0 = kHelloMagic0 \<and> b ! 1 = kHelloMagic1 \<and> b ! 2 = kHelloMagic2"
  by (auto simp: is_hello_def get_u8_def)

lemma decode_hello_safe: "safe (decode_hello b)"
  unfolding decode_hello_def by (intro safe_intros) (simp_all add: is_hello_True)

lemma decode_rpc_safe: "safe (decode_rpc b)"
  unfolding decode_rpc_def by (intro safe_intros) (simp_all add: kRpcHeader_def)

lemma encode_hello_append:
  "encode_hello h = u8_bytes kHelloMagic0 @ u8_bytes kHelloMagic1 @ u8_bytes kHelloMagic2 @
     u8_bytes (if is_ack h then 2 else 1) @ u64_bytes (sender_boot h) @
     (if is_ack h then u64_bytes (echo_boot h) else [])"
  by (simp add: encode_hello_def put_append)

lemma encode_rpc_append:
  "encode_rpc k m i st body = u8_bytes (u8_of_kind k) @ u8_bytes (u8_of_method m) @
     u64_bytes i @ u32_bytes st @ body"
  by (simp add: encode_rpc_def put_append)

text \<open>No datagram, whatever its bytes and length, makes a decoder read outside its bytes.\<close>

lemma wire_decoders_in_bounds: "decode_hello b \<noteq> None \<and> decode_rpc b \<noteq> None"
  using decode_hello_safe [of b] decode_rpc_safe [of b] by (simp add: safe_def)

text \<open>
  Decoding an encoded HELLO gives back the message (an advertisement carries no echoed boot
  id), also when further bytes follow it in the datagram.
\<close>

lemma hello_roundtrip:
  "decode_hello (encode_hello h @ rest) =
     Some (Some (if is_ack h then h else h\<lparr>echo_boot := 0\<rparr>))"
proof -
  let ?k = "if is_ack h then 2 else 1 :: u8"
  let ?tail = "(if is_ack h then u64_bytes (echo_boot h) else []) @ rest"
  let ?b = "encode_hello h @ rest"
  have r3: "remaining ?b 3 (u8_bytes ?k @ u64_bytes (sender_boot h) @ ?tail)"
    by (simp add: encode_hello_append remaining_def u8_bytes_def)
  have r4: "remaining ?b 4 (u64_bytes (sender_boot h) @ ?tail)"
    using u8f.step [OF r3] by simp
  have r12: "remaining ?b 12 ?tail"
    using u64f.step [OF r4] by simp
  have hello: "is_hello ?b = Some True"
    by (simp add: is_hello_True encode_hello_append u8_bytes_def)
  have len: "length ?b = 12 + length ?tail"
    using remaining_length [OF r12] .
  show ?thesis
  proof (cases "is_ack h")
    case True
    then have "get_u64 ?b 12 = Some (echo_boot h)"
      using r12 u64f.get_enc [of ?b 12 "echo_boot h" rest] by simp
    then show ?thesis
      using True hello len u8f.get_enc [OF r3] u64f.get_enc [OF r4]
      by (simp add: decode_hello_def Hello0_def)
  next
    case False
    then show ?thesis
      using hello len u8f.get_enc [OF r3] u64f.get_enc [OF r4]
      by (simp add: decode_hello_def Hello0_def)
  qed
qed

text \<open>
  Decoding an encoded RPC envelope gives back its kind, method byte, request id, status and
  body, for every value a method field can hold.
\<close>

lemma rpc_roundtrip:
  "decode_rpc (encode_rpc k (method_of_u8 w) i st body) =
     Some (Some \<lparr>msg_kind = k, msg_method = method_of_u8 w, msg_req_id = i, msg_status = st,
       msg_body = body\<rparr>)"
proof -
  let ?b = "encode_rpc k (method_of_u8 w) i st body"
  have r0: "remaining ?b 0 (u8_bytes (u8_of_kind k) @ u8_bytes w @ u64_bytes i @ u32_bytes st @ body)"
    by (simp add: encode_rpc_append remaining_def)
  have r1: "remaining ?b 1 (u8_bytes w @ u64_bytes i @ u32_bytes st @ body)"
    using u8f.step [OF r0] by simp
  have r2: "remaining ?b 2 (u64_bytes i @ u32_bytes st @ body)"
    using u8f.step [OF r1] by (simp add: numeral_2_eq_2)
  have r10: "remaining ?b 10 (u32_bytes st @ body)"
    using u64f.step [OF r2] by simp
  have r14: "remaining ?b 14 body"
    using u32f.step [OF r10] by simp
  show ?thesis
    using u8f.get_enc [OF r0] u8f.get_enc [OF r1] u64f.get_enc [OF r2] u32f.get_enc [OF r10]
      r14 remaining_length [OF r14]
    by (cases k) (simp_all add: decode_rpc_def kRpcHeader_def remaining_def)
qed

text \<open>
  C28. The wire codec: decoding an encoded HELLO gives back the message (an advertisement carries no echoed
  boot id), also when further bytes follow it; decoding an encoded RPC envelope gives back its kind,
  method byte, request id, status and body; and no datagram, whatever its bytes and length, makes either
  decoder read outside its bytes.
\<close>

theorem wire_codec:
  "decode_hello (encode_hello h @ rest) = Some (Some (if is_ack h then h else h\<lparr>echo_boot := 0\<rparr>)) \<and>
   decode_rpc (encode_rpc k (method_of_u8 w) i st body) =
     Some (Some \<lparr>msg_kind = k, msg_method = method_of_u8 w, msg_req_id = i, msg_status = st, msg_body = body\<rparr>) \<and>
   decode_hello b \<noteq> None \<and> decode_rpc b \<noteq> None"
  using hello_roundtrip rpc_roundtrip wire_decoders_in_bounds by blast

end
