(* ===== verification/Demux.thy ===== *)
theory Demux
  imports Wire
begin

text \<open>
  The datagram demultiplexer: \<^verbatim>\<open>src/src/demux.h\<close> and \<^verbatim>\<open>src/src/demux.cc\<close>. The transport library's socket is
  the environment: the datagrams \<open>recv\<close> will return before it returns nothing, those sent, and the
  clock in nanoseconds, which does not move while one event is handled.
\<close>

section \<open>Model\<close>

record socket =
  rx :: "(Endpoint \<times> bytes) list"
  tx :: "(Endpoint \<times> bytes) list"
  clock :: nat

definition kMaxQueued :: nat where
  "kMaxQueued = 1024"

record PeerView =
  vpeer :: Endpoint
  inbox :: "bytes list"

record demux =
  inner :: socket
  views :: "(u64 \<times> PeerView) list"

definition inner_send :: "Endpoint \<Rightarrow> bytes \<Rightarrow> demux \<Rightarrow> demux" where
  "inner_send to data d = d\<lparr>inner := (inner d)\<lparr>tx := tx (inner d) @ [(to, data)]\<rparr>\<rparr>"

text \<open>\<open>PeerView::recv\<close> into a buffer of \<open>n\<close> bytes: the datagram, cut to the buffer, and its peer.\<close>

definition view_recv :: "nat \<Rightarrow> PeerView \<Rightarrow> (bytes \<times> Endpoint) option \<times> PeerView" where
  "view_recv n v =
    (case inbox v of [] \<Rightarrow> (None, v)
     | d # ds \<Rightarrow> (Some (take (if length d \<le> n then length d else n) d, vpeer v), v\<lparr>inbox := ds\<rparr>))"

text \<open>A session reads its view until \<open>recv\<close> returns nothing.\<close>

function view_drain :: "nat \<Rightarrow> PeerView \<Rightarrow> bytes list \<times> PeerView" where
  "view_drain n v =
    (case view_recv n v of
       (None, v) \<Rightarrow> ([], v)
     | (Some (d, from), v) \<Rightarrow> (let (ds, v) = view_drain n v in (d # ds, v)))"
  by pat_completeness auto
termination
  by (relation "measure (\<lambda>(n, v). length (inbox v))") (auto simp: view_recv_def split: list.splits)

declare view_drain.simps [simp del]

definition has_view :: "Endpoint \<Rightarrow> demux \<Rightarrow> bool" where
  "has_view peer d \<longleftrightarrow> map_of (views d) (ekey peer) \<noteq> None"

text \<open>\<open>Demux::view\<close>: the view of a peer, made on first use.\<close>

definition demux_view :: "Endpoint \<Rightarrow> demux \<Rightarrow> demux" where
  "demux_view peer d =
    (case map_of (views d) (ekey peer) of
       Some v \<Rightarrow> d
     | None \<Rightarrow> d\<lparr>views := AList.update (ekey peer) \<lparr>vpeer = peer, inbox = []\<rparr> (views d)\<rparr>)"

definition drop_view :: "Endpoint \<Rightarrow> demux \<Rightarrow> demux" where
  "drop_view peer d = d\<lparr>views := AList.delete (ekey peer) (views d)\<rparr>"

text \<open>
  One round of the loop of \<open>pump\<close>: what is handed to which callback. The reads of the HELLO decoder
  stay inside the datagram, so its outer \<open>None\<close> does not occur.
\<close>

datatype routed = ToHello Endpoint Hello | ToStranger Endpoint | Absorbed

definition route :: "Endpoint \<Rightarrow> bytes \<Rightarrow> demux \<Rightarrow> routed \<times> demux" where
  "route from data d =
    (if is_hello data = Some True then
       (case decode_hello data of Some (Some h) \<Rightarrow> (ToHello from h, d) | _ \<Rightarrow> (Absorbed, d))
     else
       (case map_of (views d) (ekey from) of
          None \<Rightarrow> (ToStranger from, d)
        | Some v \<Rightarrow>
            (Absorbed,
             if length (inbox v) < kMaxQueued
             then d\<lparr>views := AList.update (ekey from) (v\<lparr>inbox := inbox v @ [data]\<rparr>) (views d)\<rparr>
             else d)))"


section \<open>Bounded queues\<close>

definition queues_bounded :: "demux \<Rightarrow> bool" where
  "queues_bounded d \<longleftrightarrow> (\<forall>k v. map_of (views d) k = Some v \<longrightarrow> length (inbox v) \<le> kMaxQueued)"

lemma view_drain_eq: "view_drain n v = (map (take n) (inbox v), v\<lparr>inbox := []\<rparr>)"
proof (induction n v rule: view_drain.induct)
  case (1 n v)
  show ?case
  proof (cases "inbox v")
    case Nil
    then show ?thesis by (simp add: view_drain.simps [of n v] view_recv_def)
  next
    case (Cons d ds)
    have r: "view_recv n v = (Some (take n d, vpeer v), v\<lparr>inbox := ds\<rparr>)"
      using Cons by (auto simp: view_recv_def)
    show ?thesis
      using 1 [OF r [symmetric] refl refl] Cons r by (simp add: view_drain.simps [of n v])
  qed
qed

lemma queues_bounded_ops:
  "queues_bounded d \<Longrightarrow> queues_bounded (inner_send to b d)"
  "queues_bounded d \<Longrightarrow> queues_bounded (demux_view e d)"
  "queues_bounded d \<Longrightarrow> queues_bounded (drop_view e d)"
  "queues_bounded d \<Longrightarrow> queues_bounded (snd (route e b d))"
  by (auto simp: queues_bounded_def inner_send_def demux_view_def drop_view_def route_def kMaxQueued_def
      split: option.splits if_splits)



section \<open>Properties\<close>

text \<open>
  C26. Routing: a HELLO never enters a queue; any other datagram goes to the queue of its own source
  and to no other, behind what is there, unless that queue is full; without a view it is reported
  and changes nothing. Queues stay bounded.
\<close>

theorem route_isolates_peers:
  assumes "queues_bounded d"
  shows "let (ev, d') = route from data d in
    inner d' = inner d \<and> queues_bounded d' \<and>
    (\<forall>k. k \<noteq> ekey from \<longrightarrow> map_of (views d') k = map_of (views d) k) \<and>
    (is_hello data = Some True \<longrightarrow> d' = d \<and> (\<forall>e. ev \<noteq> ToStranger e)) \<and>
    (is_hello data = Some False \<longrightarrow>
       (case map_of (views d) (ekey from) of
          None \<Rightarrow> ev = ToStranger from \<and> d' = d
        | Some v \<Rightarrow> ev = Absorbed \<and>
            (\<exists>v'. map_of (views d') (ekey from) = Some v' \<and> vpeer v' = vpeer v \<and>
               inbox v' = take kMaxQueued (inbox v @ [data]))))"
proof -
  have "length (inbox v) \<le> kMaxQueued" if "map_of (views d) (ekey from) = Some v" for v
    using assms that by (simp add: queues_bounded_def)
  then show ?thesis
    using assms queues_bounded_ops(4) [OF assms, of "from" data]
    by (auto simp: route_def Let_def split: option.split)
qed

theorem route_isolates_peers_witness:
  "let d = \<lparr>inner = \<lparr>rx = [], tx = [], clock = 0\<rparr>, views = [(ekey Endpoint0, \<lparr>vpeer = Endpoint0, inbox = [[1]]\<rparr>)]\<rparr>;
       (ev, d') = route Endpoint0 [9] d
   in queues_bounded d \<and> queues_bounded d' \<and> ev = Absorbed"
proof -
  let ?d = "\<lparr>inner = \<lparr>rx = [], tx = [], clock = 0\<rparr>, views = [(ekey Endpoint0, \<lparr>vpeer = Endpoint0, inbox = [[1]]\<rparr>)]\<rparr>"
  have "queues_bounded ?d" by (simp add: queues_bounded_def kMaxQueued_def)
  moreover have "is_hello [9] = Some False" by (simp add: is_hello_def)
  ultimately show ?thesis using route_isolates_peers [of ?d Endpoint0 "[9]"] by (auto simp: Let_def)
qed

end
