(* ===== verification/Rpc.thy ===== *)
theory Rpc
  imports Demux
begin

text \<open>
  The RPC layer: \<^verbatim>\<open>src/src/rpc.h\<close> and \<^verbatim>\<open>src/src/rpc.cc\<close>. A node is a pair of this layer's state and of the
  state of the layer above. A response callback is a value \<open>'k\<close>; \<open>fire\<close> runs it and may change both
  halves, and \<open>serve\<close> is the table of request handlers. A peer's session belongs to the transport
  library: it is a state \<open>'s\<close> with the operations of \<open>session_ops\<close>, which return the messages
  delivered to the application and the datagrams sent to the peer.
\<close>

section \<open>Types\<close>

definition kOk :: u32 where "kOk = 0"
definition kTimeout :: u32 where "kTimeout = 0xFFFF0001"
definition kPeerDown :: u32 where "kPeerDown = 0xFFFF0002"
definition kTooLarge :: u32 where "kTooLarge = 0xFFFF0003"
definition kBusy :: u32 where "kBusy = 0xFFFF0004"

definition kMaxRpcBody :: nat where
  "kMaxRpcBody = 1120"

definition ms :: "nat \<Rightarrow> nat" where
  "ms n = n * 1000000"

definition kHelloRetry :: nat where "kHelloRetry = ms 200"
definition kStrangerInterval :: nat where "kStrangerInterval = ms 1000"

record 's session_ops =
  s_new :: "Endpoint \<Rightarrow> 's"
  s_send :: "nat \<Rightarrow> bytes \<Rightarrow> 's \<Rightarrow> bool \<times> bytes list \<times> 's"
  s_poll :: "nat \<Rightarrow> bytes list \<Rightarrow> 's \<Rightarrow> bytes list \<times> bytes list \<times> 's"
  s_tick :: "nat \<Rightarrow> 's \<Rightarrow> bytes list \<times> bytes list \<times> 's"
  s_buf :: nat

record ReqCtx =
  ctx_from :: Endpoint
  ctx_req_id :: u64
  ctx_method :: Method

record 's Peer =
  addr :: Endpoint
  session :: "'s option"
  remote_boot :: u64
  acked :: bool
  next_hello :: nat
  pending :: "bytes list"

record 'k PendingCall =
  peer_key :: u64
  deadline :: nat
  cb :: 'k

text \<open>\<open>req_wrapped\<close> is not in the source: it records whether the request counter has wrapped around.\<close>

record ('s, 'k) rpc =
  demux :: demux
  boot :: u64
  peers :: "(u64 \<times> 's Peer) list"
  calls :: "(u64 \<times> 'k PendingCall) list"
  stranger_next :: "(u64 \<times> nat) list"
  next_req :: u64
  req_wrapped :: bool

record ('s, 'k, 'u) app =
  fire :: "'k \<Rightarrow> u32 \<Rightarrow> bytes \<Rightarrow> ('s, 'k) rpc \<times> 'u \<Rightarrow> ('s, 'k) rpc \<times> 'u"
  serve :: "Method \<Rightarrow> (ReqCtx \<Rightarrow> bytes \<Rightarrow> ('s, 'k) rpc \<times> 'u \<Rightarrow> ('s, 'k) rpc \<times> 'u) option"

definition Peer0 :: "'s Peer" where
  "Peer0 = \<lparr>addr = Endpoint0, session = None, remote_boot = 0, acked = False, next_hello = 0, pending = []\<rparr>"

definition rpc_new :: "socket \<Rightarrow> u64 \<Rightarrow> ('s, 'k) rpc" where
  "rpc_new sock b = \<lparr>demux = \<lparr>inner = sock, views = []\<rparr>, boot = b, peers = [], calls = [],
     stranger_next = [], next_req = 1, req_wrapped = False\<rparr>"

definition now :: "('s, 'k) rpc \<Rightarrow> nat" where
  "now r = clock (inner (demux r))"

definition set_peer :: "u64 \<Rightarrow> 's Peer \<Rightarrow> ('s, 'k) rpc \<Rightarrow> ('s, 'k) rpc" where
  "set_peer k p r = r\<lparr>peers := AList.update k p (peers r)\<rparr>"

definition get_peer :: "u64 \<Rightarrow> ('s, 'k) rpc \<Rightarrow> 's Peer" where
  "get_peer k r = (case map_of (peers r) k of Some p \<Rightarrow> p | None \<Rightarrow> Peer0)"

text \<open>Changing a peer through a reference to it.\<close>

definition upd_peer :: "u64 \<Rightarrow> ('s Peer \<Rightarrow> 's Peer) \<Rightarrow> ('s, 'k) rpc \<Rightarrow> ('s, 'k) rpc" where
  "upd_peer k f r = set_peer k (f (get_peer k r)) r"

text \<open>\<open>RpcNode::peer\<close>: makes the entry on first use.\<close>

definition touch_peer :: "Endpoint \<Rightarrow> ('s, 'k) rpc \<Rightarrow> ('s, 'k) rpc" where
  "touch_peer a r = upd_peer (ekey a) (\<lambda>p. if addr p = Endpoint0 then p\<lparr>addr := a\<rparr> else p) r"

definition is_established :: "'s Peer \<Rightarrow> bool" where
  "is_established p \<longleftrightarrow> remote_boot p \<noteq> 0 \<and> acked p \<and> session p \<noteq> None"

definition established :: "Endpoint \<Rightarrow> ('s, 'k) rpc \<Rightarrow> bool" where
  "established ep r = (case map_of (peers r) (ekey ep) of None \<Rightarrow> False | Some p \<Rightarrow> is_established p)"


section \<open>Sending\<close>

definition send_all :: "Endpoint \<Rightarrow> bytes list \<Rightarrow> ('s, 'k) rpc \<Rightarrow> ('s, 'k) rpc" where
  "send_all to ds r = r\<lparr>demux := fold (inner_send to) ds (demux r)\<rparr>"

text \<open>\<open>Session::send\<close> on the session of a peer; without a session nothing is sent.\<close>

definition session_send :: "'s session_ops \<Rightarrow> u64 \<Rightarrow> bytes \<Rightarrow> ('s, 'k) rpc \<Rightarrow> bool \<times> ('s, 'k) rpc" where
  "session_send ops k frame r =
    (case session (get_peer k r) of
       None \<Rightarrow> (False, r)
     | Some s \<Rightarrow>
        (let (ok, ds, s) = s_send ops (now r) frame s
         in (ok, send_all (addr (get_peer k r)) ds (upd_peer k (\<lambda>p. p\<lparr>session := Some s\<rparr>) r))))"

definition send_hello :: "u64 \<Rightarrow> nat \<Rightarrow> ('s, 'k) rpc \<Rightarrow> ('s, 'k) rpc" where
  "send_hello k t r =
    (let r = send_all (addr (get_peer k r)) [encode_hello (Hello0\<lparr>is_ack := False, sender_boot := boot r\<rparr>)] r
     in upd_peer k (\<lambda>p. p\<lparr>next_hello := t + kHelloRetry\<rparr>) r)"

text \<open>
  \<open>RpcNode::call\<close>: the status with which the callback runs at once, if it does, and the state. In
  both such cases the callback is the last thing the function does.
\<close>

definition call ::
  "'s session_ops \<Rightarrow> Endpoint \<Rightarrow> Method \<Rightarrow> bytes \<Rightarrow> nat \<Rightarrow> 'k \<Rightarrow> ('s, 'k) rpc \<Rightarrow> u32 option \<times> ('s, 'k) rpc" where
  "call ops to m body timeout k r =
    (if length body > kMaxRpcBody then (Some kTooLarge, r)
     else
      (let i = next_req r;
           r = r\<lparr>next_req := i + 1, req_wrapped := req_wrapped r \<or> i + 1 = 0\<rparr>;
           frame = encode_rpc Request m i 0 body;
           r = touch_peer to r;
           p = get_peer (ekey to) r;
           t = now r;
           c = \<lparr>peer_key = ekey to, deadline = t + timeout, cb = k\<rparr> in
       if is_established p then
        (let (ok, r) = session_send ops (ekey to) frame r in
         if \<not> ok then (Some kBusy, r) else (None, r\<lparr>calls := AList.update i c (calls r)\<rparr>))
       else
        (let r = upd_peer (ekey to) (\<lambda>p. p\<lparr>pending := pending p @ [frame]\<rparr>) r;
             r = (if t \<ge> next_hello p then send_hello (ekey to) t r else r)
         in (None, r\<lparr>calls := AList.update i c (calls r)\<rparr>))))"

definition respond :: "'s session_ops \<Rightarrow> ReqCtx \<Rightarrow> u32 \<Rightarrow> bytes \<Rightarrow> ('s, 'k) rpc \<Rightarrow> ('s, 'k) rpc" where
  "respond ops ctx st body r =
    (if \<not> established (ctx_from ctx) r then r
     else snd (session_send ops (ekey (ctx_from ctx))
            (encode_rpc Response (ctx_method ctx) (ctx_req_id ctx) st body) r))"

text \<open>The loop of \<open>flush_pending\<close> over the queued frames: what is left, and the state.\<close>

fun flush_frames :: "'s session_ops \<Rightarrow> u64 \<Rightarrow> bytes list \<Rightarrow> ('s, 'k) rpc \<Rightarrow> bytes list \<times> ('s, 'k) rpc" where
  "flush_frames ops k [] r = ([], r)"
| "flush_frames ops k (f # fs) r =
    (let (ok, r) = session_send ops k f r in if \<not> ok then (f # fs, r) else flush_frames ops k fs r)"

definition flush_pending :: "'s session_ops \<Rightarrow> u64 \<Rightarrow> ('s, 'k) rpc \<Rightarrow> ('s, 'k) rpc" where
  "flush_pending ops k r =
    (let (rest, r) = flush_frames ops k (pending (get_peer k r)) r
     in upd_peer k (\<lambda>p. p\<lparr>pending := rest\<rparr>) r)"

definition establish :: "'s session_ops \<Rightarrow> u64 \<Rightarrow> ('s, 'k) rpc \<Rightarrow> ('s, 'k) rpc" where
  "establish ops k r =
    (let a = addr (get_peer k r);
         r = r\<lparr>demux := demux_view a (demux r)\<rparr>;
         r = upd_peer k (\<lambda>p. p\<lparr>session := Some (s_new ops a)\<rparr>) r
     in flush_pending ops k r)"


section \<open>Finishing calls\<close>

definition finish_call :: "('s, 'k, 'u) app \<Rightarrow> u64 \<Rightarrow> u32 \<Rightarrow> bytes \<Rightarrow> ('s, 'k) rpc \<times> 'u \<Rightarrow> ('s, 'k) rpc \<times> 'u" where
  "finish_call a i st body n =
    (let (r, u) = n in
     case map_of (calls r) i of
       None \<Rightarrow> n
     | Some c \<Rightarrow> fire a (cb c) st body (r\<lparr>calls := AList.delete i (calls r)\<rparr>, u))"

definition fail_calls_to :: "('s, 'k, 'u) app \<Rightarrow> u64 \<Rightarrow> u32 \<Rightarrow> ('s, 'k) rpc \<times> 'u \<Rightarrow> ('s, 'k) rpc \<times> 'u" where
  "fail_calls_to a k st n =
    (let ids = map fst (filter (\<lambda>(i, c). peer_key c = k) (calls (fst n)))
     in fold (\<lambda>i. finish_call a i st []) ids n)"

definition teardown :: "('s, 'k, 'u) app \<Rightarrow> u64 \<Rightarrow> bool \<Rightarrow> ('s, 'k) rpc \<times> 'u \<Rightarrow> ('s, 'k) rpc \<times> 'u" where
  "teardown a k fail_calls n =
    (let (r, u) = n;
         p = get_peer k r;
         r = upd_peer k (\<lambda>p. p\<lparr>session := None\<rparr>) r;
         r = r\<lparr>demux := drop_view (addr p) (demux r)\<rparr>;
         r = upd_peer k (\<lambda>p. p\<lparr>pending := [], next_hello := 0\<rparr>) r
     in if fail_calls then fail_calls_to a (ekey (addr p)) kPeerDown (r, u) else (r, u))"

definition peer_dead :: "('s, 'k, 'u) app \<Rightarrow> Endpoint \<Rightarrow> ('s, 'k) rpc \<times> 'u \<Rightarrow> ('s, 'k) rpc \<times> 'u" where
  "peer_dead a ep n =
    (case map_of (peers (fst n)) (ekey ep) of
       None \<Rightarrow> fail_calls_to a (ekey ep) kPeerDown n
     | Some p \<Rightarrow>
        (let (r, u) = teardown a (ekey ep) True n
         in (r\<lparr>peers := AList.delete (ekey ep) (peers r)\<rparr>, u)))"


section \<open>The handshake\<close>

definition handle_hello ::
  "'s session_ops \<Rightarrow> ('s, 'k, 'u) app \<Rightarrow> Endpoint \<Rightarrow> Hello \<Rightarrow> ('s, 'k) rpc \<times> 'u \<Rightarrow> ('s, 'k) rpc \<times> 'u" where
  "handle_hello ops a from h n =
    (let (r, u) = n; k = ekey from; r = touch_peer from r; t = now r;
         changed = (\<lambda>r. remote_boot (get_peer k r) \<noteq> 0 \<and> remote_boot (get_peer k r) \<noteq> sender_boot h) in
     if \<not> is_ack h then
      (let (r, u) =
             (if changed r then (let (r, u) = teardown a k True (r, u) in (upd_peer k (\<lambda>p. p\<lparr>acked := False\<rparr>) r, u))
              else (r, u));
           r = upd_peer k (\<lambda>p. p\<lparr>remote_boot := sender_boot h\<rparr>) r;
           r = send_all from [encode_hello \<lparr>is_ack = True, sender_boot = boot r, echo_boot = sender_boot h\<rparr>] r;
           p = get_peer k r;
           r = (if \<not> acked p \<and> t \<ge> next_hello p then send_hello k t r else r);
           p = get_peer k r
       in (if remote_boot p \<noteq> 0 \<and> acked p \<and> session p = None then establish ops k r else r, u))
     else if echo_boot h \<noteq> boot r then (r, u)
     else
      (let (r, u) = (if changed r then teardown a k True (r, u) else (r, u));
           r = upd_peer k (\<lambda>p. p\<lparr>remote_boot := sender_boot h, acked := True\<rparr>) r
       in (if session (get_peer k r) = None then establish ops k r else r, u)))"

definition handle_stranger :: "Endpoint \<Rightarrow> ('s, 'k) rpc \<Rightarrow> ('s, 'k) rpc" where
  "handle_stranger from r =
    (let t = now r; k = ekey from;
         next = (case map_of (stranger_next r) k of Some x \<Rightarrow> x | None \<Rightarrow> 0) in
     if t < next then r\<lparr>stranger_next := AList.update k next (stranger_next r)\<rparr>
     else
      (let r = r\<lparr>stranger_next := AList.update k (t + kStrangerInterval) (stranger_next r)\<rparr>;
           r = touch_peer from r
       in send_hello k t r))"


section \<open>Polling and ticking\<close>

definition dispatch ::
  "'s session_ops \<Rightarrow> ('s, 'k, 'u) app \<Rightarrow> Endpoint \<Rightarrow> bytes \<Rightarrow> ('s, 'k) rpc \<times> 'u \<Rightarrow> ('s, 'k) rpc \<times> 'u" where
  "dispatch ops a from payload n =
    (case decode_rpc payload of
       Some (Some m) \<Rightarrow>
         if msg_kind m = Response then finish_call a (msg_req_id m) (msg_status m) (msg_body m) n
         else
          (let ctx = \<lparr>ctx_from = from, ctx_req_id = msg_req_id m, ctx_method = msg_method m\<rparr> in
           case serve a (msg_method m) of
             None \<Rightarrow> (respond ops ctx 0xFFFFFFFF [] (fst n), snd n)
           | Some h \<Rightarrow> h ctx (msg_body m) n)
     | _ \<Rightarrow> n)"

text \<open>The loop of \<open>Demux::pump\<close> with the callbacks the constructor installs.\<close>

fun pump_all ::
  "'s session_ops \<Rightarrow> ('s, 'k, 'u) app \<Rightarrow> (Endpoint \<times> bytes) list \<Rightarrow> ('s, 'k) rpc \<times> 'u \<Rightarrow> ('s, 'k) rpc \<times> 'u" where
  "pump_all ops a [] n = n"
| "pump_all ops a ((from, data) # ds) (r, u) =
    (let (ev, d) = route from data (demux r); r = r\<lparr>demux := d\<rparr> in
     pump_all ops a ds
       (case ev of
          ToHello e h \<Rightarrow> handle_hello ops a e h (r, u)
        | ToStranger e \<Rightarrow> (handle_stranger e r, u)
        | Absorbed \<Rightarrow> (r, u)))"

definition pump :: "'s session_ops \<Rightarrow> ('s, 'k, 'u) app \<Rightarrow> ('s, 'k) rpc \<times> 'u \<Rightarrow> ('s, 'k) rpc \<times> 'u" where
  "pump ops a n =
    (let (r, u) = n; d = demux r; ds = rx (inner d)
     in pump_all ops a ds (r\<lparr>demux := d\<lparr>inner := (inner d)\<lparr>rx := []\<rparr>\<rparr>\<rparr>, u))"

text \<open>\<open>Session::poll\<close> on one peer: it drains its view, then its messages reach \<open>dispatch\<close> in order.\<close>

definition poll_peer ::
  "'s session_ops \<Rightarrow> ('s, 'k, 'u) app \<Rightarrow> u64 \<Rightarrow> ('s, 'k) rpc \<times> 'u \<Rightarrow> ('s, 'k) rpc \<times> 'u" where
  "poll_peer ops a k n =
    (let (r, u) = n in
     case map_of (peers r) k of
       None \<Rightarrow> n
     | Some p \<Rightarrow>
        (case session p of
           None \<Rightarrow> n
         | Some s \<Rightarrow>
            (let vk = ekey (addr p);
                 (ds, r) =
                   (case map_of (views (demux r)) vk of
                      None \<Rightarrow> ([], r)
                    | Some v \<Rightarrow>
                       (let (ds, v) = view_drain (s_buf ops) v
                        in (ds, r\<lparr>demux := (demux r)\<lparr>views := AList.update vk v (views (demux r))\<rparr>\<rparr>)));
                 (msgs, out, s) = s_poll ops (now r) ds s;
                 r = send_all (addr p) out (upd_peer k (\<lambda>p. p\<lparr>session := Some s\<rparr>) r)
             in fold (dispatch ops a (addr p)) msgs (r, u))))"

definition rpc_poll :: "'s session_ops \<Rightarrow> ('s, 'k, 'u) app \<Rightarrow> ('s, 'k) rpc \<times> 'u \<Rightarrow> ('s, 'k) rpc \<times> 'u" where
  "rpc_poll ops a n =
    (let n = pump ops a n; keys = map fst (peers (fst n)) in fold (poll_peer ops a) keys n)"

definition tick_peer ::
  "'s session_ops \<Rightarrow> ('s, 'k, 'u) app \<Rightarrow> nat \<Rightarrow> u64 \<Rightarrow> ('s, 'k) rpc \<times> 'u \<Rightarrow> ('s, 'k) rpc \<times> 'u" where
  "tick_peer ops a t k n =
    (let (r, u) = n in
     case map_of (peers r) k of
       None \<Rightarrow> n
     | Some p \<Rightarrow>
        (case session p of
           Some s \<Rightarrow>
            (let (msgs, out, s) = s_tick ops (now r) s;
                 r = send_all (addr p) out (upd_peer k (\<lambda>p. p\<lparr>session := Some s\<rparr>) r);
                 (r, u) = fold (dispatch ops a (addr p)) msgs (r, u)
             in (flush_pending ops k r, u))
         | None \<Rightarrow> (if pending p \<noteq> [] \<and> t \<ge> next_hello p then send_hello k t r else r, u)))"

definition rpc_tick :: "'s session_ops \<Rightarrow> ('s, 'k, 'u) app \<Rightarrow> ('s, 'k) rpc \<times> 'u \<Rightarrow> ('s, 'k) rpc \<times> 'u" where
  "rpc_tick ops a n =
    (let t = now (fst n);
         n = fold (tick_peer ops a t) (map fst (peers (fst n))) n;
         expired = map fst (filter (\<lambda>(i, c). t \<ge> deadline c) (calls (fst n)))
     in fold (\<lambda>i. finish_call a i kTimeout []) expired n)"



section \<open>What the layer leaves alone\<close>

text \<open>Everything but calls and callbacks only touches sockets, peers and pacing.\<close>

definition quiet :: "('s, 'k) rpc \<Rightarrow> ('s, 'k) rpc \<Rightarrow> bool" where
  "quiet r r' \<longleftrightarrow> calls r' = calls r \<and> next_req r' = next_req r \<and> req_wrapped r' = req_wrapped r \<and>
     boot r' = boot r \<and> now r' = now r"

named_theorems quiet_intros \<open>operations that leave the pending calls alone\<close>

lemma quiet_refl [quiet_intros, simp]: "quiet r r"
  by (simp add: quiet_def)

lemma quiet_trans: "quiet r r' \<Longrightarrow> quiet r' r'' \<Longrightarrow> quiet r r''"
  by (simp add: quiet_def)

lemma quiet_peers [quiet_intros, simp]:
  "quiet r (set_peer k p r)" "quiet r (upd_peer k f r)" "quiet r (touch_peer e r)"
  "quiet r (r\<lparr>peers := ps\<rparr>)" "quiet r (r\<lparr>stranger_next := x\<rparr>)"
  by (simp_all add: quiet_def now_def set_peer_def upd_peer_def touch_peer_def)

lemma inner_send_clock: "clock (inner (fold (inner_send to) ds d)) = clock (inner d)"
  by (induction ds arbitrary: d) (simp_all add: inner_send_def)

lemma demux_ops_clock [simp]:
  "inner (demux_view e d) = inner d" "inner (drop_view e d) = inner d" "inner (snd (route e b d)) = inner d"
  by (auto simp: demux_view_def drop_view_def route_def split: option.splits)

lemma quiet_demux: "clock (inner d) = clock (inner (demux r)) \<Longrightarrow> quiet r (r\<lparr>demux := d\<rparr>)"
  by (simp add: quiet_def now_def)

lemma quiet_send_all [quiet_intros, simp]: "quiet r (send_all to ds r)"
  by (simp add: quiet_def now_def send_all_def inner_send_clock)

lemma quiet_session_send [quiet_intros, simp]: "quiet r (snd (session_send ops k f r))"
  by (auto simp: session_send_def intro: quiet_trans [OF quiet_peers(2) quiet_send_all] split: option.split prod.split)

lemma quiet_send_hello [quiet_intros, simp]: "quiet r (send_hello k t r)"
  unfolding send_hello_def Let_def by (rule quiet_trans [OF quiet_send_all quiet_peers(2)])

lemma quiet_respond [quiet_intros, simp]: "quiet r (respond ops ctx s b r)"
  by (simp add: respond_def)

lemma quiet_flush_frames: "flush_frames ops k fs r = (rest, r') \<Longrightarrow> quiet r r'"
proof (induction ops k fs r arbitrary: rest r' rule: flush_frames.induct)
  case (2 ops k f fs r)
  obtain ok r1 where s: "session_send ops k f r = (ok, r1)" by fastforce
  have q: "quiet r r1" using quiet_session_send [of r ops k f] s by simp
  show ?case
    using 2(2) 2(1) [OF s [symmetric] refl] s q quiet_trans by (auto split: if_splits)
qed simp

lemma quiet_flush_pending [quiet_intros, simp]: "quiet r (flush_pending ops k r)"
  by (cases "flush_frames ops k (pending (get_peer k r)) r")
    (auto simp: flush_pending_def intro: quiet_trans [OF quiet_flush_frames])

lemma quiet_establish [quiet_intros, simp]: "quiet r (establish ops k r)"
  unfolding establish_def Let_def
  by (rule quiet_trans [OF quiet_trans [OF quiet_demux quiet_peers(2)] quiet_flush_pending]) simp

lemma quiet_handle_stranger [quiet_intros, simp]: "quiet r (handle_stranger e r)"
  unfolding handle_stranger_def Let_def
  by (auto intro: quiet_trans [OF quiet_trans [OF quiet_peers(5) quiet_peers(3)] quiet_send_hello])


section \<open>Clients of the layer\<close>

text \<open>
  A property \<open>R\<close> of steps that holds of the layer's own bookkeeping, of finishing a call and of every
  request handler holds of polling, ticking and burying a peer.
\<close>

locale rpc_client =
  fixes ops :: "'s session_ops" and a :: "('s, 'k, 'u) app"
    and R :: "('s, 'k) rpc \<times> 'u \<Rightarrow> ('s, 'k) rpc \<times> 'u \<Rightarrow> bool"
  assumes R_refl: "R n n"
    and R_trans: "R n n' \<Longrightarrow> R n' n'' \<Longrightarrow> R n n''"
    and R_quiet: "quiet r r' \<Longrightarrow> R (r, u) (r', u)"
    and R_finish: "map_of (calls r) i = Some c \<Longrightarrow>
      R (r, u) (fire a (cb c) s b (r\<lparr>calls := AList.delete i (calls r)\<rparr>, u))"
    and R_serve: "serve a m = Some h \<Longrightarrow> R n (h ctx b n)"
begin

lemma fold_R: "(\<And>x n. R n (f x n)) \<Longrightarrow> R n (fold f xs n)"
proof (induction xs arbitrary: n)
  case (Cons x xs)
  have "R (f x n) (fold f xs (f x n))" by (rule Cons.IH) (rule Cons.prems)
  from R_trans [OF Cons.prems this] show ?case by simp
qed (simp add: R_refl)

lemma finish_call_R: "R n (finish_call a i s b n)"
  using R_finish by (auto simp: finish_call_def R_refl split: prod.split option.split)

lemma fail_calls_R: "R n (fail_calls_to a k s n)"
  by (simp add: fail_calls_to_def fold_R finish_call_R)

lemma dispatch_R: "R n (dispatch ops a e b n)"
proof -
  have "R (fst n, snd n) (respond ops ctx s [] (fst n), snd n)" for ctx s by (rule R_quiet) simp
  then show ?thesis
    using R_serve finish_call_R by (auto simp: dispatch_def Let_def R_refl split: option.split)
qed

lemma teardown_R: "R n (teardown a k f n)"
proof -
  obtain r u where n: "n = (r, u)" by fastforce
  let ?r1 = "upd_peer k (\<lambda>p. p\<lparr>session := None\<rparr>) r"
  let ?r2 = "?r1\<lparr>demux := drop_view (addr (get_peer k r)) (demux ?r1)\<rparr>"
  let ?r3 = "upd_peer k (\<lambda>p. p\<lparr>pending := [], next_hello := 0\<rparr>) ?r2"
  have "quiet ?r1 ?r2" by (rule quiet_demux) simp
  then have "quiet r ?r3" by (rule quiet_trans [OF quiet_peers(2) quiet_trans [OF _ quiet_peers(2)]])
  then have "R (r, u) (?r3, u)" by (rule R_quiet)
  then show ?thesis
    using n R_trans [OF _ fail_calls_R, of "(r, u)" "(?r3, u)"] by (auto simp: teardown_def Let_def)
qed

lemma peer_dead_R: "R n (peer_dead a ep n)"
proof (cases "map_of (peers (fst n)) (ekey ep)")
  case (Some p)
  have "R (teardown a (ekey ep) True n) (let (r, u) = teardown a (ekey ep) True n
         in (r\<lparr>peers := AList.delete (ekey ep) (peers r)\<rparr>, u))"
    by (auto split: prod.split intro: R_quiet)
  from R_trans [OF teardown_R this] show ?thesis using Some by (simp add: peer_dead_def)
qed (simp add: peer_dead_def fail_calls_R)

lemma quiet_then: "quiet r r' \<Longrightarrow> quiet r (if b then f r' else r')" if "quiet r' (f r')"
  using that quiet_trans by auto

lemma handle_hello_R: "R n (handle_hello ops a e h n)"
proof -
  obtain r u where n: "n = (r, u)" by fastforce
  let ?k = "ekey e" and ?r = "touch_peer e r"
  have t: "R (r, u) (?r, u)" by (rule R_quiet) simp
  let ?ch = "remote_boot (get_peer ?k ?r) \<noteq> 0 \<and> remote_boot (get_peer ?k ?r) \<noteq> sender_boot h"
  show ?thesis
  proof (cases "is_ack h")
    case False
    obtain r1 u1 where 1: "(if ?ch then (let (r, u) = teardown a ?k True (?r, u) in (upd_peer ?k (\<lambda>p. p\<lparr>acked := False\<rparr>) r, u))
        else (?r, u)) = (r1, u1)" by fastforce
    have R1: "R (?r, u) (r1, u1)"
      using 1 teardown_R [of "(?r, u)" ?k True]
      by (auto split: if_splits prod.splits intro: R_refl elim!: R_trans intro!: R_quiet)
    let ?r2 = "send_all e [encode_hello \<lparr>is_ack = True, sender_boot = boot (upd_peer ?k (\<lambda>p. p\<lparr>remote_boot := sender_boot h\<rparr>) r1), echo_boot = sender_boot h\<rparr>]
      (upd_peer ?k (\<lambda>p. p\<lparr>remote_boot := sender_boot h\<rparr>) r1)"
    let ?r3 = "if \<not> acked (get_peer ?k ?r2) \<and> now ?r \<ge> next_hello (get_peer ?k ?r2) then send_hello ?k (now ?r) ?r2 else ?r2"
    let ?p = "get_peer ?k ?r3"
    let ?r4 = "if remote_boot ?p \<noteq> 0 \<and> acked ?p \<and> session ?p = None then establish ops ?k ?r3 else ?r3"
    have "quiet r1 ?r2" by (rule quiet_trans [OF quiet_peers(2) quiet_send_all])
    then have "quiet r1 ?r3" by (rule quiet_then [OF quiet_send_hello])
    then have "quiet r1 ?r4" by (rule quiet_then [OF quiet_establish])
    then have R2: "R (r1, u1) (?r4, u1)" by (rule R_quiet)
    have "handle_hello ops a e h n = (?r4, u1)"
      using False 1 by (simp add: handle_hello_def n Let_def split: prod.split)
    with R_trans [OF t R_trans [OF R1 R2]] n show ?thesis by simp
  next
    case True
    obtain r1 u1 where 1: "(if ?ch then teardown a ?k True (?r, u) else (?r, u)) = (r1, u1)" by fastforce
    have R1: "R (?r, u) (r1, u1)"
      using 1 teardown_R [of "(?r, u)" ?k True] by (auto split: if_splits intro: R_refl)
    let ?r2 = "upd_peer ?k (\<lambda>p. p\<lparr>remote_boot := sender_boot h, acked := True\<rparr>) r1"
    let ?r3 = "if session (get_peer ?k ?r2) = None then establish ops ?k ?r2 else ?r2"
    have "quiet r1 ?r3" by (rule quiet_then [OF quiet_establish]) simp
    then have R2: "R (r1, u1) (?r3, u1)" by (rule R_quiet)
    have "handle_hello ops a e h n = (if echo_boot h \<noteq> boot ?r then (?r, u) else (?r3, u1))"
      using True 1 by (auto simp: handle_hello_def n Let_def split: prod.split)
    with t R_trans [OF t R_trans [OF R1 R2]] n show ?thesis by simp
  qed
qed

lemma pump_all_R: "R n (pump_all ops a ds n)"
proof (induction ds arbitrary: n)
  case Nil
  show ?case by (cases n) (simp add: R_refl)
next
  case (Cons x ds)
  obtain e b where x: "x = (e, b)" by fastforce
  obtain r u where n: "n = (r, u)" by fastforce
  obtain ev d where rt: "route e b (demux r) = (ev, d)" by fastforce
  let ?r = "r\<lparr>demux := d\<rparr>"
  have "inner d = inner (demux r)" using demux_ops_clock(3) [of e b "demux r"] rt by simp
  then have q: "R (r, u) (?r, u)" by (intro R_quiet quiet_demux) simp
  let ?n = "case ev of ToHello e h \<Rightarrow> handle_hello ops a e h (?r, u)
    | ToStranger e \<Rightarrow> (handle_stranger e ?r, u) | Absorbed \<Rightarrow> (?r, u)"
  have h: "R (?r, u) ?n"
    by (cases ev) (simp_all add: handle_hello_R R_refl R_quiet)
  show ?case
    using R_trans [OF R_trans [OF q h] Cons [of ?n]] rt by (simp add: x n Let_def)
qed

lemma pump_R: "R n (pump ops a n)"
proof -
  obtain r u where n: "n = (r, u)" by fastforce
  have "R (r, u) (r\<lparr>demux := (demux r)\<lparr>inner := (inner (demux r))\<lparr>rx := []\<rparr>\<rparr>\<rparr>, u)"
    by (intro R_quiet quiet_demux) simp
  from R_trans [OF this pump_all_R] show ?thesis by (simp add: pump_def n Let_def)
qed

lemma dispatch_all_R:
  assumes "quiet r r'"
  shows "R (r, u) (fold (dispatch ops a e) msgs (r', u))"
  by (rule R_trans [OF R_quiet [OF assms] fold_R]) (rule dispatch_R)

lemma poll_peer_R: "R n (poll_peer ops a k n)"
proof -
  obtain r u where n: "n = (r, u)" by fastforce
  have main: "R (r, u) (poll_peer ops a k (r, u))"
    if p: "map_of (peers r) k = Some p" "session p = Some s" for p s
  proof -
    let ?vk = "ekey (addr p)"
    obtain ds r1 where 1: "(case map_of (views (demux r)) ?vk of None \<Rightarrow> ([], r)
        | Some v \<Rightarrow> (let (ds, v) = view_drain (s_buf ops) v
            in (ds, r\<lparr>demux := (demux r)\<lparr>views := AList.update ?vk v (views (demux r))\<rparr>\<rparr>))) = (ds, r1)" by fastforce
    obtain msgs out s' where 2: "s_poll ops (now r1) ds s = (msgs, out, s')" by (metis surj_pair)
    have "quiet r r1" using 1 by (auto intro!: quiet_demux split: option.splits prod.splits)
    then have "quiet r (send_all (addr p) out (upd_peer k (\<lambda>p. p\<lparr>session := Some s'\<rparr>) r1))"
      by (rule quiet_trans [OF _ quiet_trans [OF quiet_peers(2) quiet_send_all]])
    from dispatch_all_R [OF this, of u "addr p" msgs] show ?thesis
      using p 1 2 by (simp add: poll_peer_def Let_def)
  qed
  show ?thesis
    using main by (cases "map_of (peers r) k"; cases "session (the (map_of (peers r) k))")
      (auto simp: n poll_peer_def R_refl)
qed

lemma tick_peer_R: "R n (tick_peer ops a t k n)"
proof -
  obtain r u where n: "n = (r, u)" by fastforce
  have main: "R (r, u) (tick_peer ops a t k (r, u))"
    if p: "map_of (peers r) k = Some p" "session p = Some s" for p s
  proof -
    obtain msgs out s' where 2: "s_tick ops (now r) s = (msgs, out, s')" by (metis surj_pair)
    let ?r = "send_all (addr p) out (upd_peer k (\<lambda>p. p\<lparr>session := Some s'\<rparr>) r)"
    obtain r2 u2 where 3: "fold (dispatch ops a (addr p)) msgs (?r, u) = (r2, u2)" by fastforce
    have "quiet r ?r" by (rule quiet_trans [OF quiet_peers(2) quiet_send_all])
    from dispatch_all_R [OF this, of u "addr p" msgs] 3 have "R (r, u) (r2, u2)" by simp
    then have "R (r, u) (flush_pending ops k r2, u2)" by (rule R_trans) (rule R_quiet, simp)
    then show ?thesis using p 2 3 by (simp add: tick_peer_def Let_def)
  qed
  have "R (r, u) (if b then send_hello k t r else r, u)" for b by (rule R_quiet) simp
  then show ?thesis
    using main by (cases "map_of (peers r) k"; cases "session (the (map_of (peers r) k))")
      (auto simp: n tick_peer_def R_refl)
qed

lemma rpc_poll_R: "R n (rpc_poll ops a n)"
  unfolding rpc_poll_def Let_def by (rule R_trans [OF pump_R fold_R]) (rule poll_peer_R)

lemma rpc_tick_R: "R n (rpc_tick ops a n)"
  unfolding rpc_tick_def Let_def
  by (rule R_trans [OF fold_R fold_R]) (rule tick_peer_R finish_call_R)+

end

end
