(* ===== verification/Job.thy ===== *)
theory Job
  imports Wire
begin

text \<open>
  Jobs: \<^verbatim>\<open>src/src/job.h\<close> and the job half of \<^verbatim>\<open>src/src/records.cc\<close>. Identifiers and their hexadecimal
  form, the job record with its replicated state, the order \<open>job_advances\<close> that every full-copy
  merge obeys, and the job codec.
\<close>

section \<open>State and identity\<close>

text \<open>
  The state byte is cast to the enumeration without a check, so a decoded job can hold a value
  that is none of the four enumerators.
\<close>

datatype JobState = Ready | Leased | Done | DeadLetter | OtherState u8

fun u8_of_state :: "JobState \<Rightarrow> u8" where
  "u8_of_state Ready = 1"
| "u8_of_state Leased = 2"
| "u8_of_state Done = 3"
| "u8_of_state DeadLetter = 4"
| "u8_of_state (OtherState w) = w"

definition state_of_u8 :: "u8 \<Rightarrow> JobState" where
  "state_of_u8 w =
    (if w = 1 then Ready else if w = 2 then Leased else if w = 3 then Done
     else if w = 4 then DeadLetter else OtherState w)"

record JobId =
  origin :: u64
  nonce :: u64

definition JobId0 :: JobId where
  "JobId0 = \<lparr>origin = 0, nonce = 0\<rparr>"

record Job =
  job_id :: JobId
  idem_key :: string
  url :: string
  body :: bytes
  visibility_ms :: u32
  max_attempts :: u32
  replicas :: "Endpoint list"
  state :: JobState
  owner :: Endpoint
  epoch :: u32
  lease_seq :: u32
  attempts :: u32

text \<open>The default member initialisers of \<^verbatim>\<open>struct Job\<close>; \<open>replicas\<close> is an array of three endpoints.\<close>

definition Job0 :: Job where
  "Job0 = \<lparr>job_id = JobId0, idem_key = [], url = [], body = [], visibility_ms = 30000,
     max_attempts = 5, replicas = [Endpoint0, Endpoint0, Endpoint0], state = Ready,
     owner = Endpoint0, epoch = 1, lease_seq = 0, attempts = 0\<rparr>"

definition kMaxIdemKey :: nat where "kMaxIdemKey = 64"
definition kMaxUrl :: nat where "kMaxUrl = 256"
definition kMaxJobBody :: nat where "kMaxJobBody = 640"
definition kJobIdSize :: nat where "kJobIdSize = 16"


section \<open>Hexadecimal identifiers\<close>

definition hex_char :: "u64 \<Rightarrow> char" where
  "hex_char d =
    (if d < 10 then char_of (48 + unat d) else char_of (87 + unat d))"

text \<open>\<open>%016llx\<close>: the sixteen nibbles, most significant first, lower case, zero padded.\<close>

fun hex_digits :: "nat \<Rightarrow> u64 \<Rightarrow> string" where
  "hex_digits 0 w = []"
| "hex_digits (Suc n) w = hex_char (drop_bit (4 * n) w AND 0xF) # hex_digits n w"

definition to_hex :: "JobId \<Rightarrow> string" where
  "to_hex i = hex_digits 16 (origin i) @ hex_digits 16 (nonce i)"

definition hex_value :: "char \<Rightarrow> u64 option" where
  "hex_value c =
    (if CHR ''0'' \<le> c \<and> c \<le> CHR ''9'' then Some (word_of_nat (of_char c - 48))
     else if CHR ''a'' \<le> c \<and> c \<le> CHR ''f'' then Some (word_of_nat (of_char c - 97 + 10))
     else None)"

fun hex_half :: "string \<Rightarrow> u64 \<Rightarrow> u64 option" where
  "hex_half [] v = Some v"
| "hex_half (c # cs) v = do { d \<leftarrow> hex_value c; hex_half cs (push_bit 4 v OR d) }"

definition from_hex :: "string \<Rightarrow> JobId option" where
  "from_hex s =
    (if length s \<noteq> 32 then None
     else do {
       v0 \<leftarrow> hex_half (take 16 s) 0;
       v1 \<leftarrow> hex_half (drop 16 s) 0;
       Some \<lparr>origin = v0, nonce = v1\<rparr>
     })"


section \<open>The merge order\<close>

definition job_advances :: "Job \<Rightarrow> Job \<Rightarrow> bool" where
  "job_advances local remote =
    (if epoch remote \<noteq> epoch local then epoch local < epoch remote
     else if (state remote = Done) \<noteq> (state local = Done) then state remote = Done
     else if (state remote = DeadLetter) \<noteq> (state local = DeadLetter)
       then state remote = DeadLetter
     else if lease_seq remote \<noteq> lease_seq local then lease_seq local < lease_seq remote
     else state remote = Leased \<and> state local = Ready)"


section \<open>The job codec\<close>

definition put_job_id :: "bytes \<Rightarrow> JobId \<Rightarrow> bytes" where
  "put_job_id out i = put_u64 (put_u64 out (origin i)) (nonce i)"

definition get_job_id :: "bytes \<Rightarrow> nat \<Rightarrow> JobId option" where
  "get_job_id b off = do {
     p \<leftarrow> get_u64 b off;
     n \<leftarrow> get_u64 b (off + 8);
     Some \<lparr>origin = p, nonce = n\<rparr>
   }"

text \<open>The length prefix is the string length cast to sixteen bits.\<close>

definition put_str :: "bytes \<Rightarrow> string \<Rightarrow> bytes" where
  "put_str out s = put_u16 out (word_of_nat (length s)) @ map byte_of_char s"

text \<open>\<open>s[i] = in[off + i]\<close> for \<open>i < n\<close>, each access checked.\<close>

fun get_run :: "bytes \<Rightarrow> nat \<Rightarrow> nat \<Rightarrow> bytes option" where
  "get_run b off 0 = Some []"
| "get_run b off (Suc n) = do {
     x \<leftarrow> get_u8 b off;
     xs \<leftarrow> get_run b (off + 1) n;
     Some (x # xs)
   }"

text \<open>On success the new offset and the string; the inner \<open>None\<close> is the source's \<open>return false\<close>.\<close>

definition get_str :: "bytes \<Rightarrow> nat \<Rightarrow> nat \<Rightarrow> (nat \<times> string) option option" where
  "get_str b off mx =
    (if off + 2 > length b then Some None
     else do {
       n16 \<leftarrow> get_u16 b off;
       let n = unat n16; off = off + 2 in
       if n > mx \<or> off + n > length b then Some None
       else do {
         xs \<leftarrow> get_run b off n;
         Some (Some (off + n, map char_of_byte xs))
       }
     })"

definition put_job :: "bytes \<Rightarrow> Job \<Rightarrow> bytes" where
  "put_job out j =
    (let out = put_job_id out (job_id j);
         out = put_str out (idem_key j);
         out = put_str out (url j);
         out = put_u16 out (word_of_nat (length (body j)));
         out = put_bytes out (body j);
         out = put_u32 out (visibility_ms j);
         out = put_u32 out (max_attempts j);
         out = foldl put_endpoint out (replicas j);
         out = put_u8 out (u8_of_state (state j));
         out = put_endpoint out (owner j);
         out = put_u32 out (epoch j);
         out = put_u32 out (lease_seq j)
     in put_u32 out (attempts j))"

text \<open>The fixed-size tail of a job, after the length check that covers all of it.\<close>

definition get_job_tail ::
  "bytes \<Rightarrow> nat \<Rightarrow> JobId \<Rightarrow> string \<Rightarrow> string \<Rightarrow> bytes \<Rightarrow> (nat \<times> Job) option" where
  "get_job_tail b off i k u bd = do {
     vis \<leftarrow> get_u32 b off;
     mxa \<leftarrow> get_u32 b (off + 4);
     r0 \<leftarrow> get_endpoint b (off + 8);
     r1 \<leftarrow> get_endpoint b (off + 8 + kEndpointSize);
     r2 \<leftarrow> get_endpoint b (off + 8 + kEndpointSize + kEndpointSize);
     let off = off + 8 + kEndpointSize + kEndpointSize + kEndpointSize in do {
       st \<leftarrow> get_u8 b off;
       own \<leftarrow> get_endpoint b (off + 1);
       let off = off + 1 + kEndpointSize in do {
         ep \<leftarrow> get_u32 b off;
         sq \<leftarrow> get_u32 b (off + 4);
         att \<leftarrow> get_u32 b (off + 4 + 4);
         Some (off + 4 + 4 + 4,
           \<lparr>job_id = i, idem_key = k, url = u, body = bd, visibility_ms = vis,
            max_attempts = mxa, replicas = [r0, r1, r2], state = state_of_u8 st, owner = own,
            epoch = ep, lease_seq = sq, attempts = att\<rparr>)
       }
     }
   }"

text \<open>
  On success the number of bytes consumed and the job; the inner \<open>None\<close> is the source's \<open>return 0\<close>.
\<close>

definition get_job :: "bytes \<Rightarrow> nat \<Rightarrow> (nat \<times> Job) option option" where
  "get_job b off =
    (let start = off in
     if off + kJobIdSize > length b then Some None
     else do {
       i \<leftarrow> get_job_id b off;
       let off = off + kJobIdSize in do {
         ks \<leftarrow> get_str b off kMaxIdemKey;
         (case ks of None \<Rightarrow> Some None
          | Some (off, k) \<Rightarrow> do {
              us \<leftarrow> get_str b off kMaxUrl;
              (case us of None \<Rightarrow> Some None
               | Some (off, u) \<Rightarrow>
                   if off + 2 > length b then Some None
                   else do {
                     blen16 \<leftarrow> get_u16 b off;
                     let blen = unat blen16; off = off + 2 in
                     if blen > kMaxJobBody \<or> off + blen > length b then Some None
                     else do {
                       bd \<leftarrow> get_run b off blen;
                       let off = off + blen in
                       if off + 4 + 4 + 4 * kEndpointSize + 1 + 4 + 4 + 4 > length b then Some None
                       else do {
                         (off, j) \<leftarrow> get_job_tail b off i k u bd;
                         Some (Some (off - start, j))
                       }
                     }
                   })
            })
       }
     })"


section \<open>The merge order is a strict order with a finite rank\<close>

definition named_state :: "JobState \<Rightarrow> bool" where
  "named_state s \<longleftrightarrow> s \<in> {Ready, Leased, Done, DeadLetter}"

definition job_rank :: "Job \<Rightarrow> nat" where
  "job_rank j =
    (((unat (epoch j) * 2 + of_bool (state j = Done)) * 2 + of_bool (state j = DeadLetter)) * 2 ^ 32
       + unat (lease_seq j)) * 2 + of_bool (state j = Leased)"

lemma unat_u32_bound: "unat (w :: u32) < 4294967296"
  using unsigned_less [of w] by simp

lemma digit_less_iff:
  fixes m x y s u :: nat
  assumes "s < m" "u < m"
  shows "x * m + s < y * m + u \<longleftrightarrow> x < y \<or> x = y \<and> s < u"
proof (cases x y rule: linorder_cases)
  case less
  then have "Suc x * m \<le> y * m" by (intro mult_le_mono1) simp
  with less assms show ?thesis by simp
next
  case greater
  then have "Suc y * m \<le> x * m" by (intro mult_le_mono1) simp
  with greater assms show ?thesis by simp
qed simp

lemma digit_eq_iff:
  fixes m x y s u :: nat
  assumes "s < m" "u < m"
  shows "x * m + s = y * m + u \<longleftrightarrow> x = y \<and> s = u"
  using digit_less_iff [OF assms, of x y] digit_less_iff [OF assms(2,1), of y x] by auto

lemma rank_lex:
  fixes a a' b b' c c' s s' q q' :: nat
  assumes "b < 2" "b' < 2" "c < 2" "c' < 2" "q < 2" "q' < 2" "s < 4294967296" "s' < 4294967296"
  shows "(((a * 2 + b) * 2 + c) * 4294967296 + s) * 2 + q <
         (((a' * 2 + b') * 2 + c') * 4294967296 + s') * 2 + q' \<longleftrightarrow>
     a < a' \<or> a = a' \<and> (b < b' \<or> b = b' \<and> (c < c' \<or> c = c' \<and> (s < s' \<or> s = s' \<and> q < q')))"
  unfolding digit_less_iff [OF assms(5,6)] digit_less_iff [OF assms(7,8)]
    digit_less_iff [OF assms(3,4)] digit_less_iff [OF assms(1,2)]
    digit_eq_iff [OF assms(7,8)] digit_eq_iff [OF assms(3,4)] digit_eq_iff [OF assms(1,2)]
  by blast

lemma job_rank_less:
  "job_rank l < job_rank r \<longleftrightarrow>
     epoch l < epoch r \<or> epoch l = epoch r \<and>
       (state l \<noteq> Done \<and> state r = Done \<or> (state l = Done) = (state r = Done) \<and>
         (state l \<noteq> DeadLetter \<and> state r = DeadLetter \<or>
          (state l = DeadLetter) = (state r = DeadLetter) \<and>
            (lease_seq l < lease_seq r \<or> lease_seq l = lease_seq r \<and>
              state l \<noteq> Leased \<and> state r = Leased)))"
proof -
  have seq: "unat (lease_seq l) < 4294967296" "unat (lease_seq r) < 4294967296"
    by (rule unat_u32_bound)+
  have flag: "(of_bool P :: nat) < 2" for P
    by simp
  have flags: "((of_bool P :: nat) < of_bool Q) = (\<not> P \<and> Q)"
    "((of_bool P :: nat) = of_bool Q) = (P = Q)" for P Q
    by auto
  show ?thesis
    unfolding job_rank_def
    using rank_lex [OF flag flag flag flag flag flag seq]
    by (simp add: flags word_less_nat_alt word_unat_eq_iff)
qed

lemma job_advances_rank: "job_advances l r \<Longrightarrow> job_rank l < job_rank r"
  unfolding job_advances_def job_rank_less by (simp split: if_splits)

lemma job_advances_iff_rank:
  "named_state (state l) \<Longrightarrow> named_state (state r) \<Longrightarrow> job_advances l r \<longleftrightarrow> job_rank l < job_rank r"
  unfolding job_advances_def job_rank_less named_state_def
  by (cases "state l"; cases "state r"; simp; blast?)

lemma job_rank_eq:
  assumes "named_state (state l)" "named_state (state r)" "job_rank l = job_rank r"
  shows "epoch l = epoch r \<and> state l = state r \<and> lease_seq l = lease_seq r"
proof -
  have "\<not> job_rank l < job_rank r" "\<not> job_rank r < job_rank l"
    using assms by simp_all
  then show ?thesis
    using assms(1,2) unfolding job_rank_less named_state_def
    by (cases "state l"; cases "state r"; auto)
qed

lemma job_advances_lex:
  "job_advances l r \<longleftrightarrow>
     epoch l < epoch r \<or> epoch l = epoch r \<and>
       (state l \<noteq> Done \<and> state r = Done \<or> (state l = Done) = (state r = Done) \<and>
         (state l \<noteq> DeadLetter \<and> state r = DeadLetter \<or>
          (state l = DeadLetter) = (state r = DeadLetter) \<and>
            (lease_seq l < lease_seq r \<or> lease_seq l = lease_seq r \<and>
              state l = Ready \<and> state r = Leased)))"
  unfolding job_advances_def by auto

lemma job_advances_trans: "job_advances a b \<Longrightarrow> job_advances b c \<Longrightarrow> job_advances a c"
  unfolding job_advances_lex by (elim disjE conjE) (use less_trans in auto)


section \<open>Hexadecimal round trip\<close>

lemma nibble_bound: "unat ((d :: u64) AND 0xF) < 16"
proof -
  have "unat (d AND 0xF) \<le> unat (0xF :: u64)"
    by (rule word_and_le1 [THEN word_le_nat_alt [THEN iffD1]])
  then show ?thesis by simp
qed

lemma hex_value_char_of:
  "n < 256 \<Longrightarrow> hex_value (char_of n) =
     (if 48 \<le> n \<and> n \<le> 57 then Some (word_of_nat (n - 48))
      else if 97 \<le> n \<and> n \<le> 102 then Some (word_of_nat (n - 97 + 10)) else None)"
  by (simp add: hex_value_def less_eq_char_def)

lemma hex_value_hex_char:
  assumes "unat d < 16"
  shows "hex_value (hex_char d) = Some d"
proof (cases "unat d < 10")
  case True
  then show ?thesis
    by (simp add: hex_char_def word_less_nat_alt hex_value_char_of del: of_nat_diff)
next
  case False
  then have "hex_value (hex_char d) = Some (word_of_nat (unat d))"
    using assms by (simp add: hex_char_def word_less_nat_alt hex_value_char_of)
  then show ?thesis by simp
qed

lemma hex_char_hex_value:
  assumes "hex_value c = Some d"
  shows "hex_char d = c \<and> unat d < 16"
proof -
  define n :: nat where "n = of_char c"
  have n: "n < 256" "c = char_of n"
    using of_char_mod_256 [of c, where ?'a = nat] by (simp_all add: n_def)
  have "(48 \<le> n \<and> n \<le> 57 \<and> unat d = n - 48) \<or> (97 \<le> n \<and> n \<le> 102 \<and> unat d = n - 97 + 10)"
    using assms n by (auto simp: hex_value_char_of unat_of_nat simp del: of_nat_diff of_nat_add split: if_splits)
  then show ?thesis
    by (auto simp: n hex_char_def word_less_nat_alt)
qed

lemma hex_half_digits: "hex_half (hex_digits n w) (drop_bit (4 * n) w) = Some w"
proof (induction n)
  case (Suc n)
  have "push_bit 4 (drop_bit (4 * Suc n) w) OR (drop_bit (4 * n) w AND 0xF) = drop_bit (4 * n) w"
    (is "?l = ?r")
  proof (rule bit_word_eqI)
    fix i
    have "bit (0xF :: u64) i \<longleftrightarrow> i < 4"
      using bit_mask_iff [of 4 i, where ?'a = u64] by (auto simp: mask_eq_exp_minus_1)
    then show "bit ?l i = bit ?r i" if "i < LENGTH(64)"
      using that by (cases "i < 4") (auto simp: bit_simps)
  qed
  then show ?case
    using Suc hex_value_hex_char [OF nibble_bound] by simp
qed simp

lemma hex_half_inverse:
  "hex_half s v = Some w \<Longrightarrow> length s \<le> 16 \<Longrightarrow> (\<forall>i. 64 \<le> i + 4 * length s \<longrightarrow> \<not> bit v i) \<Longrightarrow>
     hex_digits (length s) w = s \<and> drop_bit (4 * length s) w = v"
proof (induction s arbitrary: v)
  case (Cons c cs)
  from Cons.prems(1) obtain d where d: "hex_value c = Some d"
    and rest: "hex_half cs (push_bit 4 v OR d) = Some w"
    by (auto simp: bind_eq_Some_conv)
  have dc: "hex_char d = c" and small: "unat d < 16"
    using hex_char_hex_value [OF d] by auto
  have dbit: "\<not> bit d i" if "4 \<le> i" for i
  proof -
    have "take_bit 4 (unat d) = unat d"
      using small by (simp add: take_bit_nat_eq_self)
    then have "bit (unat d) i \<longleftrightarrow> i < 4 \<and> bit (unat d) i"
      by (metis bit_take_bit_iff)
    then show ?thesis
      using that by (simp add: bit_unsigned_iff)
  qed
  have "hex_digits (length cs) w = cs \<and> drop_bit (4 * length cs) w = push_bit 4 v OR d"
  proof (rule Cons.IH [OF rest])
    show "length cs \<le> 16" using Cons.prems(2) by simp
    show "\<forall>i. 64 \<le> i + 4 * length cs \<longrightarrow> \<not> bit (push_bit 4 v OR d) i"
      using Cons.prems(2,3) dbit by (auto simp: bit_simps)
  qed
  then have IH: "hex_digits (length cs) w = cs" "drop_bit (4 * length cs) w = push_bit 4 v OR d"
    by auto
  have "(push_bit 4 v OR d) AND 0xF = d"
  proof (rule bit_word_eqI)
    fix i
    have "bit (0xF :: u64) i \<longleftrightarrow> i < 4"
      using bit_mask_iff [of 4 i, where ?'a = u64] by (auto simp: mask_eq_exp_minus_1)
    then show "bit ((push_bit 4 v OR d) AND 0xF) i = bit d i"
      using dbit [of i] by (auto simp: bit_simps)
  qed
  moreover have "drop_bit (4 * length (c # cs)) w = v"
  proof -
    have "drop_bit (4 * length (c # cs)) w = drop_bit 4 (push_bit 4 v OR d)"
      using IH(2) by (simp add: add.commute flip: drop_bit_drop_bit)
    also have "\<dots> = v"
    proof (rule bit_word_eqI)
      fix i assume "i < LENGTH(64)"
      show "bit (drop_bit 4 (push_bit 4 v OR d)) i = bit v i"
        using spec [OF Cons.prems(3), of i] dbit [of "4 + i"]
        by (cases "i < 60") (auto simp: bit_simps)
    qed
    finally show ?thesis .
  qed
  ultimately show ?case
    using IH dc by simp
qed simp

lemma hex_digits_length [simp]: "length (hex_digits n w) = n"
  by (induction n) simp_all


section \<open>Job identifiers as a fixed-width field\<close>

definition job_id_bytes :: "JobId \<Rightarrow> bytes" where
  "job_id_bytes i = u64_bytes (origin i) @ u64_bytes (nonce i)"

lemma put_job_id_append: "put_job_id b i = b @ job_id_bytes i"
  by (simp add: put_job_id_def put_append job_id_bytes_def)

lemma get_job_id_read:
  assumes "remaining b off (job_id_bytes i @ r)"
  shows "get_job_id b off = Some i"
proof -
  have 1: "remaining b off (u64_bytes (origin i) @ u64_bytes (nonce i) @ r)"
    using assms by (simp add: job_id_bytes_def)
  show ?thesis
    using u64f.get_enc [OF 1] u64f.get_enc [OF u64f.step [OF 1]]
    by (simp add: get_job_id_def)
qed

interpretation idx: exact_field job_id_bytes get_job_id kJobIdSize
proof
  show "length (job_id_bytes v) = kJobIdSize" for v
    by (simp add: job_id_bytes_def kJobIdSize_def)
  show "\<exists>v. get_job_id b off = Some v" if "off + kJobIdSize \<le> length b" for off b
    using u64f.get_defined [of off b] u64f.get_defined [of "off + 8" b] that
    by (auto simp: get_job_id_def kJobIdSize_def)
  show "off + kJobIdSize \<le> length b" if "get_job_id b off = Some v" for off b v
    using that
    by (auto simp: get_job_id_def kJobIdSize_def bind_eq_Some_conv dest: u64f.get_bounds)
  show "get_job_id b off = Some v" if "remaining b off (job_id_bytes v @ r)" for b off v r
    using that by (rule get_job_id_read)
  fix xs :: bytes assume len: "length xs = kJobIdSize"
  obtain a where a: "u64_bytes a = take 8 xs"
    using u64x.enc_surj [of "take 8 xs"] len by (auto simp: kJobIdSize_def)
  obtain p where p: "u64_bytes p = drop 8 xs"
    using u64x.enc_surj [of "drop 8 xs"] len by (auto simp: kJobIdSize_def)
  have "job_id_bytes \<lparr>origin = a, nonce = p\<rparr> = xs"
    by (simp add: job_id_bytes_def a p)
  then show "\<exists>v. job_id_bytes v = xs" by blast
qed

lemmas job_id_safe [safe_intros] = idx.get_safe


section \<open>Strings and byte runs\<close>

definition str_bytes :: "string \<Rightarrow> bytes" where
  "str_bytes s = u16_bytes (word_of_nat (length s)) @ map byte_of_char s"

lemma put_str_append: "put_str b s = b @ str_bytes s"
  by (simp add: put_str_def put_append str_bytes_def)

lemma get_run_eq: "off + n \<le> length b \<Longrightarrow> get_run b off n = Some (take n (drop off b))"
proof (induction n arbitrary: off)
  case (Suc n)
  then have "get_u8 b off = Some (b ! off)" "get_run b (off + 1) n = Some (take n (drop (off + 1) b))"
    by (simp_all add: get_u8_def)
  moreover have "take (Suc n) (drop off b) = b ! off # take n (drop (off + 1) b)"
    using Suc.prems Cons_nth_drop_Suc [of off b, symmetric] by (simp only: take_Suc_Cons) simp
  ultimately show ?case by simp
qed simp

lemma unat_word_of_length: "n < 65536 \<Longrightarrow> unat (word_of_nat n :: u16) = n"
  by (simp add: unat_of_nat)

lemma get_str_read:
  assumes r: "remaining b off (str_bytes s @ r)" and len: "length s \<le> mx" "mx < 65536"
  shows "get_str b off mx = Some (Some (off + 2 + length s, s)) \<and> remaining b (off + 2 + length s) r"
proof -
  have 0: "remaining b off (u16_bytes (word_of_nat (length s)) @ map byte_of_char s @ r)"
    using r by (simp add: str_bytes_def)
  have 2: "remaining b (off + 2) (map byte_of_char s @ r)"
    using u16f.step [OF 0] .
  have 3: "remaining b (off + 2 + length s) r"
    using remaining_step [OF 2] by simp
  have fits: "off + 2 \<le> length b" "off + 2 + length s \<le> length b"
    using remaining_length [OF 2] by simp_all
  have "get_run b (off + 2) (length s) = Some (map byte_of_char s)"
    using get_run_eq [OF fits(2)] remaining_take [OF 2] by simp
  then show ?thesis
    using fits len 3 u16f.get_enc [OF 0] unat_word_of_length [of "length s"]
    by (simp add: get_str_def del: map_map)
qed

lemma get_run_safe [safe_intros]: "off + n \<le> length b \<Longrightarrow> safe (get_run b off n)"
  by (simp add: get_run_eq)

lemma get_str_safe [safe_intros]: "safe (get_str b off mx)"
  unfolding get_str_def Let_def by (intro safe_intros) simp_all

lemma get_str_SomeD:
  assumes "get_str b off mx = Some (Some (off', s))"
  shows "length s \<le> mx" "off' = off + 2 + length s" "off' \<le> length b"
    and "remaining b off (str_bytes s @ drop off' b)"
proof -
  from assms obtain n where n: "get_u16 b off = Some n" and le: "unat n \<le> mx" "off + 2 + unat n \<le> length b"
    and s: "s = map char_of_byte (take (unat n) (drop (off + 2) b))" "off' = off + 2 + unat n"
    by (auto simp: get_str_def Let_def get_run_eq bind_eq_Some_conv split: if_splits)
  have len: "length s = unat n"
    using le s by simp
  show "length s \<le> mx" "off' = off + 2 + length s" "off' \<le> length b"
    using le s len by simp_all
  have "str_bytes s = u16_bytes n @ take (unat n) (drop (off + 2) b)"
    using len by (simp add: str_bytes_def s(1) del: map_map)
  moreover have "remaining b off (u16_bytes n @ drop (off + 2) b)"
    using u16x.enc_get [OF n] .
  moreover have "drop (off + 2) b = take (unat n) (drop (off + 2) b) @ drop off' b"
    using append_take_drop_id [of "unat n" "drop (off + 2) b"]
    by (simp only: s(2) drop_drop add.commute [of "unat n"])
  ultimately show "remaining b off (str_bytes s @ drop off' b)"
    by (metis append.assoc)
qed

section \<open>The job codec: safety, round trip, canonical form\<close>

definition job_tail_bytes :: "Job \<Rightarrow> bytes" where
  "job_tail_bytes j = u32_bytes (visibility_ms j) @ u32_bytes (max_attempts j) @
     concat (map endpoint_bytes (replicas j)) @ u8_bytes (u8_of_state (state j)) @
     endpoint_bytes (owner j) @ u32_bytes (epoch j) @ u32_bytes (lease_seq j) @ u32_bytes (attempts j)"

definition job_bytes :: "Job \<Rightarrow> bytes" where
  "job_bytes j = job_id_bytes (job_id j) @ str_bytes (idem_key j) @ str_bytes (url j) @
     u16_bytes (word_of_nat (length (body j))) @ body j @ job_tail_bytes j"

lemma foldl_put_endpoint: "foldl put_endpoint out es = out @ concat (map endpoint_bytes es)"
  by (induction es arbitrary: out) (simp_all add: put_endpoint_append)

lemma put_job_append: "put_job out j = out @ job_bytes j"
  by (simp add: put_job_def Let_def put_append put_job_id_append put_str_append
      put_endpoint_append foldl_put_endpoint job_bytes_def job_tail_bytes_def)

text \<open>The jobs a C++ \<^verbatim>\<open>Job\<close> with admissible field lengths can hold.\<close>

definition wf_job :: "Job \<Rightarrow> bool" where
  "wf_job j \<longleftrightarrow> length (idem_key j) \<le> kMaxIdemKey \<and> length (url j) \<le> kMaxUrl \<and>
     length (body j) \<le> kMaxJobBody \<and> length (replicas j) = 3 \<and> (\<exists>w. state j = state_of_u8 w)"

lemma state_of_u8_inverse [simp]: "u8_of_state (state_of_u8 w) = w"
  by (simp add: state_of_u8_def)

lemma state_of_u8_of_state: "\<exists>w. s = state_of_u8 w \<Longrightarrow> state_of_u8 (u8_of_state s) = s"
  by auto

lemma named_state_of_u8: "named_state s \<Longrightarrow> \<exists>w. s = state_of_u8 w"
  by (rule exI [of _ "u8_of_state s"]) (auto simp: named_state_def state_of_u8_def)

lemma job_tail_length: "length (replicas j) = 3 \<Longrightarrow> length (job_tail_bytes j) = 45"
  by (simp add: job_tail_bytes_def length_concat comp_def epf.enc_length kEndpointSize_def
      sum_list_triv)

lemma get_job_tail_offsets:
  "get_job_tail b off i k u bd = do {
     vis \<leftarrow> get_u32 b off;
     mxa \<leftarrow> get_u32 b (off + 4);
     r0 \<leftarrow> get_endpoint b (off + 8);
     r1 \<leftarrow> get_endpoint b (off + 14);
     r2 \<leftarrow> get_endpoint b (off + 20);
     st \<leftarrow> get_u8 b (off + 26);
     own \<leftarrow> get_endpoint b (off + 27);
     ep \<leftarrow> get_u32 b (off + 33);
     sq \<leftarrow> get_u32 b (off + 37);
     att \<leftarrow> get_u32 b (off + 41);
     Some (off + 45,
       \<lparr>job_id = i, idem_key = k, url = u, body = bd, visibility_ms = vis,
        max_attempts = mxa, replicas = [r0, r1, r2], state = state_of_u8 st, owner = own,
        epoch = ep, lease_seq = sq, attempts = att\<rparr>)
   }"
  by (simp add: get_job_tail_def kEndpointSize_def add.commute [of off])

lemma get_job_tail_read:
  assumes r: "remaining b off (job_tail_bytes j @ r)" and wf: "wf_job j"
  shows "get_job_tail b off (job_id j) (idem_key j) (url j) (body j) = Some (off + 45, j) \<and>
     remaining b (off + 45) r"
proof -
  obtain r0 r1 r2 where reps: "replicas j = [r0, r1, r2]"
    using wf by (auto simp: wf_job_def length_Suc_conv eval_nat_numeral)
  let ?t = "u32_bytes (epoch j) @ u32_bytes (lease_seq j) @ u32_bytes (attempts j) @ r"
  have p0: "remaining b off (u32_bytes (visibility_ms j) @ u32_bytes (max_attempts j) @
      endpoint_bytes r0 @ endpoint_bytes r1 @ endpoint_bytes r2 @
      u8_bytes (u8_of_state (state j)) @ endpoint_bytes (owner j) @ ?t)"
    using r by (simp add: job_tail_bytes_def reps)
  note p4 = u32f.step [OF p0]
  note p8 = u32f.step [OF p4]
  note p14 = epf.step [OF p8]
  note p20 = epf.step [OF p14]
  note p26 = epf.step [OF p20]
  note p27 = u8f.step [OF p26]
  note p33 = epf.step [OF p27]
  note p37 = u32f.step [OF p33]
  note p41 = u32f.step [OF p37]
  note p45 = u32f.step [OF p41]
  note reads = u32f.get_enc [OF p0] u32f.get_enc [OF p4] epf.get_enc [OF p8] epf.get_enc [OF p14]
    epf.get_enc [OF p20] u8f.get_enc [OF p26] epf.get_enc [OF p27] u32f.get_enc [OF p33]
    u32f.get_enc [OF p37] u32f.get_enc [OF p41]
  have "state_of_u8 (u8_of_state (state j)) = state j"
    using wf by (simp add: wf_job_def state_of_u8_of_state)
  then show ?thesis
    using reads p45 reps
    by (simp add: get_job_tail_def kEndpointSize_def add.commute [of off])
qed

lemma get_job_tail_safe [safe_intros]:
  "off + 45 \<le> length b \<Longrightarrow> safe (get_job_tail b off i k u bd)"
  unfolding get_job_tail_offsets by (intro safe_intros) (simp_all add: kEndpointSize_def)

lemma get_job_read:
  assumes r: "remaining b off (job_bytes j @ r)" and wf: "wf_job j"
  shows "get_job b off = Some (Some (length (job_bytes j), j))"
proof -
  note w = wf [unfolded wf_job_def kMaxIdemKey_def kMaxUrl_def kMaxJobBody_def]
  let ?k = "idem_key j" and ?u = "url j" and ?n = "length (body j)"
  have p0: "remaining b off (job_id_bytes (job_id j) @ str_bytes ?k @ str_bytes ?u @
      u16_bytes (word_of_nat ?n) @ body j @ job_tail_bytes j @ r)"
    using r by (simp add: job_bytes_def)
  note p1 = idx.step [OF p0, unfolded kJobIdSize_def]
  have k: "get_str b (off + 16) 64 = Some (Some (off + 16 + 2 + length ?k, ?k))"
    and p2: "remaining b (off + 16 + 2 + length ?k) (str_bytes ?u @
      u16_bytes (word_of_nat ?n) @ body j @ job_tail_bytes j @ r)"
    using get_str_read [OF p1, of 64] w by simp_all
  let ?o2 = "off + 16 + 2 + length ?k"
  have u: "get_str b ?o2 256 = Some (Some (?o2 + 2 + length ?u, ?u))"
    and p3: "remaining b (?o2 + 2 + length ?u) (u16_bytes (word_of_nat ?n) @ body j @
      job_tail_bytes j @ r)"
    using get_str_read [OF p2, of 256] w by simp_all
  let ?o3 = "?o2 + 2 + length ?u"
  note p4 = u16f.step [OF p3]
  note p5 = remaining_step [OF p4]
  have n: "get_u16 b ?o3 = Some (word_of_nat ?n)" "unat (word_of_nat ?n :: u16) = ?n"
    using u16f.get_enc [OF p3] unat_word_of_length [of ?n] w by simp_all
  have len: "length b = ?o3 + 2 + ?n + 45 + length r"
    using remaining_length [OF p5] job_tail_length [of j] w by simp
  have bd: "get_run b (?o3 + 2) ?n = Some (body j)"
    using get_run_eq [of "?o3 + 2" ?n b] remaining_take [OF p4] len by simp
  note tl = get_job_tail_read [OF p5 wf]
  have size: "length (job_bytes j) = ?o3 + 2 + ?n + 45 - off"
    using job_tail_length [of j] w
    by (simp add: job_bytes_def str_bytes_def idx.enc_length kJobIdSize_def)
  show ?thesis
    using idx.get_enc [OF p0] k u n bd tl w len size
    by (simp add: get_job_def kJobIdSize_def kMaxIdemKey_def kMaxUrl_def kMaxJobBody_def
        kEndpointSize_def add.commute [of off])
qed


lemma get_job_tail_SomeD:
  assumes "get_job_tail b off i k u bd = Some (off', j)"
  shows "off' = off + 45" "length (replicas j) = 3" "\<exists>w. state j = state_of_u8 w"
    and "job_id j = i" "idem_key j = k" "url j = u" "body j = bd"
    and "drop off b = job_tail_bytes j @ drop off' b"
proof -
  from assms obtain vis mxa r0 r1 r2 st own ep sq att where
    reads: "get_u32 b off = Some vis" "get_u32 b (off + 4) = Some mxa"
      "get_endpoint b (off + 8) = Some r0" "get_endpoint b (off + 14) = Some r1"
      "get_endpoint b (off + 20) = Some r2" "get_u8 b (off + 26) = Some st"
      "get_endpoint b (off + 27) = Some own" "get_u32 b (off + 33) = Some ep"
      "get_u32 b (off + 37) = Some sq" "get_u32 b (off + 41) = Some att"
    and j: "j = \<lparr>job_id = i, idem_key = k, url = u, body = bd, visibility_ms = vis,
        max_attempts = mxa, replicas = [r0, r1, r2], state = state_of_u8 st, owner = own,
        epoch = ep, lease_seq = sq, attempts = att\<rparr>" "off' = off + 45"
    unfolding get_job_tail_offsets by (auto simp: bind_eq_Some_conv)
  show "off' = off + 45" "length (replicas j) = 3" "\<exists>w. state j = state_of_u8 w"
    "job_id j = i" "idem_key j = k" "url j = u" "body j = bd"
    using j by auto
  have "drop off b = u32_bytes vis @ drop (off + 4) b"
    "drop (off + 4) b = u32_bytes mxa @ drop (off + 8) b"
    "drop (off + 8) b = endpoint_bytes r0 @ drop (off + 14) b"
    "drop (off + 14) b = endpoint_bytes r1 @ drop (off + 20) b"
    "drop (off + 20) b = endpoint_bytes r2 @ drop (off + 26) b"
    "drop (off + 26) b = u8_bytes st @ drop (off + 27) b"
    "drop (off + 27) b = endpoint_bytes own @ drop (off + 33) b"
    "drop (off + 33) b = u32_bytes ep @ drop (off + 37) b"
    "drop (off + 37) b = u32_bytes sq @ drop (off + 41) b"
    "drop (off + 41) b = u32_bytes att @ drop (off + 45) b"
    by (rule u32x.drop_get [OF reads(1)] u32x.drop_get [OF reads(2)] epx.drop_get [OF reads(3)]
        epx.drop_get [OF reads(4)] epx.drop_get [OF reads(5)] u8x.drop_get [OF reads(6)]
        epx.drop_get [OF reads(7)] u32x.drop_get [OF reads(8)] u32x.drop_get [OF reads(9)]
        u32x.drop_get [OF reads(10)], simp add: kEndpointSize_def)+
  then show "drop off b = job_tail_bytes j @ drop off' b"
    by (simp add: job_tail_bytes_def j)
qed

lemma get_job_safe [safe_intros]: "safe (get_job b off)"
  unfolding get_job_def Let_def
  by (intro safe_intros) (simp_all add: kJobIdSize_def kEndpointSize_def)

lemma get_job_cases:
  assumes "get_job b off = Some (Some (n, j))"
  obtains i o2 k o3 u m bd o4 where
    "get_job_id b off = Some i"
    "get_str b (off + kJobIdSize) kMaxIdemKey = Some (Some (o2, k))"
    "get_str b o2 kMaxUrl = Some (Some (o3, u))"
    "get_u16 b o3 = Some m" "unat m \<le> kMaxJobBody" "o3 + 2 + unat m \<le> length b"
    "get_run b (o3 + 2) (unat m) = Some bd"
    "get_job_tail b (o3 + 2 + unat m) i k u bd = Some (o4, j)"
    "n = o4 - off" "o3 + 2 + unat m + 45 \<le> length b"
  using assms unfolding get_job_def Let_def
  by (elim decode_elims) (rule that, (assumption | simp add: kEndpointSize_def)+)

lemma get_job_SomeD:
  assumes "get_job b off = Some (Some (n, j))"
  shows "wf_job j" "n = length (job_bytes j)" "remaining b off (job_bytes j @ drop (off + n) b)"
proof -
  from assms obtain i o2 k o3 u m bd o4 where
    i: "get_job_id b off = Some i"
    and k: "get_str b (off + kJobIdSize) kMaxIdemKey = Some (Some (o2, k))"
    and u: "get_str b o2 kMaxUrl = Some (Some (o3, u))"
    and m: "get_u16 b o3 = Some m" "unat m \<le> kMaxJobBody" "o3 + 2 + unat m \<le> length b"
    and run: "get_run b (o3 + 2) (unat m) = Some bd"
    and t: "get_job_tail b (o3 + 2 + unat m) i k u bd = Some (o4, j)"
    and n: "n = o4 - off" and fit: "o3 + 2 + unat m + 45 \<le> length b"
    by (rule get_job_cases)
  note tl = get_job_tail_SomeD [OF t] and ks = get_str_SomeD [OF k] and us = get_str_SomeD [OF u]
  have bdj: "body j = take (unat m) (drop (o3 + 2) b)"
    using tl(7) run get_run_eq [OF m(3)] by simp
  have bd: "length (body j) = unat m"
    using bdj m(3) by simp
  show wf: "wf_job j"
    using tl ks(1) us(1) m bd by (simp add: wf_job_def)
  have "drop off b = job_id_bytes i @ drop (off + kJobIdSize) b"
    by (rule idx.drop_get [OF i]) simp
  also have "drop (off + kJobIdSize) b = str_bytes k @ drop o2 b"
    using ks(4) by (simp add: remaining_def)
  also have "drop o2 b = str_bytes u @ drop o3 b"
    using us(4) by (simp add: remaining_def)
  also have "drop o3 b = u16_bytes m @ drop (o3 + 2) b"
    by (rule u16x.drop_get [OF m(1)]) simp
  also have "drop (o3 + 2) b = body j @ drop (o3 + 2 + unat m) b"
    using append_take_drop_id [of "unat m" "drop (o3 + 2) b"]
    by (simp only: bdj drop_drop add.commute [of "unat m"])
  also have "drop (o3 + 2 + unat m) b = job_tail_bytes j @ drop o4 b"
    using tl(8) .
  finally have all: "drop off b = job_bytes j @ drop o4 b"
    using tl bd by (simp add: job_bytes_def)
  have "off \<le> o4" "o4 \<le> length b"
    using tl(1) ks(2) us(2) fit by simp_all
  moreover have "length b - off = length (job_bytes j) + (length b - o4)"
    using arg_cong [OF all, of length] by simp
  ultimately show "n = length (job_bytes j)" "remaining b off (job_bytes j @ drop (off + n) b)"
    using n all by (simp_all add: remaining_def)
qed

lemma from_hex_of: "from_hex (to_hex i) = Some i"
  using hex_half_digits [of 16 "origin i"] hex_half_digits [of 16 "nonce i"] by (simp add: from_hex_def to_hex_def)


section \<open>Properties\<close>

text \<open>
  C33. The hexadecimal form of a job identifier is a bijection with the strings the strict parser
  accepts: printing then parsing is the identity, and nothing else parses to that identifier.
\<close>

theorem from_hex_to_hex: "from_hex s = Some i \<longleftrightarrow> s = to_hex i"
proof
  assume "s = to_hex i"
  then show "from_hex s = Some i" by (simp add: from_hex_of)
next
  assume "from_hex s = Some i"
  then have len: "length s = 32" and h: "hex_half (take 16 s) 0 = Some (origin i)"
      "hex_half (drop 16 s) 0 = Some (nonce i)"
    by (auto simp: from_hex_def bind_eq_Some_conv split: if_splits)
  have "hex_digits 16 (origin i) = take 16 s" "hex_digits 16 (nonce i) = drop 16 s"
    using hex_half_inverse [OF h(1)] hex_half_inverse [OF h(2)] len by simp_all
  then show "s = to_hex i"
    by (simp add: to_hex_def)
qed

text \<open>
  C21. The order that every full-copy merge obeys is a strict order, so no sequence of adoptions
  returns to an earlier copy. On the four named states it is the order of the numbers \<open>job_rank\<close>, in
  which the epoch weighs most, then Done, then DeadLetter, then the lease sequence, then Leased; it
  compares any two copies unless they agree in epoch, state and lease sequence.
\<close>

theorem job_advances_strict_order:
  "irreflp job_advances \<and> asymp job_advances \<and> transp job_advances \<and>
   (named_state (state a) \<and> named_state (state b) \<longrightarrow>
      (job_advances a b \<longleftrightarrow> job_rank a < job_rank b) \<and>
      (job_advances a b \<or> job_advances b a \<or>
       epoch a = epoch b \<and> state a = state b \<and> lease_seq a = lease_seq b))"
proof (intro conjI impI)
  show "irreflp job_advances"
    using job_advances_rank by (fastforce intro: irreflpI)
  show "asymp job_advances"
    using job_advances_rank by (metis asympI not_less_iff_gr_or_eq)
  show "transp job_advances"
    using job_advances_trans by (rule transpI)
  assume n: "named_state (state a) \<and> named_state (state b)"
  then show "job_advances a b \<longleftrightarrow> job_rank a < job_rank b"
    using job_advances_iff_rank by blast
  from n show "job_advances a b \<or> job_advances b a \<or>
      epoch a = epoch b \<and> state a = state b \<and> lease_seq a = lease_seq b"
    using job_advances_iff_rank [of a b] job_advances_iff_rank [of b a] job_rank_eq [of a b]
    by (meson linorder_neqE_nat)
qed

theorem job_advances_strict_order_witness:
  "let a = Job0\<lparr>state := Leased, lease_seq := 7\<rparr>; b = Job0\<lparr>state := Done\<rparr>; c = Job0\<lparr>epoch := 9\<rparr>
   in job_advances a b \<and> job_rank a < job_rank b \<and> job_advances b c \<and> job_rank b < job_rank c"
  using job_advances_strict_order [of "Job0\<lparr>state := Leased, lease_seq := 7\<rparr>" "Job0\<lparr>state := Done\<rparr>"]
    job_advances_strict_order [of "Job0\<lparr>state := Done\<rparr>" "Job0\<lparr>epoch := 9\<rparr>"]
  by (simp add: job_advances_def Job0_def named_state_def Let_def)

end
