(* ===== verification/Records.thy ===== *)
theory Records
  imports Job
begin

text \<open>
  Log records: \<^verbatim>\<open>src/src/records.h\<close> and the record half of \<^verbatim>\<open>src/src/records.cc\<close>. One record per state
  transition; the same bytes go to the write-ahead log and into Apply RPCs.
\<close>

section \<open>Records\<close>

datatype RecType = RT_Submit | RT_Replicate | RT_Lease | RT_Done | RT_Expire | RT_DeadLetter | RT_Takeover

fun u8_of_rectype :: "RecType \<Rightarrow> u8" where
  "u8_of_rectype RT_Submit = 1"
| "u8_of_rectype RT_Replicate = 2"
| "u8_of_rectype RT_Lease = 3"
| "u8_of_rectype RT_Done = 4"
| "u8_of_rectype RT_Expire = 5"
| "u8_of_rectype RT_DeadLetter = 6"
| "u8_of_rectype RT_Takeover = 7"

text \<open>
  The variant of the seven record structs, fields in declaration order: a lease is id, epoch,
  sequence and worker; a takeover is id, new epoch and new owner.
\<close>

datatype Record =
    SubmitRec Job
  | ReplicateRec Job
  | LeaseRec JobId u32 u32 u64
  | DoneRec JobId u32 u32
  | ExpireRec JobId u32 u32
  | DeadLetterRec JobId u32
  | TakeoverRec JobId u32 Endpoint

definition put_fence :: "bytes \<Rightarrow> JobId \<Rightarrow> u32 \<Rightarrow> u32 \<Rightarrow> bytes" where
  "put_fence out i ep sq = put_u32 (put_u32 (put_job_id out i) ep) sq"

definition put_tag :: "RecType \<Rightarrow> u64 \<Rightarrow> bytes" where
  "put_tag t lsn = put_u64 (put_u8 [] (u8_of_rectype t)) lsn"

fun encode_record :: "Record \<Rightarrow> u64 \<Rightarrow> bytes" where
  "encode_record (SubmitRec j) lsn = put_job (put_tag RT_Submit lsn) j"
| "encode_record (ReplicateRec j) lsn = put_job (put_tag RT_Replicate lsn) j"
| "encode_record (LeaseRec i ep sq w) lsn = put_u64 (put_fence (put_tag RT_Lease lsn) i ep sq) w"
| "encode_record (DoneRec i ep sq) lsn = put_fence (put_tag RT_Done lsn) i ep sq"
| "encode_record (ExpireRec i ep sq) lsn = put_fence (put_tag RT_Expire lsn) i ep sq"
| "encode_record (DeadLetterRec i ep) lsn = put_u32 (put_job_id (put_tag RT_DeadLetter lsn) i) ep"
| "encode_record (TakeoverRec i ep own) lsn =
     put_endpoint (put_u32 (put_job_id (put_tag RT_Takeover lsn) i) ep) own"

text \<open>The payload of a record, by its type byte; the offset starts after type and lsn.\<close>

definition decode_payload :: "bytes \<Rightarrow> u8 \<Rightarrow> nat \<Rightarrow> Record option option" where
  "decode_payload b ty off =
    (if ty = 1 \<or> ty = 2 then do {
       r \<leftarrow> get_job b off;
       (case r of None \<Rightarrow> Some None
        | Some (n, j) \<Rightarrow> Some (Some (if ty = 1 then SubmitRec j else ReplicateRec j)))
     }
     else if ty = 3 then
       (if off + kJobIdSize + 4 + 4 + 8 > length b then Some None
        else do {
          i \<leftarrow> get_job_id b off;
          ep \<leftarrow> get_u32 b (off + kJobIdSize);
          sq \<leftarrow> get_u32 b (off + kJobIdSize + 4);
          w \<leftarrow> get_u64 b (off + kJobIdSize + 8);
          Some (Some (LeaseRec i ep sq w))
        })
     else if ty = 4 \<or> ty = 5 then
       (if off + kJobIdSize + 8 > length b then Some None
        else do {
          i \<leftarrow> get_job_id b off;
          ep \<leftarrow> get_u32 b (off + kJobIdSize);
          sq \<leftarrow> get_u32 b (off + kJobIdSize + 4);
          Some (Some (if ty = 4 then DoneRec i ep sq else ExpireRec i ep sq))
        })
     else if ty = 6 then
       (if off + kJobIdSize + 4 > length b then Some None
        else do {
          i \<leftarrow> get_job_id b off;
          ep \<leftarrow> get_u32 b (off + kJobIdSize);
          Some (Some (DeadLetterRec i ep))
        })
     else if ty = 7 then
       (if off + kJobIdSize + 4 + kEndpointSize > length b then Some None
        else do {
          i \<leftarrow> get_job_id b off;
          ep \<leftarrow> get_u32 b (off + kJobIdSize);
          own \<leftarrow> get_endpoint b (off + kJobIdSize + 4);
          Some (Some (TakeoverRec i ep own))
        })
     else Some None)"

text \<open>The lsn is what the source stores through \<open>lsn_out\<close>.\<close>

definition decode_record :: "bytes \<Rightarrow> (Record \<times> u64) option option" where
  "decode_record b =
    (if length b < 9 then Some None
     else do {
       ty \<leftarrow> get_u8 b 0;
       lsn \<leftarrow> get_u64 b 1;
       r \<leftarrow> decode_payload b ty 9;
       (case r of None \<Rightarrow> Some None | Some rec \<Rightarrow> Some (Some (rec, lsn)))
     })"


section \<open>The record codec\<close>

fun wf_rec :: "Record \<Rightarrow> bool" where
  "wf_rec (SubmitRec j) = wf_job j"
| "wf_rec (ReplicateRec j) = wf_job j"
| "wf_rec _ = True"

fun rec_type :: "Record \<Rightarrow> RecType" where
  "rec_type (SubmitRec j) = RT_Submit"
| "rec_type (ReplicateRec j) = RT_Replicate"
| "rec_type (LeaseRec i ep sq w) = RT_Lease"
| "rec_type (DoneRec i ep sq) = RT_Done"
| "rec_type (ExpireRec i ep sq) = RT_Expire"
| "rec_type (DeadLetterRec i ep) = RT_DeadLetter"
| "rec_type (TakeoverRec i ep own) = RT_Takeover"

fun payload_bytes :: "Record \<Rightarrow> bytes" where
  "payload_bytes (SubmitRec j) = job_bytes j"
| "payload_bytes (ReplicateRec j) = job_bytes j"
| "payload_bytes (LeaseRec i ep sq w) = job_id_bytes i @ u32_bytes ep @ u32_bytes sq @ u64_bytes w"
| "payload_bytes (DoneRec i ep sq) = job_id_bytes i @ u32_bytes ep @ u32_bytes sq"
| "payload_bytes (ExpireRec i ep sq) = job_id_bytes i @ u32_bytes ep @ u32_bytes sq"
| "payload_bytes (DeadLetterRec i ep) = job_id_bytes i @ u32_bytes ep"
| "payload_bytes (TakeoverRec i ep own) = job_id_bytes i @ u32_bytes ep @ endpoint_bytes own"

lemma encode_record_append:
  "encode_record r lsn = u8_bytes (u8_of_rectype (rec_type r)) @ u64_bytes lsn @ payload_bytes r"
  by (cases r) (simp_all add: put_append put_tag_def put_fence_def put_job_append put_job_id_append
      put_endpoint_append)

lemma decode_payload_safe [safe_intros]: "safe (decode_payload b ty off)"
  unfolding decode_payload_def
  by (intro safe_intros) (simp_all add: kJobIdSize_def kEndpointSize_def)

lemma decode_record_safe [safe_intros]: "safe (decode_record b)"
  unfolding decode_record_def by (intro safe_intros) simp_all

lemma decode_payload_read:
  assumes r: "remaining b off (payload_bytes r @ rest)" and wf: "wf_rec r"
  shows "decode_payload b (u8_of_rectype (rec_type r)) off = Some (Some r)"
proof -
  show ?thesis
  proof (cases r)
    case (SubmitRec j)
    then show ?thesis
      using get_job_read [of b off j rest] r wf by (simp add: decode_payload_def)
  next
    case (ReplicateRec j)
    then show ?thesis
      using get_job_read [of b off j rest] r wf by (simp add: decode_payload_def)
  next
    case (LeaseRec i ep sq w)
    then have p0: "remaining b off (job_id_bytes i @ u32_bytes ep @ u32_bytes sq @ u64_bytes w @ rest)"
      using r by simp
    note p1 = idx.step [OF p0] and p2 = u32f.step [OF idx.step [OF p0]]
    note p3 = u32f.step [OF p2]
    show ?thesis
      using idx.get_enc [OF p0] u32f.get_enc [OF p1] u32f.get_enc [OF p2] u64f.get_enc [OF p3]
        remaining_length [OF p3]
      by (simp add: LeaseRec decode_payload_def add.commute [of "off + kJobIdSize"])
  next
    case (DoneRec i ep sq)
    then have p0: "remaining b off (job_id_bytes i @ u32_bytes ep @ u32_bytes sq @ rest)"
      using r by simp
    note p1 = idx.step [OF p0] and p2 = u32f.step [OF idx.step [OF p0]]
    show ?thesis
      using idx.get_enc [OF p0] u32f.get_enc [OF p1] u32f.get_enc [OF p2] remaining_length [OF p2]
      by (simp add: DoneRec decode_payload_def)
  next
    case (ExpireRec i ep sq)
    then have p0: "remaining b off (job_id_bytes i @ u32_bytes ep @ u32_bytes sq @ rest)"
      using r by simp
    note p1 = idx.step [OF p0] and p2 = u32f.step [OF idx.step [OF p0]]
    show ?thesis
      using idx.get_enc [OF p0] u32f.get_enc [OF p1] u32f.get_enc [OF p2] remaining_length [OF p2]
      by (simp add: ExpireRec decode_payload_def)
  next
    case (DeadLetterRec i ep)
    then have p0: "remaining b off (job_id_bytes i @ u32_bytes ep @ rest)"
      using r by simp
    note p1 = idx.step [OF p0]
    show ?thesis
      using idx.get_enc [OF p0] u32f.get_enc [OF p1] remaining_length [OF p1]
      by (simp add: DeadLetterRec decode_payload_def)
  next
    case (TakeoverRec i ep own)
    then have p0: "remaining b off (job_id_bytes i @ u32_bytes ep @ endpoint_bytes own @ rest)"
      using r by simp
    note p1 = idx.step [OF p0] and p2 = u32f.step [OF idx.step [OF p0]]
    show ?thesis
      using idx.get_enc [OF p0] u32f.get_enc [OF p1] epf.get_enc [OF p2] epf.fits [OF p2]
      by (simp add: TakeoverRec decode_payload_def)
  qed
qed

lemma decode_record_read:
  assumes "wf_rec r"
  shows "decode_record (encode_record r lsn @ rest) = Some (Some (r, lsn))"
proof -
  let ?b = "encode_record r lsn @ rest"
  have p0: "remaining ?b 0 (u8_bytes (u8_of_rectype (rec_type r)) @ u64_bytes lsn @
      payload_bytes r @ rest)"
    by (simp add: encode_record_append remaining_def)
  have p1: "remaining ?b 1 (u64_bytes lsn @ payload_bytes r @ rest)"
    using u8f.step [OF p0] by simp
  have p9: "remaining ?b 9 (payload_bytes r @ rest)"
    using u64f.step [OF p1] by simp
  show ?thesis
    using u8f.get_enc [OF p0] u64f.get_enc [OF p1] decode_payload_read [OF p9 assms]
      remaining_length [OF p9]
    by (simp add: decode_record_def)
qed

lemma decode_payload_SomeD:
  assumes "decode_payload b ty off = Some (Some r)"
  shows "wf_rec r \<and> ty = u8_of_rectype (rec_type r) \<and> (\<exists>rest. drop off b = payload_bytes r @ rest)"
proof -
  consider (job) "ty = 1 \<or> ty = 2" | (lease) "ty = 3" | (fence) "ty = 4 \<or> ty = 5"
    | (dead) "ty = 6" | (take) "ty = 7"
    using assms by (auto simp: decode_payload_def split: if_splits)
  then show ?thesis
  proof cases
    case job
    with assms obtain n j where j: "get_job b off = Some (Some (n, j))"
      and r: "r = (if ty = 1 then SubmitRec j else ReplicateRec j)"
      by (auto simp: decode_payload_def elim!: decode_elims split: option.splits)
    note J = get_job_SomeD [OF j]
    show ?thesis
      using J(1) J(3) r job by (auto simp: remaining_def)
  next
    case lease
    with assms obtain i ep sq w where i: "get_job_id b off = Some i"
      and ep: "get_u32 b (off + kJobIdSize) = Some ep"
      and sq: "get_u32 b (off + kJobIdSize + 4) = Some sq"
      and w: "get_u64 b (off + kJobIdSize + 8) = Some w" and r: "r = LeaseRec i ep sq w"
      by (auto simp: decode_payload_def elim!: decode_elims)
    have "drop off b = job_id_bytes i @ drop (off + kJobIdSize) b"
      "drop (off + kJobIdSize) b = u32_bytes ep @ drop (off + kJobIdSize + 4) b"
      "drop (off + kJobIdSize + 4) b = u32_bytes sq @ drop (off + kJobIdSize + 8) b"
      "drop (off + kJobIdSize + 8) b = u64_bytes w @ drop (off + kJobIdSize + 16) b"
      by (rule idx.drop_get [OF i] u32x.drop_get [OF ep] u32x.drop_get [OF sq]
          u64x.drop_get [OF w], simp)+
    then show ?thesis
      using r lease by simp
  next
    case fence
    with assms obtain i ep sq where i: "get_job_id b off = Some i"
      and ep: "get_u32 b (off + kJobIdSize) = Some ep"
      and sq: "get_u32 b (off + kJobIdSize + 4) = Some sq"
      and r: "r = (if ty = 4 then DoneRec i ep sq else ExpireRec i ep sq)"
      by (auto simp: decode_payload_def elim!: decode_elims)
    have "drop off b = job_id_bytes i @ drop (off + kJobIdSize) b"
      "drop (off + kJobIdSize) b = u32_bytes ep @ drop (off + kJobIdSize + 4) b"
      "drop (off + kJobIdSize + 4) b = u32_bytes sq @ drop (off + kJobIdSize + 8) b"
      by (rule idx.drop_get [OF i] u32x.drop_get [OF ep] u32x.drop_get [OF sq], simp)+
    then show ?thesis
      using r fence by auto
  next
    case dead
    with assms obtain i ep where i: "get_job_id b off = Some i"
      and ep: "get_u32 b (off + kJobIdSize) = Some ep" and r: "r = DeadLetterRec i ep"
      by (auto simp: decode_payload_def elim!: decode_elims)
    have "drop off b = job_id_bytes i @ drop (off + kJobIdSize) b"
      "drop (off + kJobIdSize) b = u32_bytes ep @ drop (off + kJobIdSize + 4) b"
      by (rule idx.drop_get [OF i] u32x.drop_get [OF ep], simp)+
    then show ?thesis
      using r dead by simp
  next
    case take
    with assms obtain i ep own where i: "get_job_id b off = Some i"
      and ep: "get_u32 b (off + kJobIdSize) = Some ep"
      and own: "get_endpoint b (off + kJobIdSize + 4) = Some own" and r: "r = TakeoverRec i ep own"
      by (auto simp: decode_payload_def elim!: decode_elims)
    have "drop off b = job_id_bytes i @ drop (off + kJobIdSize) b"
      "drop (off + kJobIdSize) b = u32_bytes ep @ drop (off + kJobIdSize + 4) b"
      "drop (off + kJobIdSize + 4) b = endpoint_bytes own @ drop (off + kJobIdSize + 4 + kEndpointSize) b"
      by (rule idx.drop_get [OF i] u32x.drop_get [OF ep] epx.drop_get [OF own], simp)+
    then show ?thesis
      using r take by simp
  qed
qed

lemma decode_record_SomeD:
  assumes "decode_record b = Some (Some (r, lsn))"
  shows "wf_rec r \<and> (\<exists>rest. b = encode_record r lsn @ rest)"
proof -
  from assms obtain ty where ty: "get_u8 b 0 = Some ty" and l: "get_u64 b 1 = Some lsn"
    and p: "decode_payload b ty 9 = Some (Some r)"
    by (auto simp: decode_record_def elim!: decode_elims split: option.splits)
  have "drop 0 b = u8_bytes ty @ drop 1 b" "drop 1 b = u64_bytes lsn @ drop 9 b"
    by (rule u8x.drop_get [OF ty] u64x.drop_get [OF l], simp)+
  then show ?thesis
    using decode_payload_SomeD [OF p] by (auto simp: encode_record_append)
qed

text \<open>Sizes: a job and every record about it fit one RPC body and one log frame.\<close>

lemma job_bytes_length:
  "wf_job j \<Longrightarrow> length (job_bytes j) = 67 + length (idem_key j) + length (url j) + length (body j)"
  using job_tail_length [of j]
  by (simp add: wf_job_def job_bytes_def str_bytes_def idx.enc_length kJobIdSize_def)

lemma job_bytes_bound: "wf_job j \<Longrightarrow> length (job_bytes j) \<le> 1027"
  by (simp add: job_bytes_length wf_job_def kMaxIdemKey_def kMaxUrl_def kMaxJobBody_def)

lemma encode_record_bound:
  assumes "wf_rec r"
  shows "9 < length (encode_record r lsn) \<and> length (encode_record r lsn) \<le> 1036"
proof (cases r)
  case (SubmitRec j)
  with assms job_bytes_bound [of j] job_bytes_length [of j] show ?thesis
    by (simp add: encode_record_append)
next
  case (ReplicateRec j)
  with assms job_bytes_bound [of j] job_bytes_length [of j] show ?thesis
    by (simp add: encode_record_append)
qed (simp_all add: encode_record_append idx.enc_length epf.enc_length kJobIdSize_def kEndpointSize_def)


section \<open>Properties\<close>

text \<open>
  C29. No byte string, whatever its contents and length, makes the record decoder or the job
  decoder (at any offset) read outside its input.
\<close>

theorem record_decoder_in_bounds: "decode_record b \<noteq> None \<and> get_job b off \<noteq> None"
  using decode_record_safe [of b] get_job_safe [of b off] by (simp add: safe_def)

text \<open>
  C25. A byte string decodes to a record exactly when it starts with the encoding of that record
  under that sequence number and the record's key, URL and body are within their limits: decoding
  inverts encoding, and re-encoding a decoded record reproduces its bytes.
\<close>

theorem record_codec_exact:
  "decode_record b = Some (Some (r, lsn)) \<longleftrightarrow> wf_rec r \<and> (\<exists>rest. b = encode_record r lsn @ rest)"
  using decode_record_SomeD [of b r lsn] decode_record_read [of r lsn] by blast

end
