(* ===== verification/Disk.thy ===== *)
theory Disk
  imports Records
begin

text \<open>
  The POSIX calls \<^verbatim>\<open>src/src/wal.cc\<close> makes, on an explicit disk. A path is its list of components, so
  \<open>dir + "/" + name\<close> is \<open>dir @ [name]\<close>. Every call takes the next outcome of a script, and succeeds
  once the script is exhausted: a theorem that holds for every script holds for every finite
  pattern of failed, short and interrupted calls. The log code returns at its first failed call,
  so a script that fails from some call on also leaves the disk exactly as a crash of the process
  before that call does.
\<close>

type_synonym path = "string list"

datatype errno = EINTR | EEXIST | ENOENT | EOther

text \<open>
  \<open>SysOk\<close> lets a call do what it does; \<open>SysFail e\<close> makes it fail with \<open>errno = e\<close>; \<open>SysShort n e\<close> makes a
  write return after at most \<open>n\<close> bytes, with \<open>e\<close> the value \<open>errno\<close> held before, and fails any other call.
\<close>

datatype outcome = SysOk | SysFail errno | SysShort nat errno

record disk =
  files :: "(path \<times> bytes) list"
  dirs :: "path list"
  durable :: "(path \<times> bytes) list"
  script :: "outcome list"

definition next_outcome :: "disk \<Rightarrow> outcome \<times> disk" where
  "next_outcome d = (case script d of [] \<Rightarrow> (SysOk, d) | x # xs \<Rightarrow> (x, d\<lparr>script := xs\<rparr>))"

definition is_dir :: "disk \<Rightarrow> path \<Rightarrow> bool" where
  "is_dir d p \<longleftrightarrow> p = [] \<or> p \<in> set (dirs d)"

definition file_at :: "disk \<Rightarrow> path \<Rightarrow> bytes option" where
  "file_at d p = map_of (files d) p"

definition path_exists :: "disk \<Rightarrow> path \<Rightarrow> bool" where
  "path_exists d p \<longleftrightarrow> file_at d p \<noteq> None \<or> is_dir d p"

text \<open>The failure of a call that is not a write: its \<open>errno\<close>, or \<open>None\<close> for a call that may proceed.\<close>

definition fault :: "outcome \<Rightarrow> errno option" where
  "fault oc = (case oc of SysOk \<Rightarrow> None | SysFail e \<Rightarrow> Some e | SysShort n e \<Rightarrow> Some EOther)"

text \<open>\<open>mkdir(2)\<close> reports \<open>EEXIST\<close> exactly for a path that is in use, so no other fault is \<open>EEXIST\<close>.\<close>

definition sys_mkdir :: "path \<Rightarrow> disk \<Rightarrow> errno option \<times> disk" where
  "sys_mkdir p d =
    (let (oc, d) = next_outcome d in
     case fault oc of Some e \<Rightarrow> (Some (if e = EEXIST then EOther else e), d)
     | None \<Rightarrow>
         if path_exists d p then (Some EEXIST, d)
         else if \<not> is_dir d (butlast p) then (Some ENOENT, d)
         else (None, d\<lparr>dirs := p # dirs d\<rparr>))"

text \<open>
  \<open>open(2)\<close> for writing: \<open>creat\<close> is \<open>O_CREAT\<close>, \<open>excl\<close> is \<open>O_EXCL\<close>, \<open>trunc\<close> is \<open>O_TRUNC\<close>. A descriptor is the
  path it was opened on, since no file is renamed or removed while it is open.
\<close>

definition sys_open :: "bool \<Rightarrow> bool \<Rightarrow> bool \<Rightarrow> path \<Rightarrow> disk \<Rightarrow> path option \<times> disk" where
  "sys_open creat excl trunc p d =
    (let (oc, d) = next_outcome d in
     case fault oc of Some e \<Rightarrow> (None, d)
     | None \<Rightarrow>
         if is_dir d p then (None, d)
         else
          (case file_at d p of
             Some c \<Rightarrow>
               if excl then (None, d)
               else (Some p, if trunc then d\<lparr>files := AList.update p [] (files d)\<rparr> else d)
           | None \<Rightarrow>
               if creat \<and> is_dir d (butlast p)
               then (Some p, d\<lparr>files := AList.update p [] (files d)\<rparr>) else (None, d)))"

datatype wres = Wrote nat errno | WErr errno

definition sys_write :: "path \<Rightarrow> bytes \<Rightarrow> disk \<Rightarrow> wres \<times> disk" where
  "sys_write p data d =
    (let (oc, d) = next_outcome d in
     case file_at d p of
       None \<Rightarrow> (WErr EOther, d)
     | Some c \<Rightarrow>
        (case oc of
           SysFail e \<Rightarrow> (WErr e, d)
         | SysOk \<Rightarrow> (Wrote (length data) EOther, d\<lparr>files := AList.update p (c @ data) (files d)\<rparr>)
         | SysShort n e \<Rightarrow>
             (Wrote (min n (length data)) e,
              d\<lparr>files := AList.update p (c @ take n data) (files d)\<rparr>)))"

text \<open>\<open>fdatasync(2)\<close>: on success the file's present contents are durable.\<close>

definition sys_sync :: "path \<Rightarrow> disk \<Rightarrow> bool \<times> disk" where
  "sys_sync p d =
    (let (oc, d) = next_outcome d in
     case fault oc of Some e \<Rightarrow> (False, d)
     | None \<Rightarrow>
        (case file_at d p of
           None \<Rightarrow> (False, d)
         | Some c \<Rightarrow> (True, d\<lparr>durable := AList.update p c (durable d)\<rparr>)))"

definition sys_fsync_dir :: "path \<Rightarrow> disk \<Rightarrow> bool \<times> disk" where
  "sys_fsync_dir p d =
    (let (oc, d) = next_outcome d in
     case fault oc of Some e \<Rightarrow> (False, d) | None \<Rightarrow> (is_dir d p, d))"

definition sys_read_all :: "path \<Rightarrow> disk \<Rightarrow> bytes option \<times> disk" where
  "sys_read_all p d =
    (let (oc, d) = next_outcome d in
     case fault oc of Some e \<Rightarrow> (None, d) | None \<Rightarrow> (file_at d p, d))"

definition sys_fstat :: "path \<Rightarrow> disk \<Rightarrow> nat option \<times> disk" where
  "sys_fstat p d = (let (r, d) = sys_read_all p d in (map_option length r, d))"

definition sys_truncate :: "path \<Rightarrow> nat \<Rightarrow> disk \<Rightarrow> bool \<times> disk" where
  "sys_truncate p n d =
    (let (oc, d) = next_outcome d in
     case fault oc of Some e \<Rightarrow> (False, d)
     | None \<Rightarrow>
        (case file_at d p of
           None \<Rightarrow> (False, d)
         | Some c \<Rightarrow> (True, d\<lparr>files := AList.update p (take n c) (files d)\<rparr>)))"

definition sys_rename :: "path \<Rightarrow> path \<Rightarrow> disk \<Rightarrow> bool \<times> disk" where
  "sys_rename p q d =
    (let (oc, d) = next_outcome d in
     case fault oc of Some e \<Rightarrow> (False, d)
     | None \<Rightarrow>
        (case file_at d p of
           None \<Rightarrow> (False, d)
         | Some c \<Rightarrow>
             if is_dir d q \<or> \<not> is_dir d (butlast q) then (False, d)
             else (True, d\<lparr>files := AList.update q c (AList.delete p (files d))\<rparr>)))"

text \<open>\<open>unlink(2)\<close> on a path that is not there fails with \<open>ENOENT\<close>; on a directory it fails too.\<close>

definition sys_unlink :: "path \<Rightarrow> disk \<Rightarrow> errno option \<times> disk" where
  "sys_unlink p d =
    (let (oc, d) = next_outcome d in
     case fault oc of Some e \<Rightarrow> (Some e, d)
     | None \<Rightarrow>
         if is_dir d p then (Some EOther, d)
         else if file_at d p = None then (Some ENOENT, d)
         else (None, d\<lparr>files := AList.delete p (files d)\<rparr>))"

text \<open>
  \<open>std::filesystem::remove_all\<close>. When it fails it may have removed part of the tree; the outcome
  \<open>SysShort n e\<close> removes the first \<open>n\<close> files under the path and then fails.
\<close>

definition under :: "path \<Rightarrow> path \<Rightarrow> bool" where
  "under p q \<longleftrightarrow> take (length p) q = p"

definition sys_remove_all :: "path \<Rightarrow> disk \<Rightarrow> bool \<times> disk" where
  "sys_remove_all p d =
    (let (oc, d) = next_outcome d in
     case oc of
       SysOk \<Rightarrow>
         (True, d\<lparr>files := filter (\<lambda>(q, c). \<not> under p q) (files d),
                  dirs := filter (\<lambda>q. \<not> under p q) (dirs d)\<rparr>)
     | SysFail e \<Rightarrow> (False, d)
     | SysShort n e \<Rightarrow>
         (False, d\<lparr>files := filter (\<lambda>(q, c). q \<notin> set (take n (filter (under p) (map fst (files d)))))
                     (files d)\<rparr>))"

text \<open>\<open>opendir\<close>/\<open>readdir\<close>: the entry names of a directory, each once, in some order.\<close>

definition entries :: "disk \<Rightarrow> path \<Rightarrow> string list" where
  "entries d p =
     remdups (map last (filter (\<lambda>q. q \<noteq> [] \<and> butlast q = p) (map fst (files d) @ dirs d)))"

definition sys_list_dir :: "path \<Rightarrow> disk \<Rightarrow> string list option \<times> disk" where
  "sys_list_dir p d =
    (let (oc, d) = next_outcome d in
     case fault oc of Some e \<Rightarrow> (None, d)
     | None \<Rightarrow> (if is_dir d p then Some (entries d p) else None, d))"


section \<open>Writing a whole buffer\<close>

text \<open>
  The loop \<open>while (written < frame.size())\<close> around \<open>write(2)\<close>. An interrupted call is repeated. \<open>zr\<close> says
  whether a call that wrote nothing also consults \<open>errno\<close>, as \<open>Wal::append\<close> does and \<open>write_frame\<close> does
  not. A script is finite, so a call is interrupted finitely often and the loop ends.
\<close>

function write_loop :: "bool \<Rightarrow> path \<Rightarrow> bytes \<Rightarrow> disk \<Rightarrow> bool \<times> disk" where
  "write_loop zr p data d =
    (if data = [] then (True, d)
     else
      (case sys_write p data d of
         (Wrote n e, d') \<Rightarrow>
           if 0 < n then write_loop zr p (drop n data) d'
           else if zr \<and> e = EINTR then write_loop zr p data d' else (False, d')
       | (WErr e, d') \<Rightarrow> if e = EINTR then write_loop zr p data d' else (False, d')))"
  by pat_completeness auto
termination
proof (relation "measures [\<lambda>(z, p, data, d). length (script d), \<lambda>(z, p, data, d). length data]")
  show "wf (measures [\<lambda>(z, p, data, d). length (script d), \<lambda>(z, p, data, d). length data])"
    by simp
qed (auto simp: sys_write_def next_outcome_def split: list.splits option.splits outcome.splits)

declare write_loop.simps [simp del]


section \<open>What the calls change\<close>

text \<open>A disk on which every entry has a parent directory and no path is both a file and a directory.\<close>

definition wf_disk :: "disk \<Rightarrow> bool" where
  "wf_disk d \<longleftrightarrow>
     (\<forall>q. file_at d q \<noteq> None \<longrightarrow> \<not> is_dir d q \<and> is_dir d (butlast q)) \<and>
     (\<forall>q\<in>set (dirs d). is_dir d (butlast q))"

text \<open>The part of the disk the log's meaning depends on: its files and its directories.\<close>

definition same_tree :: "disk \<Rightarrow> disk \<Rightarrow> bool" where
  "same_tree d d' \<longleftrightarrow> file_at d' = file_at d \<and> set (dirs d') = set (dirs d)"

lemma same_treeI [intro]: "file_at d' = file_at d \<Longrightarrow> set (dirs d') = set (dirs d) \<Longrightarrow> same_tree d d'"
  by (simp add: same_tree_def)

lemma same_tree_refl [simp]: "same_tree d d"
  by (simp add: same_tree_def)

lemma same_tree_trans: "same_tree a b \<Longrightarrow> same_tree b c \<Longrightarrow> same_tree a c"
  by (simp add: same_tree_def)

lemma same_tree_file: "same_tree d d' \<Longrightarrow> file_at d' p = file_at d p"
  by (simp add: same_tree_def)

lemma same_tree_dir: "same_tree d d' \<Longrightarrow> is_dir d' p = is_dir d p"
  by (simp add: same_tree_def is_dir_def)

lemma same_tree_wf: "same_tree d d' \<Longrightarrow> wf_disk d \<Longrightarrow> wf_disk d'"
  by (simp add: same_tree_def wf_disk_def is_dir_def)

lemma entries_iff:
  "n \<in> set (entries d p) \<longleftrightarrow> file_at d (p @ [n]) \<noteq> None \<or> p @ [n] \<in> set (dirs d)"
proof -
  have q: "(\<exists>q. q \<in> Q \<and> q \<noteq> [] \<and> butlast q = p \<and> last q = n) \<longleftrightarrow> p @ [n] \<in> Q" for Q
    by (metis append_butlast_last_id butlast_snoc last_snoc snoc_eq_iff_butlast)
  show ?thesis
    using q [of "fst ` set (files d) \<union> set (dirs d)"]
    by (auto simp: entries_def file_at_def map_of_eq_None_iff image_iff)
qed

lemma distinct_entries [simp]: "distinct (entries d p)"
  by (simp add: entries_def)

lemma next_outcome_tree:
  assumes "next_outcome d = (oc, d')"
  shows "file_at d' = file_at d" "dirs d' = dirs d" "durable d' = durable d"
    "is_dir d' = is_dir d" "entries d' = entries d"
  using assms
  by (auto simp: next_outcome_def file_at_def is_dir_def entries_def fun_eq_iff split: list.splits)

lemma next_outcome_same: "next_outcome d = (oc, d') \<Longrightarrow> same_tree d d'"
  by (simp add: same_tree_def next_outcome_tree)

lemma next_outcome_empty: "script d = [] \<Longrightarrow> next_outcome d = (SysOk, d)"
  by (simp add: next_outcome_def)

lemma fault_SysOk [simp]: "fault SysOk = None"
  by (simp add: fault_def)

lemma file_at_update [simp]:
  "file_at (d\<lparr>files := AList.update p c (files d)\<rparr>) = (file_at d)(p \<mapsto> c)"
  "file_at (d\<lparr>files := AList.delete p (files d)\<rparr>) = (file_at d)(p := None)"
  by (auto simp: file_at_def update_conv' delete_conv' fun_eq_iff)

lemma file_at_other [simp]:
  "file_at (d\<lparr>dirs := ds\<rparr>) = file_at d" "file_at (d\<lparr>durable := u\<rparr>) = file_at d"
  "file_at (d\<lparr>script := s\<rparr>) = file_at d"
  by (simp_all add: file_at_def fun_eq_iff)

lemma is_dir_other [simp]:
  "is_dir (d\<lparr>files := fs\<rparr>) = is_dir d" "is_dir (d\<lparr>durable := u\<rparr>) = is_dir d"
  "is_dir (d\<lparr>script := s\<rparr>) = is_dir d"
  by (simp_all add: is_dir_def fun_eq_iff)

text \<open>
  One rule per call: what it returned, and what the tree is afterwards as a function of the tree
  before. A call that fails leaves the tree as it was, except for the bytes a write got through and
  the files a failed removal got to.
\<close>

lemmas next_outcome_tree_simps = next_outcome_tree(1,2,4)

lemma sys_mkdir_effect:
  assumes "sys_mkdir p d = (r, d')"
  obtains (fail) e where "r = Some e" "same_tree d d'" "e = EEXIST \<Longrightarrow> path_exists d p"
  | (made) "r = None" "\<not> path_exists d p" "is_dir d (butlast p)"
      "file_at d' = file_at d" "set (dirs d') = insert p (set (dirs d))"
proof -
  obtain oc d1 where n: "next_outcome d = (oc, d1)" by fastforce
  note t = next_outcome_tree_simps [OF n]
  have pe: "path_exists d1 p = path_exists d p" by (simp add: path_exists_def t)
  have ev: "sys_mkdir p d = (case fault oc of Some e \<Rightarrow> (Some (if e = EEXIST then EOther else e), d1)
     | None \<Rightarrow> if path_exists d p then (Some EEXIST, d1)
         else if \<not> is_dir d (butlast p) then (Some ENOENT, d1)
         else (None, d1\<lparr>dirs := p # dirs d1\<rparr>))"
    unfolding sys_mkdir_def n by (simp add: pe t split: option.split)
  show thesis
  proof (cases "fault oc = None \<and> \<not> path_exists d p \<and> is_dir d (butlast p)")
    case True
    with assms ev show thesis by (intro made) (auto simp: t)
  next
    case False
    then have "r \<noteq> None \<and> d' = d1 \<and> (r = Some EEXIST \<longrightarrow> path_exists d p)"
      using ev [unfolded assms] by (cases "fault oc") (auto split: if_splits)
    then show thesis using next_outcome_same [OF n] fail by auto
  qed
qed

lemma sys_open_effect:
  assumes "sys_open creat excl trunc p d = (r, d')"
  obtains (fail) "r = None" "same_tree d d'"
  | (opened) "r = Some p" "\<not> is_dir d p" "set (dirs d') = set (dirs d)"
      "file_at d' = (file_at d)(p \<mapsto> (if trunc then [] else case file_at d p of None \<Rightarrow> [] | Some c \<Rightarrow> c))"
      "excl \<Longrightarrow> file_at d p = None"
      "file_at d p = None \<Longrightarrow> creat \<and> is_dir d (butlast p)"
proof -
  obtain oc d1 where n: "next_outcome d = (oc, d1)" by fastforce
  note t = next_outcome_tree_simps [OF n]
  have "r = None \<and> same_tree d d' \<or>
    r = Some p \<and> \<not> is_dir d p \<and> set (dirs d') = set (dirs d) \<and>
    file_at d' = (file_at d)(p \<mapsto> (if trunc then [] else case file_at d p of None \<Rightarrow> [] | Some c \<Rightarrow> c)) \<and>
    (excl \<longrightarrow> file_at d p = None) \<and> (file_at d p = None \<longrightarrow> creat \<and> is_dir d (butlast p))"
    using assms n
    by (auto simp: sys_open_def t fun_upd_idem dest: next_outcome_tree intro: next_outcome_same
        split: option.splits if_splits)
  then show thesis using that by blast
qed

lemma sys_sync_effect:
  assumes "sys_sync p d = (r, d')"
  shows "same_tree d d'" "r \<Longrightarrow> map_of (durable d') p = file_at d p"
proof -
  obtain oc d1 where n: "next_outcome d = (oc, d1)" by fastforce
  note t = next_outcome_tree [OF n]
  show "same_tree d d'" "r \<Longrightarrow> map_of (durable d') p = file_at d p"
    using assms n by (auto simp: sys_sync_def t update_conv' intro: next_outcome_same split: option.splits)
qed

lemma sys_fsync_dir_effect: "sys_fsync_dir p d = (r, d') \<Longrightarrow> same_tree d d'"
  by (auto simp: sys_fsync_dir_def split: option.splits prod.splits dest: next_outcome_tree intro: next_outcome_same)

lemma sys_read_all_effect:
  "sys_read_all p d = (r, d') \<Longrightarrow> same_tree d d' \<and> (r = None \<or> r = file_at d p)"
  by (auto simp: sys_read_all_def split: option.splits prod.splits dest: next_outcome_tree intro: next_outcome_same)

lemma sys_list_dir_effect:
  "sys_list_dir p d = (r, d') \<Longrightarrow>
     same_tree d d' \<and> (r = None \<or> (is_dir d p \<and> r = Some (entries d p)))"
  by (auto simp: sys_list_dir_def split: option.splits prod.splits if_splits dest: next_outcome_tree intro: next_outcome_same)

lemma sys_truncate_effect:
  assumes "sys_truncate p n d = (r, d')" "file_at d p = Some c"
  shows "\<not> r \<and> same_tree d d' \<or>
    r \<and> file_at d' = (file_at d)(p \<mapsto> take n c) \<and> set (dirs d') = set (dirs d)"
proof -
  obtain oc d1 where n: "next_outcome d = (oc, d1)" by fastforce
  note t = next_outcome_tree_simps [OF n]
  show ?thesis
    using assms n by (auto simp: sys_truncate_def t intro: next_outcome_same split: option.splits)
qed

lemma sys_rename_effect:
  assumes "sys_rename p q d = (r, d')"
  shows "\<not> r \<and> same_tree d d' \<or>
    r \<and> file_at d p \<noteq> None \<and> \<not> is_dir d q \<and> is_dir d (butlast q) \<and>
    file_at d' = ((file_at d)(p := None))(q := file_at d p) \<and> set (dirs d') = set (dirs d)"
proof -
  obtain oc d1 where n: "next_outcome d = (oc, d1)" by fastforce
  note t = next_outcome_tree_simps [OF n]
  have f: "file_at (d1\<lparr>files := AList.update q c (AList.delete p (files d1))\<rparr>) =
      ((file_at d1)(p := None))(q \<mapsto> c)" for c
    by (auto simp: file_at_def update_conv' delete_conv' fun_eq_iff)
  show ?thesis
    using assms n by (auto simp: sys_rename_def t f intro: next_outcome_same split: option.splits if_splits)
qed

lemma sys_unlink_effect:
  assumes "sys_unlink p d = (r, d')"
  shows "same_tree d d' \<or> \<not> is_dir d p \<and> file_at d' = (file_at d)(p := None) \<and> set (dirs d') = set (dirs d)"
proof -
  obtain oc d1 where n: "next_outcome d = (oc, d1)" by fastforce
  note t = next_outcome_tree_simps [OF n]
  show ?thesis
    using assms n by (auto simp: sys_unlink_def t intro: next_outcome_same split: option.splits if_splits)
qed

lemma map_of_filter_key: "map_of (filter (\<lambda>(q, c). P q) xs) q = (if P q then map_of xs q else None)"
  by (induction xs) auto

lemma under_butlast: "under p (butlast q) \<Longrightarrow> under p q"
  by (simp add: under_def butlast_conv_take)
    (metis min.absorb_iff1 nat_le_linear take_all_iff take_take)

lemma sys_remove_all_cases:
  assumes "sys_remove_all p d = (r, d')"
  shows "(\<forall>q. file_at d' q = (if under p q then None else file_at d q)) \<and>
         set (dirs d') = {q \<in> set (dirs d). \<not> under p q} \<or>
         (\<forall>q. file_at d' q = file_at d q \<or> under p q \<and> file_at d' q = None) \<and> set (dirs d') = set (dirs d)"
proof -
  obtain oc d1 where n: "next_outcome d = (oc, d1)" by fastforce
  note t = next_outcome_tree_simps [OF n]
  have f: "file_at (d1\<lparr>files := filter (\<lambda>(q, c). P q) (files d1)\<rparr>) q =
      (if P q then file_at d q else None)"
    "file_at (d1\<lparr>files := filter (\<lambda>(q, c). P q) (files d1), dirs := ds\<rparr>) q =
      (if P q then file_at d q else None)" for P q ds
    using t by (simp_all add: file_at_def map_of_filter_key fun_eq_iff)
  show ?thesis
  proof (cases oc)
    case SysOk
    then show ?thesis using assms n by (auto simp: sys_remove_all_def f t)
  next
    case (SysFail e)
    then show ?thesis using assms n t by (auto simp: sys_remove_all_def)
  next
    case (SysShort k e)
    have u: "q \<in> set (take k (filter (under p) xs)) \<Longrightarrow> under p q" for q xs
      by (auto dest!: in_set_takeD)
    show ?thesis
      by (rule disjI2) (use assms n SysShort in \<open>auto simp: sys_remove_all_def f t dest: u split: if_splits\<close>)
  qed
qed

lemma sys_remove_all_effect:
  assumes "sys_remove_all p d = (r, d')"
  shows "\<not> under p q \<Longrightarrow> file_at d' q = file_at d q"
    and "\<not> under p q \<Longrightarrow> is_dir d' q = is_dir d q"
    and "wf_disk d \<Longrightarrow> wf_disk d'"
proof -
  note c = sys_remove_all_cases [OF assms]
  show "file_at d' q = file_at d q" "is_dir d' q = is_dir d q" if "\<not> under p q"
    using c that by (auto simp: is_dir_def)
  have s: "file_at d' x \<noteq> None \<Longrightarrow> file_at d x \<noteq> None" "x \<in> set (dirs d') \<Longrightarrow> x \<in> set (dirs d)"
    "file_at d' x \<noteq> None \<Longrightarrow> is_dir d (butlast x) \<Longrightarrow> is_dir d' (butlast x)"
    "x \<in> set (dirs d') \<Longrightarrow> is_dir d (butlast x) \<Longrightarrow> is_dir d' (butlast x)" for x
    using c
  proof (atomize (full), elim disjE conjE, goal_cases)
    case 1
    then show ?case by (auto simp: is_dir_def dest: under_butlast split: if_splits)
  next
    case 2
    then show ?case by (metis is_dir_def)
  qed
  show "wf_disk d'" if "wf_disk d"
    using s that unfolding wf_disk_def is_dir_def by blast
qed

text \<open>
  A buffer write appends a prefix of the buffer, the whole of it exactly when it succeeds.
\<close>

lemma sys_write_effect:
  assumes "sys_write p data d = (r, d')" "file_at d p = Some c"
  obtains (wrote) n e where "r = Wrote n e" "n \<le> length data"
      "file_at d' = (file_at d)(p \<mapsto> c @ take n data)" "set (dirs d') = set (dirs d)"
  | (err) e where "r = WErr e" "same_tree d d'"
proof -
  obtain oc d1 where n: "next_outcome d = (oc, d1)" by fastforce
  note t = next_outcome_tree_simps [OF n]
  have "(\<exists>n e. r = Wrote n e \<and> n \<le> length data \<and>
      file_at d' = (file_at d)(p \<mapsto> c @ take n data) \<and> set (dirs d') = set (dirs d)) \<or>
    (\<exists>e. r = WErr e \<and> same_tree d d')"
  proof (cases oc)
    case (SysShort k e)
    then show ?thesis
      using assms n by (cases "k \<le> length data") (auto simp: sys_write_def t min_def)
  qed (use assms n in \<open>auto simp: sys_write_def t intro: next_outcome_same\<close>)
  then show thesis using that by blast
qed

lemma write_loop_effect:
  assumes "write_loop zr p data d = (ok, d')" "file_at d p = Some c"
  shows "\<exists>k \<le> length data. file_at d' = (file_at d)(p \<mapsto> c @ take k data) \<and>
    set (dirs d') = set (dirs d) \<and> (ok \<longleftrightarrow> k = length data)"
  using assms
proof (induction zr p data d arbitrary: c rule: write_loop.induct)
  case (1 zr p data d)
  show ?case
  proof (cases "data = []")
    case True
    then show ?thesis using "1.prems" by (auto simp: write_loop.simps fun_upd_idem)
  next
    case False
    obtain r d1 where w: "sys_write p data d = (r, d1)" by fastforce
    from w "1.prems"(2) show ?thesis
    proof (cases rule: sys_write_effect)
      case (wrote n e)
      have c1: "file_at d1 p = Some (c @ take n data)" using wrote by simp
      show ?thesis
      proof (cases "0 < n")
        case True
        with "1.prems" False w wrote have "write_loop zr p (drop n data) d1 = (ok, d')"
          by (simp add: write_loop.simps [of _ p data d])
        from "1.IH"(1) [OF False w [symmetric] wrote(1) True this c1] obtain k where
          "k \<le> length data - n" "file_at d' = (file_at d1)(p \<mapsto> (c @ take n data) @ take k (drop n data))"
          "set (dirs d') = set (dirs d1)" "ok \<longleftrightarrow> k = length data - n"
          unfolding length_drop by blast
        then show ?thesis using wrote True
          by (intro exI [of _ "n + k"]) (auto simp: take_add)
      next
        case n0: False
        then have s: "file_at d1 = file_at d" using wrote "1.prems"(2) by (simp add: fun_upd_idem)
        show ?thesis
        proof (cases "zr \<and> e = EINTR")
          case True
          with "1.prems" False w wrote n0 have "write_loop zr p data d1 = (ok, d')"
            by (simp add: write_loop.simps [of _ p data d])
          from "1.IH"(2) [OF False w [symmetric] wrote(1) n0 True this] s "1.prems"(2) wrote(4)
          show ?thesis by simp
        next
          case False
          with \<open>data \<noteq> []\<close> "1.prems" w wrote n0 show ?thesis
            by (intro exI [of _ 0]) (auto simp: write_loop.simps [of _ p data d] fun_upd_idem)
        qed
      qed
    next
      case (err e)
      then have s: "file_at d1 = file_at d" "set (dirs d1) = set (dirs d)"
        by (simp_all add: same_tree_def)
      show ?thesis
      proof (cases "e = EINTR")
        case True
        with "1.prems" False w err have "write_loop zr p data d1 = (ok, d')"
          by (simp add: write_loop.simps [of _ p data d])
        from "1.IH"(3) [OF False w [symmetric] err(1) True this] s "1.prems"(2)
        show ?thesis by simp
      next
        case e: False
        with False "1.prems" w err s show ?thesis
          by (intro exI [of _ 0]) (auto simp: write_loop.simps [of _ p data d] fun_upd_idem)
      qed
    qed
  qed
qed

end
