(* ===== verification/Std_String.thy ===== *)
theory Std_String
  imports Tautq_Prelude
begin

text \<open>
  What the sources use of the C++ library on strings: printing and reading decimal numbers, searching
  and taking substrings. A position past the end is \<open>None\<close>, as \<open>npos\<close> is.
\<close>

section \<open>Numbers\<close>

text \<open>\<open>std::to_string\<close>, and \<open>>>\<close> into a 64-bit unsigned integer: blanks, a sign, digits up to the first
  other character; no digit or a value out of range is a failure.\<close>

fun to_string :: "nat \<Rightarrow> string" where
  "to_string n = (if n < 10 then [char_of (48 + n)] else to_string (n div 10) @ [char_of (48 + n mod 10)])"

declare to_string.simps [simp del]

definition is_digit :: "char \<Rightarrow> bool" where
  "is_digit c \<longleftrightarrow> 48 \<le> (of_char c :: nat) \<and> (of_char c :: nat) \<le> 57"

definition digits_value :: "string \<Rightarrow> nat" where
  "digits_value s = foldl (\<lambda>v c. v * 10 + (of_char c - 48)) 0 s"

definition is_space :: "char \<Rightarrow> bool" where
  "is_space c \<longleftrightarrow> (of_char c :: nat) = 32 \<or> 9 \<le> (of_char c :: nat) \<and> (of_char c :: nat) \<le> 13"

definition parse_u64 :: "string \<Rightarrow> u64 option" where
  "parse_u64 s =
    (let s = dropWhile is_space s;
         neg = (s \<noteq> [] \<and> hd s = CHR ''-'');
         s = (if s \<noteq> [] \<and> (hd s = CHR ''-'' \<or> hd s = CHR ''+'') then tl s else s);
         ds = takeWhile is_digit s
     in if ds = [] \<or> digits_value ds \<ge> 2 ^ 64 then None
        else Some (if neg then - of_nat (digits_value ds) else of_nat (digits_value ds)))"

text \<open>\<open>%0<k>llu\<close>: the decimal digits of a number, at least \<open>k\<close> of them (twenty hold every 64-bit value).\<close>

fun dec_digits :: "nat \<Rightarrow> nat \<Rightarrow> string" where
  "dec_digits 0 n = []"
| "dec_digits (Suc k) n = dec_digits k (n div 10) @ [char_of (48 + n mod 10)]"

text \<open>\<open>std::strtoul\<close>: zero without digits, the largest value out of range.\<close>

definition strtoul :: "string \<Rightarrow> nat" where
  "strtoul s =
    (let s = dropWhile is_space s;
         neg = (s \<noteq> [] \<and> hd s = CHR ''-'');
         s = (if s \<noteq> [] \<and> (hd s = CHR ''-'' \<or> hd s = CHR ''+'') then tl s else s);
         v = digits_value (takeWhile is_digit s)
     in if v \<ge> 2 ^ 64 then 2 ^ 64 - 1 else if neg then (2 ^ 64 - v) mod 2 ^ 64 else v)"

lemma unat_u64_less: "unat (g :: u64) < 2 ^ 64"
  using unsigned_less [of g] by simp

lemma to_string_digits: "c \<in> set (to_string n) \<Longrightarrow> is_digit c"
proof (induction n rule: to_string.induct)
  case (1 n)
  then show ?case by (subst (asm) to_string.simps) (auto simp: is_digit_def split: if_splits)
qed

lemma to_string_value: "digits_value (to_string n) = n"
proof (induction n rule: to_string.induct)
  case (1 n)
  then show ?case by (subst to_string.simps) (auto simp: digits_value_def)
qed

lemma to_string_not_Nil [simp]: "to_string n \<noteq> []"
  by (subst to_string.simps) simp

lemma parse_to_string: "parse_u64 (to_string (unat g) @ [CHR 0x0A]) = Some g"
proof -
  obtain c cs where c: "to_string (unat g) = c # cs" by (meson neq_Nil_conv to_string_not_Nil)
  then have "is_digit c" using to_string_digits [of c "unat g"] by simp
  then have n: "\<not> is_space c" "c \<noteq> CHR ''-''" "c \<noteq> CHR ''+''"
    by (auto simp: is_digit_def is_space_def)
  have "takeWhile is_digit (to_string (unat g) @ [CHR 0x0A]) = to_string (unat g)"
    using to_string_digits [of _ "unat g"] by (auto simp: takeWhile_tail takeWhile_eq_all_conv is_digit_def)
  then have t: "takeWhile is_digit (c # cs @ [CHR 0x0A]) = to_string (unat g)" by (simp add: c)
  have v: "digits_value (to_string (unat g)) < 2 ^ 64"
    using unat_u64_less [of g] by (simp add: to_string_value)
  have "parse_u64 (c # cs @ [CHR 0x0A]) = Some (of_nat (digits_value (to_string (unat g))))"
    using n t v unfolding parse_u64_def by (simp add: Let_def del: takeWhile.simps)
  then show ?thesis by (simp add: c [symmetric] to_string_value) (simp add: c)
qed

lemma strtoul_to_string: "n < 2 ^ 64 \<Longrightarrow> strtoul (to_string n) = n"
proof -
  assume n: "n < 2 ^ 64"
  obtain c cs where c: "to_string n = c # cs" by (meson neq_Nil_conv to_string_not_Nil)
  then have "is_digit c" using to_string_digits [of c n] by simp
  then have d: "\<not> is_space c" "c \<noteq> CHR ''-''" "c \<noteq> CHR ''+''"
    by (auto simp: is_digit_def is_space_def)
  have t: "takeWhile is_digit (to_string n) = to_string n"
    using to_string_digits [of _ n] by (simp add: takeWhile_eq_all_conv)
  have s: "dropWhile is_space (to_string n) = to_string n" using d(1) by (simp add: c)
  have h: "hd (to_string n) \<noteq> CHR ''-''" "hd (to_string n) \<noteq> CHR ''+''" using d(2,3) by (simp_all add: c)
  show ?thesis using n by (simp add: strtoul_def Let_def s h t to_string_value)
qed

lemma parse_u64_to_string: "parse_u64 (to_string (unat g)) = Some g"
proof -
  obtain c cs where c: "to_string (unat g) = c # cs" by (meson neq_Nil_conv to_string_not_Nil)
  then have "is_digit c" using to_string_digits [of c "unat g"] by simp
  then have d: "\<not> is_space c" "c \<noteq> CHR ''-''" "c \<noteq> CHR ''+''"
    by (auto simp: is_digit_def is_space_def)
  have t: "takeWhile is_digit (to_string (unat g)) = to_string (unat g)"
    using to_string_digits [of _ "unat g"] by (simp add: takeWhile_eq_all_conv)
  have s: "dropWhile is_space (to_string (unat g)) = to_string (unat g)" using d(1) by (simp add: c)
  have h: "hd (to_string (unat g)) \<noteq> CHR ''-''" "hd (to_string (unat g)) \<noteq> CHR ''+''" using d(2,3) by (simp_all add: c)
  show ?thesis using unat_u64_less [of g] by (simp add: parse_u64_def Let_def s h t to_string_value)
qed

lemma to_string_length: "n < 10 ^ Suc k \<Longrightarrow> length (to_string n) \<le> Suc k"
proof (induction k arbitrary: n)
  case 0
  then show ?case by (subst to_string.simps) simp
next
  case (Suc k)
  then have "n div 10 < 10 ^ Suc k" by (simp add: div_less_iff_less_mult)
  then show ?case using Suc.IH [of "n div 10"] by (subst to_string.simps) auto
qed


section \<open>Searching\<close>

definition has_prefix :: "string \<Rightarrow> string \<Rightarrow> bool" where
  "has_prefix p s \<longleftrightarrow> take (length p) s = p"

text \<open>\<open>find(needle, pos)\<close>, \<open>rfind(c)\<close> and \<open>substr(pos, n)\<close>.\<close>

fun find_sub :: "string \<Rightarrow> string \<Rightarrow> nat option" where
  "find_sub p [] = (if p = [] then Some 0 else None)"
| "find_sub p (c # s) = (if has_prefix p (c # s) then Some 0 else map_option Suc (find_sub p s))"

definition find_at :: "string \<Rightarrow> string \<Rightarrow> nat \<Rightarrow> nat option" where
  "find_at p s pos = map_option ((+) pos) (find_sub p (drop pos s))"

definition rfind_char :: "char \<Rightarrow> string \<Rightarrow> nat option" where
  "rfind_char c s = map_option (\<lambda>i. length s - 1 - i) (find_sub [c] (rev s))"

definition substr :: "string \<Rightarrow> nat \<Rightarrow> nat \<Rightarrow> string" where
  "substr s pos n = take n (drop pos s)"

lemma has_prefix_iff: "has_prefix p s \<longleftrightarrow> (\<exists>t. s = p @ t)"
proof
  assume "has_prefix p s"
  then have "s = p @ drop (length p) s" using append_take_drop_id [of "length p" s] by (simp add: has_prefix_def)
  then show "\<exists>t. s = p @ t" by blast
qed (auto simp: has_prefix_def)

lemma has_prefix_append: "has_prefix p s \<Longrightarrow> has_prefix p (s @ t)"
  by (auto simp: has_prefix_iff)

lemma has_prefix_length: "has_prefix p s \<Longrightarrow> length p \<le> length s"
  by (auto simp: has_prefix_iff)

lemma has_prefix_Nil [simp]: "has_prefix [] s"
  by (simp add: has_prefix_def)

lemma find_sub_bound: "find_sub p s = Some i \<Longrightarrow> i + length p \<le> length s \<and> has_prefix p (drop i s)"
  by (induction p s arbitrary: i rule: find_sub.induct) (auto split: if_splits dest: has_prefix_length)

lemma find_sub_least: "find_sub p s = Some i \<Longrightarrow> k < i \<Longrightarrow> \<not> has_prefix p (drop k s)"
proof (induction p s arbitrary: i k rule: find_sub.induct)
  case (2 p c s)
  then show ?case by (cases k) (auto split: if_splits)
qed (simp split: if_splits)

lemma find_sub_None: "find_sub p s = None \<Longrightarrow> \<not> has_prefix p (drop k s)"
proof (induction p s arbitrary: k rule: find_sub.induct)
  case (2 p c s)
  then show ?case by (cases k) (auto split: if_splits)
qed (simp add: has_prefix_def split: if_splits)

lemma find_subI:
  assumes "has_prefix p (drop i s)" "\<And>k. k < i \<Longrightarrow> \<not> has_prefix p (drop k s)"
  shows "find_sub p s = Some i"
proof (cases "find_sub p s")
  case None
  then show ?thesis using find_sub_None assms(1) by blast
next
  case (Some k)
  then have "\<not> k < i" "\<not> i < k" using assms find_sub_bound find_sub_least by blast+
  then show ?thesis using Some by simp
qed

lemma find_sub_append: "find_sub p s = Some i \<Longrightarrow> find_sub p (s @ t) = Some i"
proof (induction p s arbitrary: i rule: find_sub.induct)
  case (1 p)
  then show ?case by (cases t) (auto split: if_splits simp: has_prefix_def)
next
  case (2 p c s)
  show ?case
  proof (cases "has_prefix p (c # s)")
    case True
    then show ?thesis using 2(2) has_prefix_append [of p "c # s" t] by simp
  next
    case False
    then obtain k where k: "find_sub p s = Some k" "i = Suc k" using 2(2) by auto
    then have "length p \<le> length s" using find_sub_bound [of p s k] by linarith
    then have "\<not> has_prefix p (c # s @ t)" using False by (cases p) (auto simp: has_prefix_def)
    then show ?thesis using 2(1) [OF False k(1)] k(2) by simp
  qed
qed

lemma find_at_append: "find_at p s pos = Some i \<Longrightarrow> p \<noteq> [] \<Longrightarrow> find_at p (s @ t) pos = Some i"
  unfolding find_at_def using find_sub_bound [of p "drop pos s"]
  by (auto simp: find_sub_append)

lemma find_at_bound: "find_at p s pos = Some i \<Longrightarrow> pos \<le> i \<and> has_prefix p (drop i s)"
  unfolding find_at_def using find_sub_bound [of p "drop pos s"] by (auto simp: add.commute)

lemma find_at_exists: "has_prefix p (drop i s) \<Longrightarrow> pos \<le> i \<Longrightarrow> \<exists>k \<le> i. find_at p s pos = Some k"
proof -
  assume p: "has_prefix p (drop i s)" "pos \<le> i"
  then have "has_prefix p (drop (i - pos) (drop pos s))" by simp
  then obtain k where k: "find_sub p (drop pos s) = Some k" using find_sub_None by fastforce
  then have "\<not> i - pos < k" using find_sub_least [OF k, of "i - pos"] p by auto
  then show ?thesis using k p(2) by (auto simp: find_at_def)
qed

lemma find_char_skip: "c \<notin> set s \<Longrightarrow> find_sub (c # p) (s @ t) = map_option ((+) (length s)) (find_sub (c # p) t)"
  by (induction s; cases "find_sub (c # p) t") (auto simp: has_prefix_def)

lemma find_char_at: "c \<notin> set s \<Longrightarrow> find_sub [c] (s @ c # t) = Some (length s)"
  using find_char_skip [of c s "[]" "c # t"] by (simp add: has_prefix_def)

lemma find_char_None: "find_sub [c] s = None \<longleftrightarrow> c \<notin> set s"
  by (induction s) (auto simp: has_prefix_def)

lemma rfind_char_at: "c \<notin> set t \<Longrightarrow> rfind_char c (s @ c # t) = Some (length s)"
  using find_char_at [of c "rev t" "rev s"] by (simp add: rfind_char_def)



section \<open>Arguments\<close>

text \<open>The argument after the one at hand, empty where there is none.\<close>

definition next_arg :: "string list \<Rightarrow> string" where
  "next_arg rest = (case rest of [] \<Rightarrow> [] | a # _ \<Rightarrow> a)"

text \<open>The text of \<open>c_str()\<close> as a C string.\<close>

definition c_str :: "string \<Rightarrow> string" where
  "c_str s = takeWhile (\<lambda>c. c \<noteq> CHR 0x00) s"

end
