(* ===== verification/Wal.thy ===== *)
theory Wal
  imports Disk Std_String
begin

text \<open>
  The write-ahead log: \<^verbatim>\<open>src/src/wal.h\<close> and \<^verbatim>\<open>src/src/wal.cc\<close> on the disk of \<^verbatim>\<open>Disk.thy\<close>. The checksum
  \<open>taut::crc32c\<close> is the argument \<open>crc\<close> of the definitions that compute or check a frame; nothing is
  assumed of it. The test seam \<open>directory_sync_hook_\<close> is subsumed by the script, which decides whether
  a directory sync succeeds.
\<close>

section \<open>Frames\<close>

definition kFrameHeader :: nat where "kFrameHeader = 8"
definition kMaxBody :: nat where "kMaxBody = 64 * 2 ^ 10"

definition frame :: "(bytes \<Rightarrow> u32) \<Rightarrow> bytes \<Rightarrow> bytes" where
  "frame crc b = put_bytes (put_u32 (put_u32 [] (of_nat (length b))) (crc b)) b"

text \<open>The offset of the first invalid frame and the bodies handed to the callback before it.\<close>

function scan_frames :: "(bytes \<Rightarrow> u32) \<Rightarrow> bytes \<Rightarrow> nat \<Rightarrow> (nat \<times> bytes list) option" where
  "scan_frames crc data off =
    (if off + kFrameHeader \<le> length data then do {
       len \<leftarrow> get_u32 data off;
       c \<leftarrow> get_u32 data (off + 4);
       (if len = 0 \<or> unat len > kMaxBody \<or> off + kFrameHeader + unat len > length data
        then Some (off, [])
        else
          (let b = take (unat len) (drop (off + kFrameHeader) data) in
           if crc b \<noteq> c then Some (off, [])
           else do {
             (o', bs) \<leftarrow> scan_frames crc data (off + kFrameHeader + unat len);
             Some (o', b # bs)
           }))
     }
     else Some (off, []))"
  by pat_completeness auto
termination
  by (relation "measure (\<lambda>(crc, data, off). length data - off)")
    (auto simp: kFrameHeader_def)

declare scan_frames.simps [simp del]


section \<open>Names\<close>

definition gen_name :: "u64 \<Rightarrow> string" where
  "gen_name g = ''wal-gen-'' @ dec_digits 20 (unat g)"

definition segment_name :: "u64 \<Rightarrow> string" where
  "segment_name start = ''wal-'' @ dec_digits 20 (unat start) @ ''.log''"

definition is_segment :: "string \<Rightarrow> bool" where
  "is_segment s \<longleftrightarrow> has_prefix ''wal-'' s \<and> length s > 8 \<and> drop (length s - 4) s = ''.log''"


section \<open>The log\<close>

record wal =
  dir_of :: path
  active_dir :: path
  generation :: u64
  fd :: "path option"
  failed :: bool
  active_size :: nat
  segment_bytes :: nat
  next_lsn :: u64
  wdisk :: disk

definition wal_new :: "nat \<Rightarrow> disk \<Rightarrow> wal" where
  "wal_new sb d = \<lparr>dir_of = [], active_dir = [], generation = 0, fd = None, failed = False,
     active_size = 0, segment_bytes = sb, next_lsn = 0, wdisk = d\<rparr>"

definition open_active :: "path \<Rightarrow> bool \<Rightarrow> wal \<Rightarrow> bool \<times> wal" where
  "open_active p create w =
    (let (r, d) = sys_open create False False p (wdisk w)
     in (r \<noteq> None, w\<lparr>fd := r, wdisk := d\<rparr>))"

definition sync_directory :: "path \<Rightarrow> wal \<Rightarrow> bool \<times> wal" where
  "sync_directory p w = (let (r, d) = sys_fsync_dir p (wdisk w) in (r, w\<lparr>wdisk := d\<rparr>))"

text \<open>\<open>sync_data_fd\<close>: on a closed descriptor the call fails.\<close>

definition sync_data_fd :: "path option \<Rightarrow> disk \<Rightarrow> bool \<times> disk" where
  "sync_data_fd f d = (case f of None \<Rightarrow> (False, d) | Some p \<Rightarrow> sys_sync p d)"

definition wal_sync :: "wal \<Rightarrow> bool \<times> wal" where
  "wal_sync w =
    (if fd w = None \<or> failed w then (False, w)
     else
      (let (ok, d) = sync_data_fd (fd w) (wdisk w); w = w\<lparr>wdisk := d\<rparr>
       in if \<not> ok then (False, w\<lparr>failed := True\<rparr>) else (True, w)))"

definition rotate :: "wal \<Rightarrow> bool \<times> wal" where
  "rotate w =
    (if failed w then (False, w)
     else
      (let (ok, d) = sync_data_fd (fd w) (wdisk w); w = w\<lparr>wdisk := d\<rparr> in
       if \<not> ok then (False, w\<lparr>failed := True\<rparr>)
       else
        (let (ok, w) = open_active (active_dir w @ [segment_name (next_lsn w)]) True w in
         if \<not> ok then (False, w\<lparr>failed := True\<rparr>)
         else
          (let w = w\<lparr>active_size := 0\<rparr>; (ok, w) = sync_directory (active_dir w) w in
           if \<not> ok then (False, w\<lparr>failed := True\<rparr>) else (True, w)))))"

definition wal_append :: "(bytes \<Rightarrow> u32) \<Rightarrow> bytes \<Rightarrow> bool \<Rightarrow> wal \<Rightarrow> bool \<times> wal" where
  "wal_append crc b do_sync w =
    (if fd w = None \<or> failed w \<or> b = [] \<or> length b > kMaxBody then (False, w)
     else
      (let frame_size = kFrameHeader + length b;
           (ok, w) =
             (if active_size w > 0 \<and> active_size w + frame_size > segment_bytes w
              then rotate w else (True, w)) in
       if \<not> ok then (False, w)
       else
        (let fr = frame crc b;
             (ok, d) = write_loop True (the (fd w)) fr (wdisk w);
             w = w\<lparr>wdisk := d\<rparr> in
         if \<not> ok then (False, w\<lparr>failed := True\<rparr>)
         else
          (let w = w\<lparr>active_size := active_size w + length fr, next_lsn := next_lsn w + 1\<rparr>
           in if do_sync then wal_sync w else (True, w)))))"


section \<open>Opening\<close>

text \<open>
  \<open>std::ifstream current(dir + "/CURRENT")\<close>: \<open>None\<close> when the stream could not be opened (which is all
  that \<open>good()\<close> tests), \<open>Some None\<close> when no number could be read from it.
\<close>

definition read_current :: "path \<Rightarrow> disk \<Rightarrow> u64 option option \<times> disk" where
  "read_current p d =
    (let (oc, d) = next_outcome d in
     if fault oc \<noteq> None \<or> \<not> path_exists d p then (None, d)
     else
      (let (c, d) = sys_read_all p d
       in (Some (case c of None \<Rightarrow> None | Some c \<Rightarrow> parse_u64 (map char_of_byte c)), d)))"

text \<open>The replay loop over the sorted segment names; \<open>acc\<close> is what the callback has been given so far.\<close>

fun open_segments :: "(bytes \<Rightarrow> u32) \<Rightarrow> string list \<Rightarrow> bytes list \<Rightarrow> wal \<Rightarrow> (bool \<times> bytes list \<times> wal) option" where
  "open_segments crc [] acc w = Some (True, acc, w)"
| "open_segments crc (s # rest) acc w =
    (let p = active_dir w @ [s]; (r, d) = sys_read_all p (wdisk w); w = w\<lparr>wdisk := d\<rparr> in
     case r of None \<Rightarrow> Some (False, acc, w)
     | Some data \<Rightarrow> do {
         (clean, bs) \<leftarrow> scan_frames crc data 0;
         let acc = acc @ bs;
         let w = w\<lparr>next_lsn := next_lsn w + of_nat (length bs)\<rparr>;
         (if clean \<noteq> length data \<and> rest \<noteq> [] then Some (False, acc, w)
          else
           (let (ok, d) = (if clean \<noteq> length data then sys_truncate p clean (wdisk w)
                           else (True, wdisk w));
                w = w\<lparr>wdisk := d\<rparr> in
            if \<not> ok then Some (False, acc, w)
            else if rest = [] then
             (let (ok, w) = open_active p False w in
              if \<not> ok then Some (False, acc, w)
              else open_segments crc rest acc (w\<lparr>active_size := clean\<rparr>))
            else open_segments crc rest acc w))
       })"

text \<open>The end of \<open>open\<close>: create the first segment when there is none.\<close>

definition open_first :: "wal \<Rightarrow> bool \<times> wal" where
  "open_first w =
    (let p = active_dir w @ [segment_name 0];
         (e, d) = (if active_dir w \<noteq> dir_of w then sys_mkdir (active_dir w) (wdisk w)
                   else (None, wdisk w));
         w = w\<lparr>wdisk := d\<rparr> in
     if e \<noteq> None \<and> e \<noteq> Some EEXIST then (False, w)
     else
      (let (ok, w) = open_active p True w in
       if \<not> ok then (False, w)
       else
        (let w = w\<lparr>active_size := 0\<rparr>; (ok, w) = sync_directory (active_dir w) w in
         if \<not> ok then (False, w\<lparr>failed := True\<rparr>) else (True, w))))"

text \<open>The part of \<open>open\<close> after the directory is known: list, sort, replay, create the first segment.\<close>

definition open_replay :: "(bytes \<Rightarrow> u32) \<Rightarrow> wal \<Rightarrow> (bool \<times> bytes list \<times> wal) option" where
  "open_replay crc w =
    (let (names, d) = sys_list_dir (active_dir w) (wdisk w); w = w\<lparr>wdisk := d\<rparr> in
     case names of None \<Rightarrow> Some (False, [], w)
     | Some names \<Rightarrow> do {
         (ok, bs, w) \<leftarrow> open_segments crc (sort (filter is_segment names)) [] (w\<lparr>next_lsn := 0\<rparr>);
         (if \<not> ok then Some (False, bs, w)
          else if fd w = None then (let (ok, w) = open_first w in Some (ok, bs, w))
          else Some (True, bs, w))
       })"

text \<open>
  \<open>Wal::open\<close>: whether it succeeded, the bodies the callback was given in order, and the log. The
  outer \<open>None\<close> is a read outside a buffer.
\<close>

definition wal_open :: "(bytes \<Rightarrow> u32) \<Rightarrow> path \<Rightarrow> wal \<Rightarrow> (bool \<times> bytes list \<times> wal) option" where
  "wal_open crc dir w =
    (let w = w\<lparr>failed := False, dir_of := dir\<rparr>;
         (e, d) = sys_mkdir dir (wdisk w); w = w\<lparr>wdisk := d\<rparr> in
     if e \<noteq> None \<and> e \<noteq> Some EEXIST then Some (False, [], w)
     else
      (let w = w\<lparr>active_dir := dir, generation := 0\<rparr>;
           (cur, d) = read_current (dir @ [''CURRENT'']) (wdisk w); w = w\<lparr>wdisk := d\<rparr> in
       case cur of
         None \<Rightarrow> open_replay crc w
       | Some None \<Rightarrow> Some (False, [], w)
       | Some (Some g) \<Rightarrow> open_replay crc (w\<lparr>active_dir := dir @ [gen_name g], generation := g\<rparr>)))"


section \<open>Compaction\<close>

datatype CompactStage = SnapshotDurable | Installed | BeforeOldLogDeletion

text \<open>The search for an unused generation directory; the counter cannot pass the largest value.\<close>

function make_generation :: "path \<Rightarrow> u64 \<Rightarrow> disk \<Rightarrow> u64 option \<times> disk" where
  "make_generation dir g d =
    (let (e, d) = sys_mkdir (dir @ [gen_name g]) d in
     case e of None \<Rightarrow> (Some g, d)
     | Some e \<Rightarrow> if e \<noteq> EEXIST \<or> g = - 1 then (None, d) else make_generation dir (g + 1) d)"
  by pat_completeness auto
termination
proof (relation "measure (\<lambda>(dir, g, d). unat (- 1 - g))")
  show "((dir, g + 1, d'), dir, g, d) \<in> measure (\<lambda>(dir, g, d). unat (- 1 - g))"
    if "\<not> (e \<noteq> EEXIST \<or> g = - 1)" for dir d d' e and g :: u64
  proof -
    from that have "- 1 - g \<noteq> 0" by auto
    then have "unat ((- 1 - g) - 1) < unat (- 1 - g)" by (rule measure_unat)
    moreover have "- 1 - (g + 1) = (- 1 - g) - 1" by simp
    ultimately show ?thesis by (simp only: in_measure prod.case)
  qed
qed simp

declare make_generation.simps [simp del]

text \<open>The snapshot writer's variables \<open>out\<close>, \<open>size\<close> and \<open>lsn\<close>, with the disk.\<close>

record writer =
  out :: "path option"
  wsize :: nat
  wlsn :: u64
  wrdisk :: disk

definition open_segment :: "path \<Rightarrow> u64 \<Rightarrow> writer \<Rightarrow> bool \<times> writer" where
  "open_segment new_dir start s =
    (let (ok, d) = (if out s \<noteq> None then sync_data_fd (out s) (wrdisk s) else (True, wrdisk s));
         s = s\<lparr>wrdisk := d\<rparr> in
     if \<not> ok then (False, s)
     else
      (let (r, d) = sys_open True True False (new_dir @ [segment_name start]) (wrdisk s)
       in (r \<noteq> None, s\<lparr>out := r, wsize := 0, wrdisk := d\<rparr>)))"

definition write_frame :: "(bytes \<Rightarrow> u32) \<Rightarrow> path option \<Rightarrow> bytes \<Rightarrow> disk \<Rightarrow> bool \<times> disk" where
  "write_frame crc f b d =
    (case f of None \<Rightarrow> (False, d) | Some p \<Rightarrow> write_loop False p (frame crc b) d)"

fun write_snapshot :: "(bytes \<Rightarrow> u32) \<Rightarrow> nat \<Rightarrow> path \<Rightarrow> bytes list \<Rightarrow> bool \<times> writer \<Rightarrow> bool \<times> writer" where
  "write_snapshot crc sb new_dir [] (ok, s) = (ok, s)"
| "write_snapshot crc sb new_dir (b # bs) (ok, s) =
    (if \<not> ok then (ok, s)
     else
      (let frame_size = kFrameHeader + length b;
           (ok, s) = (if wsize s > 0 \<and> wsize s + frame_size > sb
                      then open_segment new_dir (wlsn s) s else (True, s));
           (ok, d) = (if ok then write_frame crc (out s) b (wrdisk s) else (False, wrdisk s));
           s = s\<lparr>wrdisk := d\<rparr>;
           s = (if ok then s\<lparr>wsize := wsize s + frame_size, wlsn := wlsn s + 1\<rparr> else s)
       in write_snapshot crc sb new_dir bs (ok, s)))"

text \<open>The loop over the root directory that removes what \<open>CURRENT\<close> no longer names.\<close>

fun remove_old :: "path \<Rightarrow> path \<Rightarrow> string list \<Rightarrow> disk \<Rightarrow> bool \<times> disk" where
  "remove_old dir active [] d = (True, d)"
| "remove_old dir active (n # ns) d =
    (if has_prefix ''wal-gen-'' n \<and> dir @ [n] \<noteq> active then
      (let (ok, d) = sys_remove_all (dir @ [n]) d
       in if \<not> ok then (False, d) else remove_old dir active ns d)
     else if is_segment n then
      (let (e, d) = sys_unlink (dir @ [n]) d
       in if e \<noteq> None \<and> e \<noteq> Some ENOENT then (False, d) else remove_old dir active ns d)
     else remove_old dir active ns d)"

text \<open>
  \<open>Wal::compact\<close> in the order of the source: write and sync the new generation, point \<open>CURRENT\<close> at
  it, switch over, remove the old generation.
\<close>

definition write_generation :: "(bytes \<Rightarrow> u32) \<Rightarrow> nat \<Rightarrow> path \<Rightarrow> bytes list \<Rightarrow> disk \<Rightarrow> bool \<times> u64 \<times> disk" where
  "write_generation crc sb new_dir snapshot d =
    (let s0 = \<lparr>out = None, wsize = 0, wlsn = 0, wrdisk = d\<rparr>;
         (ok, s) = write_snapshot crc sb new_dir snapshot (open_segment new_dir 0 s0);
         (sok, d) = (if out s \<noteq> None then sync_data_fd (out s) (wrdisk s) else (True, wrdisk s))
     in (ok \<and> sok, wlsn s, d))"

definition compact_write :: "(bytes \<Rightarrow> u32) \<Rightarrow> bytes list \<Rightarrow> wal \<Rightarrow> (u64 \<times> u64) option \<times> wal" where
  "compact_write crc snapshot w =
    (let (g, d) = make_generation (dir_of w) (generation w + 1) (wdisk w); w = w\<lparr>wdisk := d\<rparr> in
     case g of None \<Rightarrow> (None, w)
     | Some g \<Rightarrow>
        (let new_dir = dir_of w @ [gen_name g];
             (ok, lsn, d) = write_generation crc (segment_bytes w) new_dir snapshot (wdisk w);
             w = w\<lparr>wdisk := d\<rparr> in
         if \<not> ok then (None, w)
         else
          (let (ok, w) = sync_directory new_dir w in
           if \<not> ok then (None, w)
           else
            (let (ok, w) = sync_directory (dir_of w) w in
             (if ok then Some (g, lsn) else None, w)))))"

definition compact_point :: "u64 \<Rightarrow> wal \<Rightarrow> bool \<times> wal" where
  "compact_point g w =
    (let tmp = dir_of w @ [''CURRENT.tmp''];
         (r, d) = sys_open True False True tmp (wdisk w); w = w\<lparr>wdisk := d\<rparr> in
     if r = None then (False, w)
     else
      (let (ok, d) = write_loop False tmp (map byte_of_char (to_string (unat g) @ [CHR 0x0A])) (wdisk w);
           w = w\<lparr>wdisk := d\<rparr> in
       if \<not> ok then (False, w)
       else
        (let (ok, d) = sync_data_fd r (wdisk w); w = w\<lparr>wdisk := d\<rparr> in
         if \<not> ok then (False, w)
         else
          (let (ok, d) = sys_rename tmp (dir_of w @ [''CURRENT'']) (wdisk w)
           in (ok, w\<lparr>wdisk := d\<rparr>)))))"

definition compact_switch :: "u64 \<Rightarrow> u64 \<Rightarrow> wal \<Rightarrow> bool \<times> wal" where
  "compact_switch g lsn w =
    (let w = w\<lparr>failed := True\<rparr>; (ok, w) = sync_directory (dir_of w) w in
     if \<not> ok then (False, w)
     else
      (let w = w\<lparr>fd := None, active_dir := dir_of w @ [gen_name g], generation := g\<rparr>;
           (names, d) = sys_list_dir (active_dir w) (wdisk w); w = w\<lparr>wdisk := d\<rparr> in
       case names of None \<Rightarrow> (False, w)
       | Some names \<Rightarrow>
          (let names = sort (filter is_segment names);
               selected = active_dir w @ [if names = [] then segment_name 0 else last names];
               (ok, w) = open_active selected (names = []) w in
           if \<not> ok then (False, w)
           else
            (let (st, d) = sys_fstat selected (wdisk w); w = w\<lparr>wdisk := d\<rparr> in
             case st of None \<Rightarrow> (False, w)
             | Some st_size \<Rightarrow>
                (True, w\<lparr>active_size := st_size, next_lsn := lsn, failed := False\<rparr>)))))"

definition compact_clean :: "wal \<Rightarrow> bool \<times> wal" where
  "compact_clean w =
    (let (names, d) = sys_list_dir (dir_of w) (wdisk w); w = w\<lparr>wdisk := d\<rparr> in
     case names of None \<Rightarrow> (False, w)
     | Some names \<Rightarrow>
        (let (ok, d) = remove_old (dir_of w) (active_dir w) names (wdisk w); w = w\<lparr>wdisk := d\<rparr> in
         if \<not> ok then (False, w) else sync_directory (dir_of w) w))"

definition wal_compact :: "(bytes \<Rightarrow> u32) \<Rightarrow> (CompactStage \<Rightarrow> bool) \<Rightarrow> bytes list \<Rightarrow> wal \<Rightarrow> bool \<times> wal" where
  "wal_compact crc hook snapshot w =
    (if fd w = None \<or> failed w \<or> (\<exists>b \<in> set snapshot. b = [] \<or> length b > kMaxBody) then (False, w)
     else
      (let (ok, w) = wal_sync w in
       if \<not> ok then (False, w)
       else
        (let (r, w) = compact_write crc snapshot w in
         case r of None \<Rightarrow> (False, w)
         | Some (g, lsn) \<Rightarrow>
             if \<not> hook SnapshotDurable then (False, w)
             else
              (let (ok, w) = compact_point g w in
               if \<not> ok then (False, w)
               else
                (let (ok, w) = compact_switch g lsn w in
                 if \<not> ok then (False, w)
                 else if \<not> hook Installed then (False, w\<lparr>failed := True\<rparr>)
                 else if \<not> hook BeforeOldLogDeletion then (False, w\<lparr>failed := True\<rparr>)
                 else compact_clean w)))))"


section \<open>Scanning\<close>

definition valid_body :: "bytes \<Rightarrow> bool" where
  "valid_body b \<longleftrightarrow> b \<noteq> [] \<and> length b \<le> kMaxBody"

definition frames :: "(bytes \<Rightarrow> u32) \<Rightarrow> bytes list \<Rightarrow> bytes" where
  "frames crc bs = concat (map (frame crc) bs)"

text \<open>Bytes from which no frame can be read: the remains of an interrupted write.\<close>

definition torn :: "(bytes \<Rightarrow> u32) \<Rightarrow> bytes \<Rightarrow> bool" where
  "torn crc t \<longleftrightarrow> scan_frames crc t 0 = Some (0, [])"

lemma frame_bytes: "frame crc b = u32_bytes (of_nat (length b)) @ u32_bytes (crc b) @ b"
  by (simp add: frame_def put_append)

lemma length_frame [simp]: "length (frame crc b) = kFrameHeader + length b"
  by (simp add: frame_bytes kFrameHeader_def u32f.enc_length)

lemma frames_simps [simp]:
  "frames crc [] = []" "frames crc (b # bs) = frame crc b @ frames crc bs"
  "frames crc (bs @ cs) = frames crc bs @ frames crc cs"
  by (simp_all add: frames_def)

lemma frames_empty_iff [simp]: "frames crc bs = [] \<longleftrightarrow> bs = []"
  by (cases bs) (auto simp: frame_bytes u32_bytes_def)

lemma unat_length_body: "valid_body b \<Longrightarrow> unat (of_nat (length b) :: u32) = length b"
  by (simp add: valid_body_def kMaxBody_def unat_of_nat)

text \<open>One iteration of the scan: it takes a whole valid frame, or it stops.\<close>

lemma scan_frames_step:
  assumes "valid_body b" and r: "remaining data off (frame crc b @ t)"
  shows "scan_frames crc data off =
    map_option (\<lambda>(o', bs). (o', b # bs)) (scan_frames crc data (off + length (frame crc b)))"
proof -
  have rem: "remaining data off (u32_bytes (of_nat (length b)) @ u32_bytes (crc b) @ b @ t)"
    using r by (simp add: frame_bytes)
  have len: "off + kFrameHeader + length b \<le> length data"
    using remaining_length [OF r] by simp
  have g: "get_u32 data off = Some (of_nat (length b))" "get_u32 data (off + 4) = Some (crc b)"
    using u32f.get_enc [OF rem] u32f.get_enc [OF u32f.step [OF rem]] by simp_all
  have "remaining data (off + 4 + 4) (b @ t)"
    using u32f.step [OF u32f.step [OF rem]] by simp
  then have b: "take (length b) (drop (off + kFrameHeader) data) = b"
    using remaining_take by (simp add: kFrameHeader_def add.assoc)
  have z: "of_nat (length b) \<noteq> (0 :: u32)"
    using unat_length_body [OF assms(1)] assms(1) by (metis length_0_conv unat_0 valid_body_def)
  show ?thesis
    using len g b z assms(1) unat_length_body [OF assms(1)]
    by (subst scan_frames.simps)
      (simp add: valid_body_def add.assoc map_option_case bind_def case_prod_unfold
        split: option.splits)
qed

lemma scan_frames_stop:
  assumes "off \<le> length data" and "\<And>b t. valid_body b \<Longrightarrow> \<not> remaining data off (frame crc b @ t)"
  shows "scan_frames crc data off = Some (off, [])"
proof (cases "off + kFrameHeader \<le> length data")
  case True
  then obtain len c where g: "get_u32 data off = Some len" "get_u32 data (off + 4) = Some c"
    using u32f.get_defined [of off data] u32f.get_defined [of "off + 4" data]
    by (auto simp: kFrameHeader_def)
  let ?b = "take (unat len) (drop (off + kFrameHeader) data)"
  have "len = 0 \<or> unat len > kMaxBody \<or> off + kFrameHeader + unat len > length data \<or> crc ?b \<noteq> c"
  proof (rule ccontr)
    assume n: "\<not> ?thesis"
    then have l: "length ?b = unat len" and "0 < unat len" "unat len \<le> kMaxBody"
      by (auto simp: unat_gt_0 intro: gr0I)
    then have v: "valid_body ?b" unfolding valid_body_def by force
    have "drop off data = u32_bytes len @ u32_bytes c @ drop (off + kFrameHeader) data"
      using u32x.drop_get [OF g(1) refl] u32x.drop_get [OF g(2) refl]
      by (simp add: kFrameHeader_def add.assoc)
    also have "drop (off + kFrameHeader) data = ?b @ drop (off + kFrameHeader + unat len) data"
      by (metis add.commute append_take_drop_id drop_drop)
    finally have "remaining data off (frame crc ?b @ drop (off + kFrameHeader + unat len) data)"
      using n l assms(1) by (simp add: remaining_def frame_bytes)
    with assms(2) v show False by blast
  qed
  with True g show ?thesis
    by (subst scan_frames.simps) (auto simp: Let_def)
qed (subst scan_frames.simps, simp)

lemma torn_iff: "torn crc t \<longleftrightarrow> (\<nexists>b r. valid_body b \<and> t = frame crc b @ r)"
proof
  assume t: "torn crc t"
  show "\<nexists>b r. valid_body b \<and> t = frame crc b @ r"
  proof (intro notI, elim exE conjE)
    fix b r assume "valid_body b" "t = frame crc b @ r"
    from scan_frames_step [OF this(1), of t 0 crc r] this(2) t show False
      by (auto simp: torn_def remaining_def)
  qed
qed (use scan_frames_stop [of 0 t crc] in \<open>auto simp: torn_def remaining_def\<close>)

text \<open>What a scan returns, whatever the bytes.\<close>

lemma scan_frames_remaining:
  "(\<forall>b \<in> set bs. valid_body b) \<Longrightarrow> torn crc t \<Longrightarrow> remaining data off (frames crc bs @ t) \<Longrightarrow>
     scan_frames crc data off = Some (off + length (frames crc bs), bs)"
proof (induction bs arbitrary: off)
  case Nil
  then show ?case
    by (auto simp: torn_iff remaining_def intro!: scan_frames_stop)
next
  case (Cons b bs)
  then have "remaining data off (frame crc b @ (frames crc bs @ t))" by simp
  from scan_frames_step [OF _ this] Cons.IH [OF _ _ remaining_step [OF this]] Cons.prems
  show ?case by simp
qed

lemma scan_frames_split:
  "off \<le> length data \<Longrightarrow> \<exists>bs t. (\<forall>b \<in> set bs. valid_body b) \<and> torn crc t \<and>
     remaining data off (frames crc bs @ t)"
proof (induction "length data - off" arbitrary: off rule: less_induct)
  case less
  show ?case
  proof (cases "torn crc (drop off data)")
    case True
    then show ?thesis using less.prems
      by (intro exI [of _ "[]"] exI [of _ "drop off data"]) (simp add: remaining_def)
  next
    case False
    then obtain b r where b: "valid_body b" and r: "remaining data off (frame crc b @ r)"
      using less.prems by (auto simp: torn_iff remaining_def)
    from remaining_step [OF r] have s: "remaining data (off + length (frame crc b)) r" .
    have "length data - (off + length (frame crc b)) < length data - off"
      using remaining_length [OF r] by (simp add: kFrameHeader_def)
    from less.hyps [OF this] s obtain bs t where bs: "\<forall>b \<in> set bs. valid_body b" "torn crc t"
        "remaining data (off + length (frame crc b)) (frames crc bs @ t)"
      by (auto simp: remaining_def)
    then have "r = frames crc bs @ t" using s by (simp add: remaining_def)
    with b r bs show ?thesis by (intro exI [of _ "b # bs"] exI [of _ t]) simp
  qed
qed

lemma scan_frames_iff:
  "scan_frames crc data 0 = Some (n, bs) \<longleftrightarrow>
     (\<forall>b \<in> set bs. valid_body b) \<and> n = length (frames crc bs) \<and>
     (\<exists>t. data = frames crc bs @ t \<and> torn crc t)"
proof
  obtain cs t where c: "\<forall>b \<in> set cs. valid_body b" "torn crc t" "remaining data 0 (frames crc cs @ t)"
    using scan_frames_split [of 0 data crc] by auto
  assume "scan_frames crc data 0 = Some (n, bs)"
  with scan_frames_remaining [OF c] have "n = length (frames crc cs)" "bs = cs" by auto
  with c show "(\<forall>b \<in> set bs. valid_body b) \<and> n = length (frames crc bs) \<and>
     (\<exists>t. data = frames crc bs @ t \<and> torn crc t)"
    by (auto simp: remaining_def)
next
  assume "(\<forall>b \<in> set bs. valid_body b) \<and> n = length (frames crc bs) \<and>
     (\<exists>t. data = frames crc bs @ t \<and> torn crc t)"
  then show "scan_frames crc data 0 = Some (n, bs)"
    using scan_frames_remaining [of bs crc _ data 0] by (auto simp: remaining_def)
qed

lemma torn_Nil [simp]: "torn crc []"
  by (auto simp: torn_iff frame_bytes u32_bytes_def)

text \<open>A strict prefix of a frame is torn: no shorter frame hides in it, since its length field is kept.\<close>

lemma frame_append_inj:
  assumes "valid_body b" "valid_body c" "frame crc b @ r = frame crc c @ s"
  shows "b = c \<and> r = s"
proof -
  have eq: "u32_bytes (of_nat (length b)) @ u32_bytes (crc b) @ b @ r =
      u32_bytes (of_nat (length c)) @ u32_bytes (crc c) @ c @ s"
    using assms(3) by (simp add: frame_bytes)
  from u32f.prefix_free [OF eq] have "length b = length c"
    using unat_length_body assms(1,2) by metis
  with u32f.prefix_free [of "crc b" "b @ r" "crc c" "c @ s"] u32f.prefix_free [OF eq]
  show ?thesis by simp
qed

lemma torn_prefix:
  assumes "valid_body b" "n < length (frame crc b)"
  shows "torn crc (take n (frame crc b))"
proof (unfold torn_iff, intro notI, elim exE conjE)
  fix c r assume c: "valid_body c" "take n (frame crc b) = frame crc c @ r"
  then have "frame crc b @ [] = frame crc c @ (r @ drop n (frame crc b))"
    by (metis append.assoc append_Nil2 append_take_drop_id)
  from frame_append_inj [OF assms(1) c(1) this] assms(2) show False by auto
qed

lemma scan_frames_defined: "scan_frames crc data off \<noteq> None"
proof (cases "off \<le> length data")
  case True
  from scan_frames_split [OF this, of crc] show ?thesis using scan_frames_remaining by blast
next
  case False
  then show ?thesis by (subst scan_frames.simps) simp
qed

text \<open>How many whole frames fit in \<open>n\<close> bytes.\<close>

fun fit :: "nat \<Rightarrow> bytes list \<Rightarrow> nat" where
  "fit n [] = 0"
| "fit n (b # bs) =
     (if kFrameHeader + length b \<le> n then Suc (fit (n - (kFrameHeader + length b)) bs) else 0)"

lemma take_frames:
  "list_all valid_body bs \<Longrightarrow>
     \<exists>t. take n (frames crc bs) = frames crc (take (fit n bs) bs) @ t \<and> torn crc t"
proof (induction bs arbitrary: n)
  case (Cons b bs)
  show ?case
  proof (cases "kFrameHeader + length b \<le> n")
    case True
    with Cons.IH [of "n - (kFrameHeader + length b)"] Cons.prems show ?thesis by auto
  next
    case False
    with Cons.prems show ?thesis by (simp add: torn_prefix)
  qed
qed simp


section \<open>Name order\<close>

lemma less_snoc:
  "length xs = length ys \<Longrightarrow> xs @ [a] < ys @ [b] \<longleftrightarrow> xs < ys \<or> xs = ys \<and> (a :: char) < b"
  by (induction xs ys rule: list_induct2) auto

lemma less_append_same [simp]: "xs @ ys < xs @ zs \<longleftrightarrow> ys < (zs :: string)"
  by (induction xs) auto

lemma less_append_right: "length xs = length ys \<Longrightarrow> xs < ys \<Longrightarrow> xs @ zs < ys @ (ws :: string)"
  by (induction xs ys rule: list_induct2) auto

lemma length_dec_digits [simp]: "length (dec_digits k n) = k"
  by (induction k arbitrary: n) auto

lemma of_char_digit [simp]: "n < 10 \<Longrightarrow> (of_char (char_of (48 + n) :: char) :: nat) = 48 + n"
  by simp

lemma digit_char_less: "(m :: nat) < 10 \<Longrightarrow> n < 10 \<Longrightarrow> (char_of (48 + m) :: char) < char_of (48 + n) \<longleftrightarrow> m < n"
  by (simp add: less_char_def)

lemma dec_digits_less:
  "m < 10 ^ k \<Longrightarrow> n < 10 ^ k \<Longrightarrow> m < n \<Longrightarrow> dec_digits k m < dec_digits k n"
proof (induction k arbitrary: m n)
  case (Suc k)
  have d: "m div 10 < 10 ^ k" "n div 10 < 10 ^ k" using Suc.prems by auto
  show ?case
  proof (cases "m div 10 = n div 10")
    case True
    then have "m mod 10 < n mod 10" using Suc.prems(3) by (metis div_mult_mod_eq nat_add_left_cancel_less)
    with True show ?thesis by (simp add: less_snoc digit_char_less)
  next
    case False
    then have "m div 10 < n div 10" using Suc.prems(3) by (meson div_le_mono less_imp_le nat_less_le)
    with Suc.IH [OF d] show ?thesis by (simp add: less_snoc)
  qed
qed simp

lemma unat_u64_digits: "unat (g :: u64) < 10 ^ 20"
  by (rule less_trans [OF unat_u64_less]) simp

lemma segment_name_less [simp]: "segment_name a < segment_name b \<longleftrightarrow> a < b"
proof -
  have "a < b \<Longrightarrow> segment_name a < segment_name b" for a b
    using dec_digits_less [OF unat_u64_digits unat_u64_digits, of a b]
    by (simp add: segment_name_def word_less_nat_alt less_append_right)
  then show ?thesis by (metis linorder_less_linear order_less_asym)
qed

lemma segment_name_inj [simp]: "segment_name a = segment_name b \<longleftrightarrow> a = b"
  by (metis segment_name_less linorder_less_linear order_less_irrefl)

lemma gen_name_inj [simp]: "gen_name a = gen_name b \<longleftrightarrow> a = b"
proof -
  have "a < b \<Longrightarrow> gen_name a < gen_name b" for a b
    using dec_digits_less [OF unat_u64_digits unat_u64_digits, of a b]
    by (simp add: gen_name_def word_less_nat_alt)
  then show ?thesis by (metis linorder_less_linear order_less_irrefl)
qed

lemma is_segment_segment_name [simp]: "is_segment (segment_name s)"
  by (simp add: is_segment_def segment_name_def has_prefix_def)

lemma dec_digits_digit: "c \<in> set (dec_digits k n) \<Longrightarrow> is_digit c"
  by (induction k arbitrary: n) (auto simp: is_digit_def)

lemma not_is_segment_gen_name [simp]: "\<not> is_segment (gen_name g)"
proof
  assume "is_segment (gen_name g)"
  then have "drop 16 (dec_digits 20 (unat g)) = ''.log''"
    by (simp add: is_segment_def gen_name_def)
  then have "CHR ''.'' \<in> set (dec_digits 20 (unat g))"
    by (metis in_set_dropD list.set_intros(1))
  then show False using dec_digits_digit by (fastforce simp: is_digit_def)
qed

lemma has_prefix_gen_name [simp]: "has_prefix ''wal-gen-'' (gen_name g)"
  by (simp add: has_prefix_def gen_name_def)

lemma not_is_segment_CURRENT [simp]:
  "\<not> is_segment ''CURRENT''" "\<not> is_segment ''CURRENT.tmp''"
  by (simp_all add: is_segment_def has_prefix_def)

lemma gen_name_not_CURRENT [simp]:
  "gen_name g \<noteq> ''CURRENT''" "gen_name g \<noteq> ''CURRENT.tmp''"
  "''CURRENT'' \<noteq> gen_name g" "''CURRENT.tmp'' \<noteq> gen_name g"
  by (simp_all add: gen_name_def)

lemma not_has_prefix_CURRENT [simp]:
  "\<not> has_prefix ''wal-gen-'' ''CURRENT''" "\<not> has_prefix ''wal-gen-'' ''CURRENT.tmp''"
  by (simp_all add: has_prefix_def)


section \<open>Properties\<close>

text \<open>
  C18. Scanning a segment returns exactly its maximal run of well-formed frames: the bodies are
  those whose frames, concatenated, start the file, and what follows is not a frame. The offset
  is where that run ends. No file, whatever its bytes, makes the scan read outside the buffer.
\<close>

theorem scan_frames_exact:
  "(scan_frames crc data 0 = Some (n, bs) \<longleftrightarrow>
     list_all valid_body bs \<and> n = length (frames crc bs) \<and>
     (\<exists>t. data = frames crc bs @ t \<and> (\<nexists>b r. valid_body b \<and> t = frame crc b @ r))) \<and>
   scan_frames crc data off \<noteq> None"
  using scan_frames_iff [of crc data n bs] scan_frames_defined [of crc data off]
  unfolding torn_iff list_all_iff by blast

text \<open>
  C17. A write that stopped anywhere costs only the frames it did not complete: scanning the first
  \<open>n\<close> bytes of a log returns the whole frames that fit in them, and cuts at the end of the last one.
\<close>

theorem torn_tail_prefix:
  assumes "list_all valid_body bs"
  shows "scan_frames crc (take n (frames crc bs)) 0 =
    Some (length (frames crc (take (fit n bs) bs)), take (fit n bs) bs)"
proof -
  have "\<exists>t. take n (frames crc bs) = frames crc (take (fit n bs) bs) @ t \<and> torn crc t"
    using assms by (rule take_frames)
  moreover have "\<forall>b \<in> set (take (fit n bs) bs). valid_body b"
    using assms by (auto simp: list_all_iff dest: in_set_takeD)
  ultimately show ?thesis unfolding scan_frames_iff by blast
qed

theorem torn_tail_prefix_witness:
  "list_all valid_body [[1, 2], [3], [4, 5, 6]] \<and>
   scan_frames (\<lambda>b. 7) (take 25 (frames (\<lambda>b. 7) [[1, 2], [3], [4, 5, 6]])) 0 = Some (19, [[1, 2], [3]])"
  using torn_tail_prefix [of "[[1, 2], [3], [4, 5, 6]]" "\<lambda>b. 7" 25]
  by (simp add: valid_body_def kMaxBody_def kFrameHeader_def)

text \<open>
  Zero-padded segment names sort in the order of the sequence numbers they start at, for all
  64-bit numbers, so the sorted listing is the order in which the segments were written.
\<close>

lemma segment_names_ordered:
  "(segment_name a < segment_name b \<longleftrightarrow> a < b) \<and> (segment_name a = segment_name b \<longleftrightarrow> a = b) \<and>
   is_segment (segment_name a)"
  by simp

end
