(* ===== verification/Wal_Log.thy ===== *)
theory Wal_Log
  imports Wal
begin

text \<open>
  What the write-ahead log promises: it is a list of bodies. \<open>on_disk crc d dir L\<close> says that the
  directory \<open>dir\<close> of the disk holds the log \<open>L\<close>, possibly with a torn frame at its end; \<open>live crc w L\<close>
  says that the open log \<open>w\<close> may append to it. The operations of \<^verbatim>\<open>Wal.thy\<close> are shown to refine the
  operations on lists, for every script of failing calls.
\<close>

section \<open>The layout of a log directory\<close>

text \<open>
  A log directory holds the segments \<open>pre @ [bs]\<close>: each segment is named by the number of records
  before it, every segment but the last is clean and not empty, and the last may end in a torn frame.
\<close>

definition seg_path :: "path \<Rightarrow> nat \<Rightarrow> path" where
  "seg_path dir n = dir @ [segment_name (of_nat n)]"

fun seg_names :: "nat \<Rightarrow> bytes list list \<Rightarrow> string list" where
  "seg_names n [] = []"
| "seg_names n (bs # r) = segment_name (of_nat n) # seg_names (n + length bs) r"

fun clean_segs :: "(bytes \<Rightarrow> u32) \<Rightarrow> disk \<Rightarrow> path \<Rightarrow> nat \<Rightarrow> bytes list list \<Rightarrow> bool" where
  "clean_segs crc d dir n [] = True"
| "clean_segs crc d dir n (bs # r) \<longleftrightarrow>
     file_at d (seg_path dir n) = Some (frames crc bs) \<and> clean_segs crc d dir (n + length bs) r"

definition wf_log :: "(bytes \<Rightarrow> u32) \<Rightarrow> bytes list list \<Rightarrow> bytes list \<Rightarrow> bytes \<Rightarrow> bool" where
  "wf_log crc pre bs t \<longleftrightarrow>
     (\<forall>b \<in> set (concat pre @ bs). valid_body b) \<and> [] \<notin> set pre \<and> torn crc t \<and>
     length (concat pre @ bs) < 2 ^ 64"

definition layout :: "(bytes \<Rightarrow> u32) \<Rightarrow> disk \<Rightarrow> path \<Rightarrow> bytes list list \<Rightarrow> bytes list \<Rightarrow> bytes \<Rightarrow> bool" where
  "layout crc d dir pre bs t \<longleftrightarrow>
     wf_log crc pre bs t \<and> is_dir d dir \<and> clean_segs crc d dir 0 pre \<and>
     file_at d (seg_path dir (length (concat pre))) = Some (frames crc bs @ t) \<and>
     (\<forall>n. is_segment n \<longrightarrow> (path_exists d (dir @ [n]) \<longleftrightarrow> n \<in> set (seg_names 0 (pre @ [bs]))))"

text \<open>Which directory \<open>CURRENT\<close> selects: the root when there is no such file.\<close>

definition pointer :: "disk \<Rightarrow> path \<Rightarrow> u64 \<Rightarrow> path \<Rightarrow> bool" where
  "pointer d dir g adir \<longleftrightarrow> is_dir d dir \<and>
     (case file_at d (dir @ [''CURRENT'']) of
        None \<Rightarrow> \<not> is_dir d (dir @ [''CURRENT'']) \<and> g = 0 \<and> adir = dir
      | Some c \<Rightarrow> parse_u64 (map char_of_byte c) = Some g \<and> adir = dir @ [gen_name g])"

definition no_segments :: "disk \<Rightarrow> path \<Rightarrow> bool" where
  "no_segments d dir \<longleftrightarrow> is_dir d dir \<and> (\<forall>n. is_segment n \<longrightarrow> \<not> path_exists d (dir @ [n]))"

text \<open>What the log directory holds, as \<open>CURRENT\<close> selects it.\<close>

definition selected :: "(bytes \<Rightarrow> u32) \<Rightarrow> disk \<Rightarrow> path \<Rightarrow> bytes list \<Rightarrow> bool" where
  "selected crc d adir L \<longleftrightarrow>
     L = [] \<and> no_segments d adir \<or> (\<exists>pre bs t. layout crc d adir pre bs t \<and> L = concat pre @ bs)"

definition on_disk :: "(bytes \<Rightarrow> u32) \<Rightarrow> disk \<Rightarrow> path \<Rightarrow> bytes list \<Rightarrow> bool" where
  "on_disk crc d dir L \<longleftrightarrow> wf_disk d \<and>
     (L = [] \<and> \<not> path_exists d dir \<and> is_dir d (butlast dir) \<or>
      (\<exists>g adir. pointer d dir g adir \<and> selected crc d adir L))"

definition live :: "(bytes \<Rightarrow> u32) \<Rightarrow> wal \<Rightarrow> bytes list \<Rightarrow> bool" where
  "live crc w L \<longleftrightarrow> wf_disk (wdisk w) \<and> \<not> failed w \<and>
     pointer (wdisk w) (dir_of w) (generation w) (active_dir w) \<and>
     next_lsn w = of_nat (length L) \<and>
     (\<exists>pre bs. layout crc (wdisk w) (active_dir w) pre bs [] \<and> L = concat pre @ bs \<and>
        fd w = Some (seg_path (active_dir w) (length (concat pre))) \<and>
        active_size w = length (frames crc bs))"


section \<open>Layout lemmas\<close>

lemma seg_path_inj:
  "m < 2 ^ 64 \<Longrightarrow> n < 2 ^ 64 \<Longrightarrow> seg_path dir m = seg_path dir n \<longleftrightarrow> m = n"
  by (simp add: seg_path_def word_of_nat_eq_iff take_bit_nat_eq_self)

lemma seg_path_simps [simp]:
  "seg_path dir n \<noteq> []" "butlast (seg_path dir n) = dir"
  by (simp_all add: seg_path_def)

lemma seg_names_append [simp]:
  "seg_names n (xs @ ys) = seg_names n xs @ seg_names (n + length (concat xs)) ys"
  by (induction xs arbitrary: n) (simp_all add: add.assoc)

lemma clean_segs_append [simp]:
  "clean_segs crc d dir n (xs @ ys) \<longleftrightarrow>
     clean_segs crc d dir n xs \<and> clean_segs crc d dir (n + length (concat xs)) ys"
  by (induction xs arbitrary: n) (simp_all add: add.assoc)

lemma seg_names_starts:
  "[] \<notin> set pre \<Longrightarrow> s \<in> set (seg_names n pre) \<Longrightarrow>
     \<exists>m. n \<le> m \<and> m < n + length (concat pre) \<and> s = segment_name (of_nat m)"
proof (induction pre arbitrary: n)
  case (Cons bs pre)
  then consider "s = segment_name (of_nat n)" | "s \<in> set (seg_names (n + length bs) pre)" by auto
  then show ?case
  proof cases
    case 1
    then show ?thesis using Cons.prems by (intro exI [of _ n]) auto
  next
    case 2
    from Cons.IH [OF _ this] Cons.prems obtain m where
      "n + length bs \<le> m" "m < n + length bs + length (concat pre)" "s = segment_name (of_nat m)"
      by auto
    then show ?thesis by (intro exI [of _ m]) auto
  qed
qed simp

lemma clean_segs_cong:
  "[] \<notin> set pre \<Longrightarrow>
   (\<And>m. n \<le> m \<Longrightarrow> m < n + length (concat pre) \<Longrightarrow> file_at d' (seg_path dir m) = file_at d (seg_path dir m)) \<Longrightarrow>
   clean_segs crc d dir n pre \<Longrightarrow> clean_segs crc d' dir n pre"
proof (induction pre arbitrary: n)
  case (Cons bs pre)
  from Cons.prems(1) have "0 < length bs" by (cases bs) auto
  then have "file_at d' (seg_path dir n) = file_at d (seg_path dir n)"
    using Cons.prems(2) [of n] by simp
  moreover have "clean_segs crc d' dir (n + length bs) pre"
    using Cons.prems by (intro Cons.IH) auto
  ultimately show ?case using Cons.prems(3) by simp
qed simp

lemma seg_names_starts_last:
  assumes "[] \<notin> set pre" "s \<in> set (seg_names n (pre @ [bs]))"
  shows "\<exists>m. n \<le> m \<and> m \<le> n + length (concat pre) \<and> s = segment_name (of_nat m)"
proof -
  from assms(2) consider "s \<in> set (seg_names n pre)" | "s = segment_name (of_nat (n + length (concat pre)))"
    by (auto simp del: of_nat_add)
  then show ?thesis
  proof cases
    case 1
    from seg_names_starts [OF assms(1) this] show ?thesis using less_imp_le by blast
  next
    case 2
    then show ?thesis using le_add1 by blast
  qed
qed

lemma sorted_seg_names:
  assumes "[] \<notin> set pre" "n + length (concat pre) < 2 ^ 64"
  shows "sorted_wrt (<) (seg_names n (pre @ [bs]))"
  using assms
proof (induction pre arbitrary: n)
  case (Cons cs pre)
  have "segment_name (of_nat n) < s" if s: "s \<in> set (seg_names (n + length cs) (pre @ [bs]))" for s
  proof -
    obtain m where m: "n + length cs \<le> m" "m \<le> n + length cs + length (concat pre)"
        "s = segment_name (of_nat m)"
      using seg_names_starts_last [OF _ s] Cons.prems(1) by auto
    have "0 < length cs" using Cons.prems(1) by (cases cs) auto
    then have "n < m" using m(1) by linarith
    then have "(of_nat n :: u64) < of_nat m"
      using m Cons.prems(2) by (simp add: word_less_nat_alt unat_of_nat)
    then show ?thesis using m(3) by simp
  qed
  with Cons.IH [of "n + length cs"] Cons.prems show ?case by (simp add: add.assoc)
qed simp

lemma wf_logD:
  assumes "wf_log crc pre bs t"
  shows "[] \<notin> set pre" "length (concat pre) < 2 ^ 64" "torn crc t"
    "length (concat pre) + length bs < 2 ^ 64"
  using assms by (auto simp: wf_log_def)

lemma seg_path_in_names:
  "seg_path dir m = dir @ [segment_name (of_nat m)]"
  by (simp add: seg_path_def)

lemma layout_listing:
  assumes "layout crc d dir pre bs t"
  shows "sort (filter is_segment (entries d dir)) = seg_names 0 (pre @ [bs])"
proof -
  from assms have wf: "wf_log crc pre bs t"
      and ex: "\<And>n. is_segment n \<Longrightarrow> path_exists d (dir @ [n]) \<longleftrightarrow> n \<in> set (seg_names 0 (pre @ [bs]))"
    by (auto simp: layout_def)
  have s: "is_segment n" if "n \<in> set (seg_names 0 (pre @ [bs]))" for n
    using seg_names_starts_last [OF wf_logD(1) [OF wf] that] by auto
  have "n \<in> set (filter is_segment (entries d dir)) \<longleftrightarrow> n \<in> set (seg_names 0 (pre @ [bs]))" for n
    using ex [of n] s [of n] by (auto simp: entries_iff path_exists_def is_dir_def)
  then have "set (sort (filter is_segment (entries d dir))) = set (seg_names 0 (pre @ [bs]))"
    by auto
  moreover have "sorted_wrt (<) (seg_names 0 (pre @ [bs]))"
    by (rule sorted_seg_names) (use wf_logD(1,2) [OF wf] in simp_all)
  ultimately show ?thesis
    by (intro sorted_distinct_set_unique) (simp_all add: strict_sorted_iff)
qed

lemma path_exists_same: "same_tree d d' \<Longrightarrow> path_exists d' p = path_exists d p"
  by (simp add: path_exists_def same_tree_file same_tree_dir)

lemma clean_segs_same: "same_tree d d' \<Longrightarrow> clean_segs crc d' dir n pre = clean_segs crc d dir n pre"
  by (induction pre arbitrary: n) (simp_all add: same_tree_def)

lemma layout_same: "same_tree d d' \<Longrightarrow> layout crc d' dir pre bs t = layout crc d dir pre bs t"
proof -
  assume s: "same_tree d d'"
  show ?thesis
    by (simp add: layout_def clean_segs_same [OF s] same_tree_file [OF s] same_tree_dir [OF s] path_exists_same [OF s])
qed

lemma pointer_same: "same_tree d d' \<Longrightarrow> pointer d' dir g adir = pointer d dir g adir"
  by (simp add: pointer_def same_tree_file same_tree_dir split: option.split)

lemma no_segments_same: "same_tree d d' \<Longrightarrow> no_segments d' dir = no_segments d dir"
  by (simp add: no_segments_def path_exists_same same_tree_dir)

lemma selected_same:
  assumes "same_tree d d'"
  shows "selected crc d' adir L = selected crc d adir L"
  by (simp add: selected_def layout_same [OF assms] no_segments_same [OF assms])

lemma on_disk_same:
  assumes "same_tree d d'" "on_disk crc d dir L"
  shows "on_disk crc d' dir L"
  using assms(2) same_tree_wf [OF assms(1)]
  by (auto simp: on_disk_def selected_same [OF assms(1)] pointer_same [OF assms(1)]
      path_exists_same [OF assms(1)] same_tree_dir [OF assms(1)])

text \<open>Rewriting the last segment, and adding one.\<close>

lemma is_dir_cong: "set (dirs d') = set (dirs d) \<Longrightarrow> is_dir d' p = is_dir d p"
  by (simp add: is_dir_def)

lemma layout_last:
  assumes l: "layout crc d dir pre bs t"
    and f: "file_at d' = (file_at d)(seg_path dir (length (concat pre)) \<mapsto> frames crc cs @ u)"
    and ds: "set (dirs d') = set (dirs d)" and wf: "wf_log crc pre cs u"
  shows "layout crc d' dir pre cs u"
proof -
  from l have c: "clean_segs crc d dir 0 pre"
      and ex: "\<And>n. is_segment n \<Longrightarrow> path_exists d (dir @ [n]) \<longleftrightarrow> n \<in> set (seg_names 0 (pre @ [bs]))"
      and p: "file_at d (seg_path dir (length (concat pre))) \<noteq> None"
    by (auto simp: layout_def)
  have "clean_segs crc d' dir 0 pre"
    using wf_logD(1,2) [OF wf] by (intro clean_segs_cong [OF _ _ c]) (auto simp: f seg_path_inj)
  moreover have "path_exists d' q = path_exists d q" for q
    using p by (auto simp: path_exists_def f is_dir_cong [OF ds])
  ultimately show ?thesis
    using l wf ex by (simp add: layout_def is_dir_cong [OF ds] f)
qed

lemma layout_rotate:
  assumes l: "layout crc d dir pre bs []" and "bs \<noteq> []"
    and f: "file_at d' = (file_at d)(seg_path dir (length (concat pre) + length bs) \<mapsto> [])"
    and ds: "set (dirs d') = set (dirs d)"
  shows "layout crc d' dir (pre @ [bs]) [] []"
proof -
  from l have c: "clean_segs crc d dir 0 (pre @ [bs])" and wf: "wf_log crc pre bs []"
      and ex: "\<And>n. is_segment n \<Longrightarrow> path_exists d (dir @ [n]) \<longleftrightarrow> n \<in> set (seg_names 0 (pre @ [bs]))"
    by (auto simp: layout_def)
  have wf': "wf_log crc (pre @ [bs]) [] []"
    using wf assms(2) by (auto simp: wf_log_def)
  have "clean_segs crc d' dir 0 (pre @ [bs])"
    using wf_logD(1,2,4) [OF wf'] by (intro clean_segs_cong [OF _ _ c]) (auto simp: f seg_path_inj)
  moreover have "path_exists d' (dir @ [n]) \<longleftrightarrow> n \<in> set (seg_names 0 ((pre @ [bs]) @ [[]]))"
    if "is_segment n" for n
    using ex [OF that] by (auto simp: path_exists_def f is_dir_cong [OF ds] seg_path_def)
  ultimately show ?thesis
    using l wf' by (simp add: layout_def is_dir_cong [OF ds] f)
qed

text \<open>The path of the segment a rotation creates is not in use.\<close>

lemma layout_fresh:
  assumes l: "layout crc d dir pre bs t" and "bs \<noteq> []"
  shows "\<not> path_exists d (seg_path dir (length (concat pre) + length bs))"
proof
  from l have wf: "wf_log crc pre bs t"
      and ex: "\<And>n. is_segment n \<Longrightarrow> path_exists d (dir @ [n]) \<longleftrightarrow> n \<in> set (seg_names 0 (pre @ [bs]))"
    by (auto simp: layout_def)
  let ?k = "length (concat pre) + length bs"
  assume "path_exists d (seg_path dir ?k)"
  with ex [of "segment_name (of_nat ?k)"]
  have "segment_name (of_nat ?k) \<in> set (seg_names 0 (pre @ [bs]))"
    by (simp add: seg_path_def del: of_nat_add)
  from seg_names_starts_last [OF wf_logD(1) [OF wf] this] obtain m where
    "m \<le> length (concat pre)" "seg_path dir ?k = seg_path dir m"
    by (auto simp: seg_path_def simp del: of_nat_add)
  with wf_logD(2,4) [OF wf] assms(2) show False
    by (auto simp: seg_path_inj)
qed


section \<open>Appending\<close>

lemma wf_disk_upd:
  assumes "wf_disk d" "file_at d' = (file_at d)(p \<mapsto> c)" "set (dirs d') = set (dirs d)"
    "file_at d p = None \<Longrightarrow> \<not> is_dir d p \<and> is_dir d (butlast p)"
  shows "wf_disk d'"
  using assms by (auto simp: wf_disk_def is_dir_cong [OF assms(3)])

lemma pointer_upd:
  assumes "pointer d dir g adir" "file_at d' = (file_at d)(p := c)" "set (dirs d') = set (dirs d)"
    "p \<noteq> dir @ [''CURRENT'']"
  shows "pointer d' dir g adir"
  using assms by (auto simp: pointer_def is_dir_cong [OF assms(3)] split: option.splits)

lemma seg_path_not_CURRENT:
  "pointer d dir g adir \<Longrightarrow> seg_path adir n \<noteq> dir @ [''CURRENT'']"
proof
  assume "pointer d dir g adir" and s: "seg_path adir n = dir @ [''CURRENT'']"
  then have "adir = dir" "segment_name (of_nat n) = ''CURRENT''"
    by (auto simp: seg_path_def pointer_def split: option.splits)
  then show False by (metis is_segment_segment_name not_is_segment_CURRENT(1))
qed

lemma on_diskI:
  "wf_disk d \<Longrightarrow> pointer d dir g adir \<Longrightarrow> layout crc d adir pre bs t \<Longrightarrow> on_disk crc d dir (concat pre @ bs)"
  unfolding on_disk_def selected_def by blast

lemma on_disk_selected:
  "wf_disk d \<Longrightarrow> pointer d dir g adir \<Longrightarrow> selected crc d adir L \<Longrightarrow> on_disk crc d dir L"
  unfolding on_disk_def by blast

lemma live_on_disk: "live crc w L \<Longrightarrow> on_disk crc (wdisk w) (dir_of w) L"
  by (auto simp: live_def intro: on_diskI)

text \<open>A log that has failed still holds \<open>L\<close>; it only refuses to append.\<close>

definition holds :: "(bytes \<Rightarrow> u32) \<Rightarrow> wal \<Rightarrow> bytes list \<Rightarrow> bool" where
  "holds crc w L \<longleftrightarrow> live crc w L \<or> failed w \<and> on_disk crc (wdisk w) (dir_of w) L"

lemma holds_on_disk: "holds crc w L \<Longrightarrow> on_disk crc (wdisk w) (dir_of w) L"
  using live_on_disk by (auto simp: holds_def)

lemma liveE:
  assumes "live crc w L"
  obtains pre bs where "wf_disk (wdisk w)" "\<not> failed w"
    "pointer (wdisk w) (dir_of w) (generation w) (active_dir w)" "next_lsn w = of_nat (length L)"
    "layout crc (wdisk w) (active_dir w) pre bs []" "L = concat pre @ bs"
    "fd w = Some (seg_path (active_dir w) (length (concat pre)))"
    "active_size w = length (frames crc bs)"
  using assms unfolding live_def by blast

lemma liveI:
  assumes "wf_disk (wdisk w)" "\<not> failed w"
    "pointer (wdisk w) (dir_of w) (generation w) (active_dir w)" "next_lsn w = of_nat (length L)"
    "layout crc (wdisk w) (active_dir w) pre bs []" "L = concat pre @ bs"
    "fd w = Some (seg_path (active_dir w) (length (concat pre)))"
    "active_size w = length (frames crc bs)"
  shows "live crc w L"
  using assms unfolding live_def by blast

lemma live_same:
  assumes "live crc w L" "same_tree (wdisk w) d"
  shows "live crc (w\<lparr>wdisk := d\<rparr>) L"
  using assms
  by (auto simp: live_def layout_same pointer_same intro: same_tree_wf)

lemma wal_sync_effect:
  assumes "live crc w L" "wal_sync w = (ok, w')"
  shows "ok \<Longrightarrow> live crc w' L" "\<not> ok \<Longrightarrow> failed w' \<and> on_disk crc (wdisk w') (dir_of w') L"
    "dir_of w' = dir_of w"
proof -
  from assms(1) obtain p where p: "fd w = Some p" "\<not> failed w" by (auto simp: live_def)
  obtain r d where s: "sys_sync p (wdisk w) = (r, d)" by fastforce
  note t = sys_sync_effect(1) [OF s]
  show "ok \<Longrightarrow> live crc w' L" "dir_of w' = dir_of w"
    using assms p s live_same [OF assms(1) t] by (auto simp: wal_sync_def sync_data_fd_def Let_def split: if_splits)
  show "\<not> ok \<Longrightarrow> failed w' \<and> on_disk crc (wdisk w') (dir_of w') L"
    using assms p s on_disk_same [OF t live_on_disk [OF assms(1)]]
    by (auto simp: wal_sync_def sync_data_fd_def Let_def split: if_splits)
qed

text \<open>Opening a path that is not in use creates an empty file.\<close>

lemma open_active_fresh:
  assumes "open_active p True w = (ok, w')" "\<not> path_exists (wdisk w) p"
  obtains (fail) d where "\<not> ok" "w' = w\<lparr>fd := None, wdisk := d\<rparr>" "same_tree (wdisk w) d"
  | (opened) d where "ok" "w' = w\<lparr>fd := Some p, wdisk := d\<rparr>"
      "file_at d = (file_at (wdisk w))(p \<mapsto> [])" "set (dirs d) = set (dirs (wdisk w))"
proof -
  obtain r d where o: "sys_open True False False p (wdisk w) = (r, d)" by fastforce
  from o show thesis
  proof (cases rule: sys_open_effect)
    case fail
    with assms o that(1) show ?thesis by (auto simp: open_active_def)
  next
    case opened
    with assms o that(2) show ?thesis by (auto simp: open_active_def path_exists_def)
  qed
qed

lemma live_next_fresh:
  assumes "live crc w L" "active_size w > 0"
  shows "\<not> path_exists (wdisk w) (active_dir w @ [segment_name (next_lsn w)])"
  using assms by (elim liveE) (auto simp: seg_path_def dest!: layout_fresh)

lemma live_rotated:
  assumes l: "live crc w L" and a: "active_size w > 0"
    and p: "p = active_dir w @ [segment_name (next_lsn w)]"
    and f: "file_at d = (file_at (wdisk w))(p \<mapsto> [])" "set (dirs d) = set (dirs (wdisk w))"
  shows "live crc (w\<lparr>fd := Some p, wdisk := d, active_size := 0\<rparr>) L"
  using l
proof (rule liveE)
  fix pre bs
  assume d: "wf_disk (wdisk w)" "\<not> failed w"
    "pointer (wdisk w) (dir_of w) (generation w) (active_dir w)" "next_lsn w = of_nat (length L)"
    "layout crc (wdisk w) (active_dir w) pre bs []" "L = concat pre @ bs"
    "active_size w = length (frames crc bs)"
  from a d(7) have bs: "bs \<noteq> []" by auto
  have n: "p = seg_path (active_dir w) (length (concat pre) + length bs)"
    using d p by (simp add: seg_path_def)
  have "layout crc d (active_dir w) (pre @ [bs]) [] []"
    using layout_rotate [OF d(5) bs] f n by simp
  moreover have "pointer d (dir_of w) (generation w) (active_dir w)"
    using pointer_upd [OF d(3) f] seg_path_not_CURRENT [OF d(3)] n by simp
  moreover have "wf_disk d"
    using wf_disk_upd [OF d(1) f] live_next_fresh [OF l a] d(5) p
    by (auto simp: path_exists_def layout_def)
  ultimately show ?thesis
    using d(2,4,6) n by (intro liveI [where pre = "pre @ [bs]" and bs = "[]"]) simp_all
qed

lemma rotate_effect:
  assumes l: "live crc w L" and a: "active_size w > 0" and r: "rotate w = (ok, w')"
  shows "(if ok then live crc w' L else failed w' \<and> on_disk crc (wdisk w') (dir_of w') L) \<and>
    dir_of w' = dir_of w"
proof -
  from l obtain q where q: "fd w = Some q" and nf: "\<not> failed w" by (auto simp: live_def)
  obtain r1 d1 where s: "sys_sync q (wdisk w) = (r1, d1)" by fastforce
  let ?w1 = "w\<lparr>wdisk := d1\<rparr>" and ?p = "active_dir w @ [segment_name (next_lsn w)]"
  have l1: "live crc ?w1 L" by (rule live_same [OF l sys_sync_effect(1) [OF s]])
  obtain r2 w2 where o: "open_active ?p True ?w1 = (r2, w2)" by fastforce
  have fresh: "\<not> path_exists (wdisk ?w1) ?p"
    using live_next_fresh [OF l1] a by simp
  show ?thesis
  proof (cases r1)
    case False
    then show ?thesis using r q nf s live_on_disk [OF l1]
      by (auto simp: rotate_def sync_data_fd_def Let_def)
  next
    case r1: True
    from o fresh show ?thesis
    proof (cases rule: open_active_fresh)
      case (fail d)
      then show ?thesis using r r1 q nf s o on_disk_same [OF _ live_on_disk [OF l1], of d]
        by (auto simp: rotate_def sync_data_fd_def Let_def)
    next
      case (opened d)
      have l2: "live crc (w\<lparr>fd := Some ?p, wdisk := d, active_size := 0\<rparr>) L"
        using live_rotated [OF l1 _ _ opened(3,4)] a by simp
      obtain r3 d3 where y: "sys_fsync_dir (active_dir w) d = (r3, d3)" by fastforce
      have l3: "live crc (w\<lparr>fd := Some ?p, active_size := 0, wdisk := d3\<rparr>) L"
        using live_same [OF l2, of d3] sys_fsync_dir_effect [OF y] by simp
      show ?thesis using r r1 q nf s o opened y l3 live_on_disk [OF l3]
        by (cases r3) (auto simp: rotate_def sync_data_fd_def sync_directory_def Let_def)
    qed
  qed
qed

lemma wf_log_snoc:
  "wf_log crc pre bs [] \<Longrightarrow> valid_body b \<Longrightarrow> length (concat pre @ bs) + 1 < 2 ^ 64 \<Longrightarrow>
     wf_log crc pre (bs @ [b]) []"
  by (auto simp: wf_log_def)

lemma append_write:
  assumes l: "live crc w L" and b: "valid_body b" and n: "length L + 1 < 2 ^ 64"
    and wl: "write_loop True (the (fd w)) (frame crc b) (wdisk w) = (ok, d)"
  shows "ok \<Longrightarrow> live crc (w\<lparr>wdisk := d, active_size := active_size w + length (frame crc b),
        next_lsn := next_lsn w + 1\<rparr>) (L @ [b])"
    and "\<not> ok \<Longrightarrow> on_disk crc d (dir_of w) L"
  using l
proof (atomize (full), elim liveE)
  fix pre :: "bytes list list" and bs
  let ?p = "seg_path (active_dir w) (length (concat pre))"
  assume a: "wf_disk (wdisk w)" "\<not> failed w"
    "pointer (wdisk w) (dir_of w) (generation w) (active_dir w)" "next_lsn w = of_nat (length L)"
    "layout crc (wdisk w) (active_dir w) pre bs []" "L = concat pre @ bs"
    "fd w = Some ?p" "active_size w = length (frames crc bs)"
  have c: "file_at (wdisk w) ?p = Some (frames crc bs)" using a(5) by (simp add: layout_def)
  obtain k where k: "k \<le> length (frame crc b)"
      "file_at d = (file_at (wdisk w))(?p \<mapsto> frames crc bs @ take k (frame crc b))"
      "set (dirs d) = set (dirs (wdisk w))" "ok \<longleftrightarrow> k = length (frame crc b)"
    using write_loop_effect [OF wl [unfolded a(7) option.sel] c] by blast
  have wf: "wf_log crc pre bs []" using a(5) by (simp add: layout_def)
  have disk: "wf_disk d" "pointer d (dir_of w) (generation w) (active_dir w)"
    using wf_disk_upd [OF a(1) k(2,3)] c pointer_upd [OF a(3) k(2,3) seg_path_not_CURRENT [OF a(3)]]
    by auto
  show "(ok \<longrightarrow> live crc (w\<lparr>wdisk := d, active_size := active_size w + length (frame crc b),
        next_lsn := next_lsn w + 1\<rparr>) (L @ [b])) \<and> (\<not> ok \<longrightarrow> on_disk crc d (dir_of w) L)"
  proof (intro conjI impI)
    assume ok
    then have "layout crc d (active_dir w) pre (bs @ [b]) []"
      using k wf_log_snoc [OF wf b] n a(6) by (intro layout_last [OF a(5)]) simp_all
    with disk a(2,4,6,7,8) show "live crc (w\<lparr>wdisk := d,
        active_size := active_size w + length (frame crc b), next_lsn := next_lsn w + 1\<rparr>) (L @ [b])"
      by (intro liveI [where pre = pre and bs = "bs @ [b]"]) simp_all
  next
    assume "\<not> ok"
    then have "torn crc (take k (frame crc b))" using k(1,4) by (intro torn_prefix [OF b]) simp
    then have "layout crc d (active_dir w) pre bs (take k (frame crc b))"
      using k(2,3) wf by (intro layout_last [OF a(5)]) (simp_all add: wf_log_def)
    with disk a(6) show "on_disk crc d (dir_of w) L" by (simp add: on_diskI)
  qed
qed

lemma wal_append_effect:
  assumes l: "live crc w L" and n: "length L + 1 < 2 ^ 64" and ap: "wal_append crc b sync w = (ok, w')"
  shows "dir_of w' = dir_of w \<and>
    (if ok then live crc w' (L @ [b])
     else \<not> valid_body b \<and> w' = w \<or> failed w' \<and> (\<exists>L' \<in> {L, L @ [b]}. on_disk crc (wdisk w') (dir_of w') L'))"
proof (cases "valid_body b")
  case False
  then show ?thesis using ap by (auto simp: wal_append_def valid_body_def)
next
  case b: True
  then have g: "\<not> (fd w = None \<or> failed w \<or> b = [] \<or> length b > kMaxBody)"
    using l by (auto simp: valid_body_def live_def)
  obtain r w1 where r: "(if active_size w > 0 \<and> active_size w + (kFrameHeader + length b) > segment_bytes w
      then rotate w else (True, w)) = (r, w1)" by fastforce
  have w1: "(if r then live crc w1 L else failed w1 \<and> on_disk crc (wdisk w1) (dir_of w1) L) \<and>
      dir_of w1 = dir_of w"
  proof (cases "active_size w > 0 \<and> active_size w + (kFrameHeader + length b) > segment_bytes w")
    case True
    then have "rotate w = (r, w1)" using r by simp
    from rotate_effect [OF l _ this] True show ?thesis by (auto split: if_splits)
  qed (use r l in auto)
  show ?thesis
  proof (cases r)
    case False
    then show ?thesis using ap g r w1 by (auto simp: wal_append_def Let_def)
  next
    case True
    obtain k d where wl: "write_loop True (the (fd w1)) (frame crc b) (wdisk w1) = (k, d)" by fastforce
    let ?w2 = "w1\<lparr>wdisk := d, active_size := active_size w1 + length (frame crc b),
        next_lsn := next_lsn w1 + 1\<rparr>"
    note aw = append_write [OF _ b n wl]
    show ?thesis
    proof (cases k)
      case False
      then show ?thesis using ap g r w1 \<open>r\<close> wl aw(2) by (auto simp: wal_append_def Let_def)
    next
      case k: True
      obtain s w3 where s: "wal_sync ?w2 = (s, w3)" by fastforce
      from k True w1 aw(1) have l2: "live crc ?w2 (L @ [b])" by simp
      have "wal_append crc b sync w = (if sync then (s, w3) else (True, ?w2))"
        using g r \<open>r\<close> wl k s by (auto simp: wal_append_def Let_def)
      then show ?thesis
        using ap l2 wal_sync_effect [OF l2 s] w1 by (cases sync; cases s) auto
    qed
  qed
qed


section \<open>Opening\<close>

lemma sys_read_all_no_fault: "script d = [] \<Longrightarrow> sys_read_all p d = (file_at d p, d)"
  by (simp add: sys_read_all_def next_outcome_empty)

lemma sys_truncate_no_fault:
  "script d = [] \<Longrightarrow> file_at d p = Some c \<Longrightarrow>
     sys_truncate p n d = (True, d\<lparr>files := AList.update p (take n c) (files d)\<rparr>)"
  by (simp add: sys_truncate_def next_outcome_empty)

lemma open_active_no_fault:
  "script (wdisk w) = [] \<Longrightarrow> \<not> is_dir (wdisk w) p \<Longrightarrow> file_at (wdisk w) p \<noteq> None \<Longrightarrow>
     open_active p create w = (True, w\<lparr>fd := Some p\<rparr>)"
  by (auto simp: open_active_def sys_open_def next_outcome_empty)

lemma open_active_existing:
  assumes "open_active p create w = (ok, w')" "file_at (wdisk w) p = Some c"
  shows "\<exists>d. same_tree (wdisk w) d \<and> w' = w\<lparr>fd := (if ok then Some p else None), wdisk := d\<rparr>"
proof -
  obtain r d where o: "sys_open create False False p (wdisk w) = (r, d)" by fastforce
  from o have "same_tree (wdisk w) d \<and> (r = None \<or> r = Some p)"
    by (cases rule: sys_open_effect) (auto simp: assms(2) fun_upd_idem)
  with assms(1) o show ?thesis by (intro exI [of _ d]) (auto simp: open_active_def)
qed

declare open_segments.simps(2) [simp del]

text \<open>
  The last segment: what is torn at its end is cut off, and it becomes the active segment.
\<close>

lemma truncate_torn:
  assumes "(if t \<noteq> [] then sys_truncate p (length (frames crc bs)) d else (True, d)) = (k, d')"
    "file_at d p = Some (frames crc bs @ t)"
  shows "set (dirs d') = set (dirs d)"
    "file_at d' = (if k then (file_at d)(p \<mapsto> frames crc bs) else file_at d)"
  using assms sys_truncate_effect [of p "length (frames crc bs)" d k d' "frames crc bs @ t"]
  by (cases "t = []"; auto simp: same_tree_def fun_upd_idem)+

definition opened_to :: "wal \<Rightarrow> path \<Rightarrow> bytes \<Rightarrow> bool \<Rightarrow> wal \<Rightarrow> bool" where
  "opened_to w p c ok w' \<longleftrightarrow>
     dir_of w' = dir_of w \<and> active_dir w' = active_dir w \<and> generation w' = generation w \<and>
     failed w' = failed w \<and> set (dirs (wdisk w')) = set (dirs (wdisk w)) \<and>
     (file_at (wdisk w') = file_at (wdisk w) \<or> file_at (wdisk w') = (file_at (wdisk w))(p \<mapsto> c)) \<and>
     (ok \<longrightarrow> fd w' = Some p \<and> active_size w' = length c \<and>
        file_at (wdisk w') = (file_at (wdisk w))(p \<mapsto> c))"

lemma open_last_segment:
  assumes f: "file_at (wdisk w) p = Some (frames crc bs @ t)"
    and v: "\<forall>b \<in> set bs. valid_body b" "torn crc t" and p: "p = active_dir w @ [s]"
    and o: "open_segments crc [s] acc w = Some (ok, bods, w')"
  shows "opened_to w p (frames crc bs) ok w'"
    "ok \<Longrightarrow> bods = acc @ bs \<and> next_lsn w' = next_lsn w + of_nat (length bs)"
proof -
  obtain r d1 where r: "sys_read_all p (wdisk w) = (r, d1)" by fastforce
  from sys_read_all_effect [OF r] have s1: "file_at d1 = file_at (wdisk w)" "set (dirs d1) = set (dirs (wdisk w))"
      and r1: "r = None \<or> r = Some (frames crc bs @ t)"
    using f by (auto simp: same_tree_def)
  have sc: "scan_frames crc (frames crc bs @ t) 0 = Some (length (frames crc bs), bs)"
    using v by (auto simp: scan_frames_iff)
  obtain k d2 where tr: "(if t \<noteq> [] then sys_truncate p (length (frames crc bs)) d1 else (True, d1)) = (k, d2)"
    by fastforce
  have e2: "set (dirs d2) = set (dirs (wdisk w))"
      "file_at d2 = (if k then (file_at (wdisk w))(p \<mapsto> frames crc bs) else file_at (wdisk w))"
    using truncate_torn [OF tr] f s1 by simp_all
  let ?w2 = "w\<lparr>next_lsn := next_lsn w + of_nat (length bs), wdisk := d2\<rparr>"
  obtain k3 w3 where a: "open_active p False ?w2 = (k3, w3)" by fastforce
  have ev: "open_segments crc [s] acc w = Some (if r = None then (False, acc, w\<lparr>wdisk := d1\<rparr>)
      else if \<not> k then (False, acc @ bs, ?w2) else if \<not> k3 then (False, acc @ bs, w3)
      else (True, acc @ bs, w3\<lparr>active_size := length (frames crc bs)\<rparr>))"
    using r r1 sc a tr
    by (cases "t = []") (auto simp: p [symmetric] Let_def open_segments.simps)
  note res = o [unfolded ev option.inject, symmetric]
  have w3: "\<exists>d3. same_tree d2 d3 \<and> w3 = ?w2\<lparr>fd := if k3 then Some p else None, wdisk := d3\<rparr>" if k
    using open_active_existing [OF a, of "frames crc bs"] e2(2) that by simp
  consider "r = None" | "r \<noteq> None" "\<not> k" | "r \<noteq> None" k by blast
  then have "opened_to w p (frames crc bs) ok w' \<and>
      (ok \<longrightarrow> bods = acc @ bs \<and> next_lsn w' = next_lsn w + of_nat (length bs))"
  proof cases
    case 3
    from w3 [OF 3(2)] obtain d3 where d3: "same_tree d2 d3"
        "w3 = ?w2\<lparr>fd := if k3 then Some p else None, wdisk := d3\<rparr>" by blast
    show ?thesis
      using res 3 d3 e2 by (cases k3) (simp_all add: opened_to_def same_tree_def)
  qed (use res s1 e2 in \<open>auto simp: opened_to_def\<close>)
  then show "opened_to w p (frames crc bs) ok w'"
    "ok \<Longrightarrow> bods = acc @ bs \<and> next_lsn w' = next_lsn w + of_nat (length bs)"
    by blast+
qed

lemma open_clean_segment:
  assumes f: "file_at (wdisk w) (active_dir w @ [s]) = Some (frames crc bs)"
    and v: "\<forall>b \<in> set bs. valid_body b" and "rest \<noteq> []"
  shows "\<exists>d. same_tree (wdisk w) d \<and> (script (wdisk w) = [] \<longrightarrow> d = wdisk w) \<and>
    (open_segments crc (s # rest) acc w = Some (False, acc, w\<lparr>wdisk := d\<rparr>) \<and> script (wdisk w) \<noteq> [] \<or>
     open_segments crc (s # rest) acc w =
       open_segments crc rest (acc @ bs) (w\<lparr>next_lsn := next_lsn w + of_nat (length bs), wdisk := d\<rparr>))"
proof -
  obtain r d where r: "sys_read_all (active_dir w @ [s]) (wdisk w) = (r, d)" by fastforce
  have sc: "scan_frames crc (frames crc bs) 0 = Some (length (frames crc bs), bs)"
    using v by (auto simp: scan_frames_iff)
  have nf: "script (wdisk w) = [] \<Longrightarrow> r \<noteq> None \<and> d = wdisk w"
    by (metis Pair_inject f option.distinct(1) r sys_read_all_no_fault)
  from sys_read_all_effect [OF r] f
  have t: "same_tree (wdisk w) d" and r': "r = None \<or> r = Some (frames crc bs)" by auto
  show ?thesis
    using r r' sc t nf assms(3) by (intro exI [of _ d]) (auto simp: open_segments.simps Let_def)
qed

lemma open_segments_effect:
  assumes "clean_segs crc (wdisk w) (active_dir w) n pre"
    and "file_at (wdisk w) (seg_path (active_dir w) (n + length (concat pre))) = Some (frames crc bs @ t)"
    and "\<forall>b \<in> set (concat pre @ bs). valid_body b" "torn crc t"
    and "open_segments crc (seg_names n (pre @ [bs])) acc w = Some (ok, bods, w')"
  shows "opened_to w (seg_path (active_dir w) (n + length (concat pre))) (frames crc bs) ok w' \<and>
    (ok \<longrightarrow> bods = acc @ concat pre @ bs \<and>
       next_lsn w' = next_lsn w + of_nat (length (concat pre @ bs)))"
  using assms
proof (induction pre arbitrary: n acc w)
  case Nil
  then show ?case
    using open_last_segment [of w "seg_path (active_dir w) n" crc bs t "segment_name (of_nat n)" acc ok bods w']
    by (simp add: seg_path_def)
next
  case (Cons cs pre)
  let ?p = "seg_path (active_dir w) (n + length (concat (cs # pre)))"
  have f: "file_at (wdisk w) (active_dir w @ [segment_name (of_nat n)]) = Some (frames crc cs)"
    using Cons.prems(1) by (simp add: seg_path_def)
  from open_clean_segment [OF f, of "seg_names (n + length cs) (pre @ [bs])" acc] Cons.prems(3)
  obtain d where d: "same_tree (wdisk w) d"
    "open_segments crc (seg_names n ((cs # pre) @ [bs])) acc w = Some (False, acc, w\<lparr>wdisk := d\<rparr>) \<or>
     open_segments crc (seg_names n ((cs # pre) @ [bs])) acc w =
       open_segments crc (seg_names (n + length cs) (pre @ [bs])) (acc @ cs)
         (w\<lparr>next_lsn := next_lsn w + of_nat (length cs), wdisk := d\<rparr>)"
    by auto
  from d(2) show ?case
  proof
    assume "open_segments crc (seg_names n ((cs # pre) @ [bs])) acc w = Some (False, acc, w\<lparr>wdisk := d\<rparr>)"
    with Cons.prems(5) d(1) show ?thesis by (auto simp: opened_to_def same_tree_def)
  next
    let ?w = "w\<lparr>next_lsn := next_lsn w + of_nat (length cs), wdisk := d\<rparr>"
    assume e: "open_segments crc (seg_names n ((cs # pre) @ [bs])) acc w =
      open_segments crc (seg_names (n + length cs) (pre @ [bs])) (acc @ cs) ?w"
    have "clean_segs crc d (active_dir w) (n + length cs) pre"
      using Cons.prems(1) d(1) clean_segs_same by simp
    with Cons.IH [of ?w "n + length cs" "acc @ cs"] Cons.prems e d(1)
    show ?thesis by (auto simp: opened_to_def same_tree_def add.assoc)
  qed
qed

lemma layout_first:
  assumes "no_segments d dir" "wf_disk d" "file_at d' = (file_at d)(dir @ [segment_name 0] \<mapsto> [])"
    "set (dirs d') = set (dirs d)"
  shows "layout crc d' dir [] [] []" "wf_disk d'"
proof -
  show "layout crc d' dir [] [] []"
    using assms(1,3)
    by (auto simp: layout_def wf_log_def no_segments_def path_exists_def seg_path_def
        is_dir_cong [OF assms(4)])
  show "wf_disk d'"
    using assms(1) by (intro wf_disk_upd [OF assms(2-4)]) (auto simp: no_segments_def path_exists_def)
qed

lemma open_first_effect:
  assumes wf: "wf_disk (wdisk w)" "\<not> failed w" "next_lsn w = 0"
    and p: "pointer (wdisk w) (dir_of w) (generation w) (active_dir w)"
    and ns: "no_segments (wdisk w) (active_dir w)" and o: "open_first w = (ok, w')"
  shows "dir_of w' = dir_of w \<and> on_disk crc (wdisk w') (dir_of w) [] \<and> (ok \<longrightarrow> live crc w' [])"
proof -
  let ?p = "active_dir w @ [segment_name 0]"
  have od: "on_disk crc (wdisk w) (dir_of w) []" using wf p ns by (auto simp: on_disk_def selected_def)
  obtain e d1 where e: "(if active_dir w \<noteq> dir_of w then sys_mkdir (active_dir w) (wdisk w)
      else (None, wdisk w)) = (e, d1)" by fastforce
  have t1: "same_tree (wdisk w) d1"
  proof (cases "active_dir w = dir_of w")
    case False
    then have m: "sys_mkdir (active_dir w) (wdisk w) = (e, d1)" using e by simp
    show ?thesis
      using m by (cases rule: sys_mkdir_effect) (use ns in \<open>auto simp: no_segments_def path_exists_def\<close>)
  qed (use e in simp)
  let ?w1 = "w\<lparr>wdisk := d1\<rparr>"
  obtain k w2 where a: "open_active ?p True ?w1 = (k, w2)" by fastforce
  have fresh: "\<not> path_exists (wdisk ?w1) ?p" using ns path_exists_same [OF t1] by (simp add: no_segments_def)
  have bad: "e \<noteq> None \<and> e \<noteq> Some EEXIST \<Longrightarrow> ?thesis"
    using o e on_disk_same [OF t1 od] by (auto simp: open_first_def Let_def)
  show ?thesis
  proof (cases "e \<noteq> None \<and> e \<noteq> Some EEXIST")
    case good: False
    from a fresh show ?thesis
    proof (cases rule: open_active_fresh)
      case (fail d)
      with o e a good on_disk_same [OF same_tree_trans [OF t1] od, of d] show ?thesis
        by (auto simp: open_first_def Let_def split: if_splits)
    next
      case (opened d)
      obtain r d3 where y: "sys_fsync_dir (active_dir w) d = (r, d3)" by fastforce
      have ns1: "no_segments d1 (active_dir w)" "wf_disk d1"
        using ns no_segments_same [OF t1] same_tree_wf [OF t1 wf(1)] by simp_all
      have f: "file_at d = (file_at d1)(?p \<mapsto> [])" "set (dirs d) = set (dirs d1)"
        using opened by simp_all
      have n: "?p = seg_path (active_dir w) 0" by (simp add: seg_path_def)
      have p1: "pointer d1 (dir_of w) (generation w) (active_dir w)"
        using p pointer_same [OF t1] by simp
      have "pointer d (dir_of w) (generation w) (active_dir w)"
        using pointer_upd [OF p1 f] seg_path_not_CURRENT [OF p1, of 0] n by simp
      then have l: "live crc (w\<lparr>fd := Some ?p, wdisk := d, active_size := 0\<rparr>) []"
        using layout_first [OF ns1 f] wf(2,3) n
        by (intro liveI [where pre = "[]" and bs = "[]"]) simp_all
      have "live crc (w\<lparr>fd := Some ?p, active_size := 0, wdisk := d3\<rparr>) []"
        using live_same [OF l, of d3] sys_fsync_dir_effect [OF y] by simp
      with live_on_disk [OF this] o e a good opened y show ?thesis
        by (cases r) (auto simp: open_first_def sync_directory_def Let_def split: if_splits)
    qed
  qed (rule bad)
qed

lemma no_segments_listing:
  assumes "no_segments d dir"
  shows "sort (filter is_segment (entries d dir)) = []"
proof -
  have "filter is_segment (entries d dir) = []"
    using assms by (auto simp: no_segments_def path_exists_def is_dir_def entries_iff filter_empty_conv)
  then show ?thesis by simp
qed

lemma opened_to_live:
  assumes o: "opened_to w p (frames crc bs) ok w'"
    and p: "p = seg_path (active_dir w) (length (concat pre))"
    and l: "layout crc (wdisk w) (active_dir w) pre bs t" and wf: "wf_disk (wdisk w)" "\<not> failed w"
    and c: "pointer (wdisk w) (dir_of w) (generation w) (active_dir w)"
  shows "on_disk crc (wdisk w') (dir_of w) (concat pre @ bs)"
    "ok \<Longrightarrow> next_lsn w' = of_nat (length (concat pre @ bs)) \<Longrightarrow> live crc w' (concat pre @ bs)"
proof -
  have ds: "set (dirs (wdisk w')) = set (dirs (wdisk w))" using o by (simp add: opened_to_def)
  have upd: "layout crc (wdisk w') (active_dir w) pre bs [] \<and> wf_disk (wdisk w') \<and>
      pointer (wdisk w') (dir_of w) (generation w) (active_dir w)"
    if f: "file_at (wdisk w') = (file_at (wdisk w))(p \<mapsto> frames crc bs)"
  proof (intro conjI)
    show "layout crc (wdisk w') (active_dir w) pre bs []"
      using l f ds p by (intro layout_last [OF l]) (auto simp: layout_def wf_log_def)
    show "wf_disk (wdisk w')"
      using l p by (intro wf_disk_upd [OF wf(1) f ds]) (auto simp: layout_def)
    show "pointer (wdisk w') (dir_of w) (generation w) (active_dir w)"
      using pointer_upd [OF c f ds] seg_path_not_CURRENT [OF c] p by simp
  qed
  show "on_disk crc (wdisk w') (dir_of w) (concat pre @ bs)"
  proof (cases "file_at (wdisk w') = file_at (wdisk w)")
    case True
    then have "same_tree (wdisk w) (wdisk w')" using ds by auto
    then show ?thesis by (rule on_disk_same) (rule on_diskI [OF wf(1) c l])
  next
    case False
    then show ?thesis using o upd by (auto simp: opened_to_def intro: on_diskI)
  qed
  show "live crc w' (concat pre @ bs)" if ok "next_lsn w' = of_nat (length (concat pre @ bs))"
    using o upd that wf(2) p by (intro liveI [where pre = pre and bs = bs]) (auto simp: opened_to_def)
qed

lemma open_replay_effect:
  assumes wf: "wf_disk (wdisk w)" "\<not> failed w" "fd w = None"
    and c: "pointer (wdisk w) (dir_of w) (generation w) (active_dir w)"
    and sel: "selected crc (wdisk w) (active_dir w) L"
    and o: "open_replay crc w = Some (ok, bods, w')"
  shows "dir_of w' = dir_of w \<and> on_disk crc (wdisk w') (dir_of w) L \<and> (ok \<longrightarrow> bods = L \<and> live crc w' L)"
proof -
  obtain r d where r: "sys_list_dir (active_dir w) (wdisk w) = (r, d)" by fastforce
  from sys_list_dir_effect [OF r] have t: "same_tree (wdisk w) d" and
    r': "r = None \<or> r = Some (entries (wdisk w) (active_dir w))" by auto
  let ?w = "w\<lparr>wdisk := d, next_lsn := 0\<rparr>"
  have od: "on_disk crc d (dir_of w) L"
    by (rule on_disk_same [OF t on_disk_selected [OF wf(1) c sel]])
  have p: "wf_disk (wdisk ?w)" "\<not> failed ?w" "pointer (wdisk ?w) (dir_of ?w) (generation ?w) (active_dir ?w)"
    using wf c same_tree_wf [OF t] pointer_same [OF t] by simp_all
  from r' show ?thesis
  proof
    assume "r = None"
    with o r od show ?thesis by (auto simp: open_replay_def)
  next
    assume r': "r = Some (entries (wdisk w) (active_dir w))"
    from sel consider (empty) "L = []" "no_segments (wdisk w) (active_dir w)"
      | (segs) pre bs t where "layout crc (wdisk w) (active_dir w) pre bs t" "L = concat pre @ bs"
      by (auto simp: selected_def)
    then show ?thesis
    proof cases
      case empty
      with o r r' have "open_first ?w = (ok, w')" "bods = []"
        using wf(3) by (auto simp: open_replay_def no_segments_listing split: prod.splits)
      with open_first_effect [OF p(1,2) _ p(3), where ok = ok and w' = w'] empty no_segments_same [OF t]
      show ?thesis by simp
    next
      case (segs pre bs u)
      have l: "layout crc (wdisk ?w) (active_dir ?w) pre bs u" using segs layout_same [OF t] by simp
      obtain k cs w2 where os: "open_segments crc (seg_names 0 (pre @ [bs])) [] ?w = Some (k, cs, w2)"
        using o r r' layout_listing [OF segs(1)]
        by (auto simp: open_replay_def bind_eq_Some_conv split: prod.splits)
      let ?p = "seg_path (active_dir ?w) (length (concat pre))"
      have e: "opened_to ?w ?p (frames crc bs) k w2" "k \<Longrightarrow> cs = L \<and> next_lsn w2 = of_nat (length L)"
        using open_segments_effect [of crc ?w 0 pre bs u "[]" k cs w2] l os segs(2)
        by (auto simp: layout_def wf_log_def)
      note lv = opened_to_live [OF e(1) refl l p(1,2,3)]
      have fd: "k \<Longrightarrow> fd w2 \<noteq> None" "dir_of w2 = dir_of w" using e(1) by (auto simp: opened_to_def)
      have "(ok, bods, w') = (k, cs, w2)"
        using o r r' layout_listing [OF segs(1)] os fd
        by (cases k) (auto simp: open_replay_def)
      with lv e(2) fd segs(2) show ?thesis by auto
    qed
  qed
qed

text \<open>\<open>CURRENT\<close> selects the directory, unless the stream could not be opened.\<close>

lemma read_current_effect:
  assumes r: "read_current (dir @ [''CURRENT'']) d = (cur, d')" and p: "pointer d dir g adir"
    and ok: "file_at d (dir @ [''CURRENT'']) \<noteq> None \<Longrightarrow> script d = [] \<or> hd (script d) = SysOk"
  shows "same_tree d d' \<and>
    (cur = Some None \<or> cur = None \<and> g = 0 \<and> adir = dir \<or> cur = Some (Some g) \<and> adir = dir @ [gen_name g])"
proof -
  obtain oc d1 where n: "next_outcome d = (oc, d1)" by fastforce
  note t = next_outcome_tree_simps [OF n]
  obtain c d2 where c: "sys_read_all (dir @ [''CURRENT'']) d1 = (c, d2)" by fastforce
  note rd = sys_read_all_effect [OF c]
  have oc: "fault oc = None" if "file_at d (dir @ [''CURRENT'']) \<noteq> None"
    using ok [OF that] n by (auto simp: next_outcome_def split: list.splits)
  show ?thesis
  proof (cases "file_at d (dir @ [''CURRENT''])")
    case None
    with p have "\<not> path_exists d1 (dir @ [''CURRENT''])" "g = 0" "adir = dir"
      by (simp_all add: pointer_def path_exists_def t)
    with r n show ?thesis
      by (auto simp: read_current_def intro: next_outcome_same)
  next
    case (Some x)
    with p have "parse_u64 (map char_of_byte x) = Some g" "adir = dir @ [gen_name g]"
      by (simp_all add: pointer_def)
    moreover have "path_exists d1 (dir @ [''CURRENT''])" "c = None \<or> c = Some x"
      using Some rd by (auto simp: path_exists_def t)
    moreover have "same_tree d d2"
      using rd same_tree_trans [OF next_outcome_same [OF n]] by blast
    ultimately show ?thesis using r n c oc Some by (auto simp: read_current_def)
  qed
qed

text \<open>
  The one fault the refinement excludes: \<open>open\<close> takes a \<open>CURRENT\<close> that exists but cannot be opened for
  one that does not exist. The second call of \<open>open\<close> is the one that opens it.
\<close>

definition current_readable :: "disk \<Rightarrow> path \<Rightarrow> bool" where
  "current_readable d dir \<longleftrightarrow>
     file_at d (dir @ [''CURRENT'']) = None \<or> length (script d) < 2 \<or> script d ! 1 = SysOk"

lemma sys_mkdir_script: "sys_mkdir p d = (e, d') \<Longrightarrow> script d' = tl (script d)"
  by (auto simp: sys_mkdir_def next_outcome_def split: list.splits option.splits if_splits)

text \<open>After the first \<open>mkdir\<close> there is a directory, and the disk still holds the log.\<close>

lemma open_mkdir:
  assumes od: "on_disk crc d dir L" and m: "sys_mkdir dir d = (e, d')"
  shows "on_disk crc d' dir L"
    "e = None \<or> e = Some EEXIST \<Longrightarrow> current_readable d dir \<Longrightarrow>
      \<exists>g adir. pointer d' dir g adir \<and> selected crc d' adir L \<and>
        (file_at d' (dir @ [''CURRENT'']) \<noteq> None \<longrightarrow> script d' = [] \<or> hd (script d') = SysOk)"
proof (atomize (full), goal_cases)
  case 1
  have sc: "current_readable d dir \<Longrightarrow> file_at d (dir @ [''CURRENT'']) \<noteq> None \<Longrightarrow>
      script d' = [] \<or> hd (script d') = SysOk"
    using sys_mkdir_script [OF m]
    by (cases "script d" rule: remdups_adj.cases) (auto simp: current_readable_def)
  from m show ?case
  proof (cases rule: sys_mkdir_effect)
    case (fail x)
    have od': "on_disk crc d' dir L" by (rule on_disk_same [OF fail(2) od])
    have "\<exists>g adir. pointer d' dir g adir \<and> selected crc d' adir L" if "e = Some EEXIST"
      using od' that fail(1,3) path_exists_same [OF fail(2)] by (auto simp: on_disk_def)
    with od' fail(1) sc same_tree_file [OF fail(2)] show ?thesis by auto
  next
    case made
    have L: "L = []" and wf: "wf_disk d" using od made(2) by (auto simp: on_disk_def pointer_def path_exists_def)
    have no: "\<not> path_exists d (dir @ [n])" for n
      using made(2) wf by (auto simp: path_exists_def wf_disk_def is_dir_def)
    then have n': "file_at d' (dir @ [n]) = None" "\<not> is_dir d' (dir @ [n])" for n
      using made(4,5) by (auto simp: path_exists_def is_dir_def)
    have dir: "is_dir d' dir" using made(5) by (simp add: is_dir_def)
    have p: "pointer d' dir 0 dir" using n' dir by (simp add: pointer_def)
    have s: "selected crc d' dir L" using n' dir L by (simp add: selected_def no_segments_def path_exists_def)
    have "wf_disk d'"
      using wf made by (auto simp: wf_disk_def is_dir_def path_exists_def)
    with p s on_disk_selected n' show ?thesis by blast
  qed
qed

lemma wal_update_order:
  "w\<lparr>wdisk := d, active_dir := a, generation := g\<rparr> = w\<lparr>active_dir := a, generation := g, wdisk := d\<rparr>"
  by (cases w) simp

text \<open>Opening a log replays it, whatever calls fail, and leaves it on the disk.\<close>

lemma wal_open_effect:
  assumes od: "on_disk crc (wdisk w) dir L" and cr: "current_readable (wdisk w) dir" and fd: "fd w = None"
    and o: "wal_open crc dir w = Some (ok, bods, w')"
  shows "dir_of w' = dir \<and> on_disk crc (wdisk w') dir L \<and> (ok \<longrightarrow> bods = L \<and> live crc w' L)"
proof -
  obtain e d1 where m: "sys_mkdir dir (wdisk w) = (e, d1)" by fastforce
  note mk = open_mkdir [OF od m]
  show ?thesis
  proof (cases "e = None \<or> e = Some EEXIST")
    case False
    then show ?thesis using o m mk(1) by (auto simp: wal_open_def Let_def)
  next
    case True
    from mk(2) [OF this cr] obtain g adir where p: "pointer d1 dir g adir" "selected crc d1 adir L"
      "file_at d1 (dir @ [''CURRENT'']) \<noteq> None \<longrightarrow> script d1 = [] \<or> hd (script d1) = SysOk" by blast
    have wf: "wf_disk d1" using mk(1) by (simp add: on_disk_def)
    obtain cur d2 where c: "read_current (dir @ [''CURRENT'']) d1 = (cur, d2)" by fastforce
    from read_current_effect [OF c p(1)] p(3) have t: "same_tree d1 d2" and
      cur: "cur = Some None \<or> cur = None \<and> g = 0 \<and> adir = dir \<or> cur = Some (Some g) \<and> adir = dir @ [gen_name g]"
      by auto
    let ?w = "w\<lparr>failed := False, dir_of := dir, active_dir := adir, generation := g, wdisk := d2\<rparr>"
    have "cur = Some None \<and> (ok, bods, dir_of w', wdisk w') = (False, [], dir, d2) \<or>
        open_replay crc ?w = Some (ok, bods, w')"
      using o m c True cur by (auto simp: wal_open_def Let_def wal_update_order)
    then show ?thesis
      using open_replay_effect [of ?w crc L ok bods w'] wf fd p on_disk_same [OF t mk(1)]
        same_tree_wf [OF t wf] pointer_same [OF t] selected_same [OF t] by auto
  qed
qed

text \<open>When no call fails, opening succeeds.\<close>

lemma open_last_no_fault:
  assumes "script (wdisk w) = []" and f: "file_at (wdisk w) (active_dir w @ [s]) = Some (frames crc bs @ t)"
    and v: "\<forall>b \<in> set bs. valid_body b" "torn crc t" and wf: "wf_disk (wdisk w)"
  shows "\<exists>bods w'. open_segments crc [s] acc w = Some (True, bods, w')"
proof -
  let ?p = "active_dir w @ [s]"
  have sc: "scan_frames crc (frames crc bs @ t) 0 = Some (length (frames crc bs), bs)"
    using v by (auto simp: scan_frames_iff)
  have nd: "\<not> is_dir (wdisk w) ?p" using wf f by (auto simp: wf_disk_def)
  show ?thesis
    using assms(1) f sc nd
    by (cases "t = []")
      (simp_all add: open_segments.simps sys_read_all_no_fault sys_truncate_no_fault open_active_no_fault Let_def)
qed

lemma open_segments_no_fault:
  assumes "clean_segs crc (wdisk w) (active_dir w) n pre"
    and "file_at (wdisk w) (seg_path (active_dir w) (n + length (concat pre))) = Some (frames crc bs @ t)"
    and "\<forall>b \<in> set (concat pre @ bs). valid_body b" "torn crc t"
    and "script (wdisk w) = []" "wf_disk (wdisk w)"
  shows "\<exists>bods w'. open_segments crc (seg_names n (pre @ [bs])) acc w = Some (True, bods, w')"
  using assms
proof (induction pre arbitrary: n acc w)
  case Nil
  then show ?case
    using open_last_no_fault [of w "segment_name (of_nat n)" crc bs t acc] by (simp add: seg_path_def)
next
  case (Cons cs pre)
  have f: "file_at (wdisk w) (active_dir w @ [segment_name (of_nat n)]) = Some (frames crc cs)"
    using Cons.prems(1) by (simp add: seg_path_def)
  let ?w = "w\<lparr>next_lsn := next_lsn w + of_nat (length cs)\<rparr>"
  have "open_segments crc (seg_names n ((cs # pre) @ [bs])) acc w =
      open_segments crc (seg_names (n + length cs) (pre @ [bs])) (acc @ cs) ?w"
    using open_clean_segment [OF f, of "seg_names (n + length cs) (pre @ [bs])" acc] Cons.prems(3,5)
    by auto
  with Cons.IH [of ?w "n + length cs" "acc @ cs"] Cons.prems show ?case by (simp add: add.assoc)
qed

lemma open_first_no_fault:
  assumes "script (wdisk w) = []" "no_segments (wdisk w) (active_dir w)"
  shows "\<exists>w'. open_first w = (True, w')"
proof -
  have d: "is_dir (wdisk w) (active_dir w)" "\<not> path_exists (wdisk w) (active_dir w @ [segment_name 0])"
    using assms(2) by (simp_all add: no_segments_def)
  have m: "sys_mkdir (active_dir w) (wdisk w) = (Some EEXIST, wdisk w)"
    using assms(1) d(1) by (simp add: sys_mkdir_def next_outcome_empty path_exists_def)
  have o: "sys_open True False False (active_dir w @ [segment_name 0]) (wdisk w) =
      (Some (active_dir w @ [segment_name 0]),
       (wdisk w)\<lparr>files := AList.update (active_dir w @ [segment_name 0]) [] (files (wdisk w))\<rparr>)"
    using assms(1) d by (simp add: sys_open_def next_outcome_empty path_exists_def)
  show ?thesis
    using assms(1) d(1) m o
    by (cases "active_dir w = dir_of w")
      (simp_all add: open_first_def open_active_def sync_directory_def sys_fsync_dir_def
        next_outcome_empty Let_def)
qed

lemma open_replay_no_fault:
  assumes "script (wdisk w) = []" "fd w = None" "wf_disk (wdisk w)"
    and sel: "selected crc (wdisk w) (active_dir w) L"
  shows "\<exists>bods w'. open_replay crc w = Some (True, bods, w')"
proof -
  have dir: "is_dir (wdisk w) (active_dir w)"
    using sel by (auto simp: selected_def no_segments_def layout_def)
  have li: "sys_list_dir (active_dir w) (wdisk w) = (Some (entries (wdisk w) (active_dir w)), wdisk w)"
    using assms(1) dir by (simp add: sys_list_dir_def next_outcome_empty)
  let ?w = "w\<lparr>next_lsn := 0\<rparr>"
  from sel consider (empty) "no_segments (wdisk w) (active_dir w)"
    | (segs) pre bs t where "layout crc (wdisk w) (active_dir w) pre bs t"
    by (auto simp: selected_def)
  then show ?thesis
  proof cases
    case empty
    with open_first_no_fault [of ?w] assms(1,2) li show ?thesis
      by (auto simp: open_replay_def no_segments_listing)
  next
    case (segs pre bs t)
    then obtain bods w' where "open_segments crc (seg_names 0 (pre @ [bs])) [] ?w = Some (True, bods, w')"
      using open_segments_no_fault [of crc ?w 0 pre bs t "[]"] assms(1,3)
      by (auto simp: layout_def wf_log_def)
    moreover from this have "fd w' \<noteq> None"
      using open_segments_effect [of crc ?w 0 pre bs t "[]" True bods w'] segs
      by (auto simp: layout_def wf_log_def opened_to_def)
    ultimately show ?thesis using li layout_listing [OF segs] by (auto simp: open_replay_def)
  qed
qed

lemma wal_open_no_fault:
  assumes od: "on_disk crc (wdisk w) dir L" and sc: "script (wdisk w) = []" and fd: "fd w = None"
  shows "\<exists>w'. wal_open crc dir w = Some (True, L, w') \<and> live crc w' L"
proof -
  have cr: "current_readable (wdisk w) dir" using sc by (simp add: current_readable_def)
  obtain e d1 where m: "sys_mkdir dir (wdisk w) = (e, d1)" by fastforce
  have "path_exists (wdisk w) dir \<or> is_dir (wdisk w) (butlast dir)"
    using od by (auto simp: on_disk_def pointer_def path_exists_def)
  then have e: "e = None \<or> e = Some EEXIST" and sc1: "script d1 = []"
    using m sc by (auto simp: sys_mkdir_def next_outcome_empty split: if_splits)
  from open_mkdir(2) [OF od m e cr] obtain g adir where p: "pointer d1 dir g adir" "selected crc d1 adir L"
    by blast
  have wf: "wf_disk d1" using open_mkdir(1) [OF od m] by (simp add: on_disk_def)
  let ?w = "w\<lparr>failed := False, dir_of := dir, active_dir := adir, generation := g, wdisk := d1\<rparr>"
  have rc: "read_current (dir @ [''CURRENT'']) d1 =
      (if file_at d1 (dir @ [''CURRENT'']) = None then None else Some (Some g), d1)"
    using p(1) sc1
    by (auto simp: read_current_def next_outcome_empty sys_read_all_no_fault pointer_def path_exists_def
        split: option.splits)
  have "wal_open crc dir w = open_replay crc ?w"
    using m e rc p(1)
    by (auto simp: wal_open_def Let_def pointer_def wal_update_order split: option.splits)
  with open_replay_no_fault [of ?w crc L] sc1 fd wf p(2) obtain bods w' where
    o: "wal_open crc dir w = Some (True, bods, w')" by auto
  from wal_open_effect [OF od cr fd o] o show ?thesis by simp
qed

end
