(* ===== verification/Wal_Compact.thy ===== *)
theory Wal_Compact
  imports Wal_Log
begin

text \<open>
  Compaction replaces the log by a snapshot atomically: whatever call fails, the disk holds the old
  log or the snapshot, and when \<open>compact\<close> reports success it holds the snapshot.
\<close>

section \<open>What the log does not look at\<close>

text \<open>
  The meaning of a log directory rests on these paths only: the root, the pointer, the active
  directory and its segments.
\<close>

definition log_path :: "path \<Rightarrow> path \<Rightarrow> path \<Rightarrow> bool" where
  "log_path dir adir q \<longleftrightarrow>
     q = dir \<or> q = dir @ [''CURRENT''] \<or> q = adir \<or> (\<exists>n. is_segment n \<and> q = adir @ [n])"

definition same_log :: "path \<Rightarrow> path \<Rightarrow> disk \<Rightarrow> disk \<Rightarrow> bool" where
  "same_log dir adir d d' \<longleftrightarrow>
     wf_disk d' \<and> (\<forall>q. log_path dir adir q \<longrightarrow> file_at d' q = file_at d q \<and> is_dir d' q = is_dir d q)"

lemma same_logD:
  assumes "same_log dir adir d d'"
  shows "wf_disk d'" "log_path dir adir q \<Longrightarrow> file_at d' q = file_at d q"
    "log_path dir adir q \<Longrightarrow> is_dir d' q = is_dir d q"
  using assms by (auto simp: same_log_def)

lemma log_path_simps [simp]:
  "log_path dir adir dir" "log_path dir adir (dir @ [''CURRENT''])" "log_path dir adir adir"
  "is_segment n \<Longrightarrow> log_path dir adir (adir @ [n])" "log_path dir adir (seg_path adir m)"
  by (auto simp: log_path_def seg_path_def)

lemma same_log_refl: "wf_disk d \<Longrightarrow> same_log dir adir d d"
  by (simp add: same_log_def)

lemma same_log_trans: "same_log dir adir a b \<Longrightarrow> same_log dir adir b c \<Longrightarrow> same_log dir adir a c"
  by (simp add: same_log_def)

lemma same_log_tree: "same_tree d d' \<Longrightarrow> wf_disk d \<Longrightarrow> same_log dir adir d d'"
  by (simp add: same_log_def same_tree_file same_tree_dir same_tree_wf)

lemma same_log_then_tree:
  assumes "same_log dir adir d d1" "same_tree d1 d2"
  shows "same_log dir adir d d2"
  by (rule same_log_trans [OF assms(1) same_log_tree [OF assms(2) same_logD(1) [OF assms(1)]]])

lemma same_log_pointer:
  assumes "same_log dir adir d d'" "pointer d dir g adir"
  shows "pointer d' dir g adir"
  using assms(2)
  by (simp add: pointer_def same_logD(2,3) [OF assms(1)] split: option.splits)

lemma same_log_layout:
  assumes s: "same_log dir adir d d'" and l: "layout crc d adir pre bs t"
  shows "layout crc d' adir pre bs t"
proof -
  have f: "file_at d' (seg_path adir m) = file_at d (seg_path adir m)" for m
    using same_logD(2) [OF s] by simp
  have pe: "is_segment n \<Longrightarrow> path_exists d' (adir @ [n]) = path_exists d (adir @ [n])" for n
    using same_logD(2,3) [OF s] by (simp add: path_exists_def)
  have "clean_segs crc d' adir n ps = clean_segs crc d adir n ps" for n ps
    by (induction ps arbitrary: n) (simp_all add: f)
  then show ?thesis using l pe by (simp add: layout_def f same_logD(3) [OF s])
qed

text \<open>An operation on another path leaves the log alone.\<close>

lemma same_log_upd:
  assumes "wf_disk d" "file_at d' = (file_at d)(p \<mapsto> c)" "set (dirs d') = set (dirs d)"
    "file_at d p = None \<Longrightarrow> \<not> is_dir d p \<and> is_dir d (butlast p)" "\<not> log_path dir adir p"
  shows "same_log dir adir d d'"
  using assms wf_disk_upd [OF assms(1-4)] by (auto simp: same_log_def is_dir_cong [OF assms(3)])

lemma same_log_mkdir:
  assumes "wf_disk d" "file_at d' = file_at d" "set (dirs d') = insert p (set (dirs d))"
    "\<not> path_exists d p" "is_dir d (butlast p)" "\<not> log_path dir adir p"
  shows "same_log dir adir d d'"
proof -
  have "wf_disk d'" using assms by (auto simp: wf_disk_def is_dir_def path_exists_def)
  then show ?thesis using assms by (auto simp: same_log_def is_dir_def)
qed

text \<open>A new generation is apart from the generation in use.\<close>

lemma apart_generation:
  assumes "pointer d dir g adir" "\<not> path_exists d (dir @ [gen_name h])" "is_dir d adir"
  shows "\<not> log_path dir adir (dir @ [gen_name h])"
    "\<not> log_path dir adir (dir @ [gen_name h] @ [n])" "\<not> log_path dir adir (dir @ [''CURRENT.tmp''])"
proof -
  have ad: "adir = dir \<or> (\<exists>k. adir = dir @ [gen_name k] \<and> k \<noteq> h)"
    using assms by (auto simp: pointer_def path_exists_def split: option.splits)
  then show "\<not> log_path dir adir (dir @ [gen_name h])" "\<not> log_path dir adir (dir @ [''CURRENT.tmp''])"
    by (auto simp: log_path_def)
  show "\<not> log_path dir adir (dir @ [gen_name h] @ [n])"
    using ad by (auto simp: log_path_def)
qed


section \<open>Writing the snapshot\<close>

lemma make_generation_effect:
  assumes "make_generation dir g d = (r, d')"
  shows "(r = None \<and> same_tree d d') \<or>
    (\<exists>h. r = Some h \<and> \<not> path_exists d (dir @ [gen_name h]) \<and> is_dir d dir \<and> file_at d' = file_at d \<and>
       set (dirs d') = insert (dir @ [gen_name h]) (set (dirs d)))"
  using assms
proof (induction dir g d rule: make_generation.induct)
  case (1 dir g d)
  obtain e d1 where m: "sys_mkdir (dir @ [gen_name g]) d = (e, d1)" by fastforce
  from m show ?case
  proof (cases rule: sys_mkdir_effect)
    case made
    with "1.prems" m show ?thesis by (auto simp: make_generation.simps [of dir g d])
  next
    case (fail x)
    show ?thesis
    proof (cases "x \<noteq> EEXIST \<or> g = - 1")
      case True
      with "1.prems" m fail show ?thesis by (auto simp: make_generation.simps [of dir g d])
    next
      case False
      with "1.prems" m fail have n: "make_generation dir (g + 1) d1 = (r, d')"
        by (simp add: make_generation.simps [of dir g d])
      from "1.IH" [OF refl m [symmetric] fail(1) False n] fail(2) show ?thesis
        by (auto simp: same_tree_def path_exists_def is_dir_def)
    qed
  qed
qed

text \<open>The writer's state: the generation holds \<open>L\<close> and \<open>out\<close> is its last segment.\<close>

definition writing :: "(bytes \<Rightarrow> u32) \<Rightarrow> path \<Rightarrow> writer \<Rightarrow> bytes list \<Rightarrow> bool" where
  "writing crc nd s L \<longleftrightarrow> wf_disk (wrdisk s) \<and> wlsn s = of_nat (length L) \<and>
     (\<exists>pre bs. layout crc (wrdisk s) nd pre bs [] \<and> L = concat pre @ bs \<and>
        out s = Some (seg_path nd (length (concat pre))) \<and> wsize s = length (frames crc bs))"

lemma sync_data_fd_tree: "sync_data_fd f d = (r, d') \<Longrightarrow> same_tree d d'"
  by (auto simp: sync_data_fd_def dest: sys_sync_effect(1) split: option.splits)

lemma sys_open_excl:
  assumes "sys_open True True False p d = (r, d')"
  shows "r = None \<and> same_tree d d' \<or>
    r = Some p \<and> \<not> path_exists d p \<and> is_dir d (butlast p) \<and> set (dirs d') = set (dirs d) \<and>
    file_at d' = (file_at d)(p \<mapsto> [])"
  using assms by (cases rule: sys_open_effect) (auto simp: path_exists_def)

definition apart :: "path \<Rightarrow> path \<Rightarrow> path \<Rightarrow> bool" where
  "apart dir adir nd \<longleftrightarrow> (\<forall>n. \<not> log_path dir adir (nd @ [n]))"

lemma open_segment_first:
  assumes o: "open_segment nd 0 s = (ok, s')" and s: "out s = None" "wlsn s = 0" "wf_disk (wrdisk s)"
    and ns: "no_segments (wrdisk s) nd" and ap: "apart dir adir nd"
  shows "same_log dir adir (wrdisk s) (wrdisk s') \<and> (ok \<longrightarrow> writing crc nd s' [])"
proof -
  let ?p = "nd @ [segment_name 0]"
  obtain r d where e: "sys_open True True False ?p (wrdisk s) = (r, d)" by fastforce
  have s': "ok = (r \<noteq> None)" "s' = s\<lparr>out := r, wsize := 0, wrdisk := d\<rparr>"
    using o e s by (auto simp: open_segment_def)
  from sys_open_excl [OF e] show ?thesis
  proof (elim disjE conjE)
    assume "r = None" "same_tree (wrdisk s) d"
    then show ?thesis using s' same_log_tree s(3) by simp
  next
    assume a: "r = Some ?p" "\<not> path_exists (wrdisk s) ?p" "is_dir (wrdisk s) (butlast ?p)"
      "set (dirs d) = set (dirs (wrdisk s))" "file_at d = (file_at (wrdisk s))(?p \<mapsto> [])"
    have "same_log dir adir (wrdisk s) d"
      using a ap by (intro same_log_upd [OF s(3) a(5,4)]) (auto simp: apart_def path_exists_def)
    moreover have "writing crc nd s' []"
      using layout_first [OF ns s(3) a(5,4)] s' s(2) a(1)
      by (auto simp: writing_def seg_path_def intro!: exI [of _ "[]"])
    ultimately show ?thesis using s' by simp
  qed
qed

lemma open_segment_next:
  assumes o: "open_segment nd (wlsn s) s = (ok, s')" and w: "writing crc nd s L" and sz: "wsize s > 0"
    and ap: "apart dir adir nd"
  shows "same_log dir adir (wrdisk s) (wrdisk s') \<and> (ok \<longrightarrow> writing crc nd s' L)"
proof -
  from w obtain pre bs where a: "wf_disk (wrdisk s)" "wlsn s = of_nat (length L)"
    "layout crc (wrdisk s) nd pre bs []" "L = concat pre @ bs"
    "out s = Some (seg_path nd (length (concat pre)))" "wsize s = length (frames crc bs)"
    unfolding writing_def by blast
  have bs: "bs \<noteq> []" using sz a(6) by auto
  obtain k d1 where y: "sync_data_fd (out s) (wrdisk s) = (k, d1)" by fastforce
  note t1 = sync_data_fd_tree [OF y]
  let ?p = "seg_path nd (length (concat pre) + length bs)"
  have p: "nd @ [segment_name (wlsn s)] = ?p" using a by (simp add: seg_path_def)
  obtain r d where e: "sys_open True True False ?p d1 = (r, d)" by fastforce
  have s': "(ok, s') = (if k then (r \<noteq> None, s\<lparr>out := r, wsize := 0, wrdisk := d\<rparr>)
      else (False, s\<lparr>wrdisk := d1\<rparr>))"
    using o y e p a(5) by (simp add: open_segment_def Let_def split: if_splits)
  have l1: "same_log dir adir (wrdisk s) d1" by (rule same_log_tree [OF t1 a(1)])
  have wf1: "wf_disk d1" by (rule same_tree_wf [OF t1 a(1)])
  from sys_open_excl [OF e] have "same_log dir adir d1 d \<and>
      (r \<noteq> None \<longrightarrow> writing crc nd (s\<lparr>out := r, wsize := 0, wrdisk := d\<rparr>) L)"
  proof (elim disjE conjE)
    assume "r = None" "same_tree d1 d"
    then show ?thesis using same_log_tree wf1 by simp
  next
    assume c: "r = Some ?p" "\<not> path_exists d1 ?p" "is_dir d1 (butlast ?p)"
      "set (dirs d) = set (dirs d1)" "file_at d = (file_at d1)(?p \<mapsto> [])"
    have "same_log dir adir d1 d"
      using c ap by (intro same_log_upd [OF wf1 c(5,4)]) (auto simp: apart_def path_exists_def seg_path_def)
    moreover have "layout crc d nd (pre @ [bs]) [] []"
      using a(3) layout_same [OF t1] by (intro layout_rotate [OF _ bs c(5,4)]) simp
    ultimately show ?thesis using a(2,4) c(1)
      by (auto simp: writing_def same_log_def intro!: exI [of _ "pre @ [bs]"])
  qed
  with s' l1 same_log_trans [OF l1] show ?thesis by (cases k) auto
qed

lemma write_frame_effect:
  assumes wf: "write_frame crc (out s) b (wrdisk s) = (ok, d)" and w: "writing crc nd s L"
    and b: "valid_body b" "length L + 1 < 2 ^ 64" and ap: "apart dir adir nd"
  shows "same_log dir adir (wrdisk s) d \<and>
    (ok \<longrightarrow> writing crc nd (s\<lparr>wrdisk := d, wsize := wsize s + (kFrameHeader + length b), wlsn := wlsn s + 1\<rparr>)
       (L @ [b]))"
proof -
  from w obtain pre bs where a: "wf_disk (wrdisk s)" "wlsn s = of_nat (length L)"
    "layout crc (wrdisk s) nd pre bs []" "L = concat pre @ bs"
    "out s = Some (seg_path nd (length (concat pre)))" "wsize s = length (frames crc bs)"
    unfolding writing_def by blast
  let ?p = "seg_path nd (length (concat pre))"
  have c: "file_at (wrdisk s) ?p = Some (frames crc bs)" using a(3) by (simp add: layout_def)
  have "write_loop False ?p (frame crc b) (wrdisk s) = (ok, d)" using wf a(5) by (simp add: write_frame_def)
  from write_loop_effect [OF this c] obtain k where
    k: "file_at d = (file_at (wrdisk s))(?p \<mapsto> frames crc bs @ take k (frame crc b))"
      "set (dirs d) = set (dirs (wrdisk s))" "ok \<longleftrightarrow> k = length (frame crc b)" by blast
  have "same_log dir adir (wrdisk s) d"
    using c ap by (intro same_log_upd [OF a(1) k(1,2)]) (auto simp: apart_def seg_path_def)
  moreover have "layout crc d nd pre (bs @ [b]) []" if ok
    using that k a(3,4) wf_log_snoc [of crc pre bs b] b
    by (intro layout_last [OF a(3)]) (simp_all add: layout_def)
  ultimately show ?thesis using a(2,4,5,6)
    by (auto simp: writing_def same_log_def intro!: exI [of _ pre] exI [of _ "bs @ [b]"])
qed

lemma write_snapshot_effect:
  assumes "write_snapshot crc sb nd bs (True, s) = (ok, s')" "writing crc nd s L"
    "\<forall>b \<in> set bs. valid_body b" "length L + length bs < 2 ^ 64" "apart dir adir nd"
  shows "same_log dir adir (wrdisk s) (wrdisk s') \<and> (ok \<longrightarrow> writing crc nd s' (L @ bs))"
  using assms
proof (induction bs arbitrary: s L)
  case Nil
  then show ?case by (auto simp: writing_def intro: same_log_refl)
next
  case (Cons b bs)
  obtain k s1 where o: "(if wsize s > 0 \<and> wsize s + (kFrameHeader + length b) > sb
      then open_segment nd (wlsn s) s else (True, s)) = (k, s1)" by fastforce
  have s1: "same_log dir adir (wrdisk s) (wrdisk s1) \<and> (k \<longrightarrow> writing crc nd s1 L)"
  proof (cases "wsize s > 0 \<and> wsize s + (kFrameHeader + length b) > sb")
    case True
    then show ?thesis using o open_segment_next [OF _ Cons.prems(2) _ Cons.prems(5), of k s1] by simp
  next
    case False
    then have "k" "s1 = s" using o by auto
    then show ?thesis using Cons.prems(2) by (auto simp: writing_def intro: same_log_refl)
  qed
  obtain j d where f: "(if k then write_frame crc (out s1) b (wrdisk s1) else (False, wrdisk s1)) = (j, d)"
    by fastforce
  have d: "same_log dir adir (wrdisk s1) d \<and> (j \<longrightarrow> k \<and> writing crc nd (s1\<lparr>wrdisk := d,
      wsize := wsize s1 + (kFrameHeader + length b), wlsn := wlsn s1 + 1\<rparr>) (L @ [b]))"
  proof (cases k)
    case True
    then show ?thesis
      using f s1 Cons.prems write_frame_effect [of crc s1 b j d nd L dir adir] by simp
  next
    case False
    then show ?thesis using f s1 by (auto simp: same_log_def)
  qed
  have stop: "write_snapshot crc sb nd bs (False, x) = (False, x)" for x by (cases bs) auto
  show ?case
  proof (cases j)
    case False
    then have "ok = False" "wrdisk s' = d"
      using Cons.prems(1) o f stop by (auto simp: Let_def split: prod.splits)
    then show ?thesis using s1 d same_log_trans by blast
  next
    case True
    let ?s2 = "s1\<lparr>wrdisk := d, wsize := wsize s1 + (kFrameHeader + length b), wlsn := wlsn s1 + 1\<rparr>"
    have "write_snapshot crc sb nd bs (True, ?s2) = (ok, s')"
      using True Cons.prems(1) o f by (simp add: Let_def split: prod.splits)
    from Cons.IH [OF this, of "L @ [b]"] d True Cons.prems(3-5)
    have "same_log dir adir d (wrdisk s')" "ok \<longrightarrow> writing crc nd s' (L @ b # bs)" by auto
    then show ?thesis using s1 d same_log_trans by blast
  qed
qed

lemma write_generation_effect:
  assumes w: "write_generation crc sb nd snap d = (ok, lsn, d')" and wf: "wf_disk d" "no_segments d nd"
    and ap: "apart dir adir nd" and v: "\<forall>b \<in> set snap. valid_body b" "length snap < 2 ^ 64"
  shows "same_log dir adir d d' \<and> (ok \<longrightarrow> lsn = of_nat (length snap) \<and>
    (\<exists>pre bs. layout crc d' nd pre bs [] \<and> snap = concat pre @ bs))"
proof -
  let ?s0 = "\<lparr>out = None, wsize = 0, wlsn = 0, wrdisk = d\<rparr>"
  obtain k0 s0 where o: "open_segment nd 0 ?s0 = (k0, s0)" by fastforce
  have s0: "same_log dir adir d (wrdisk s0) \<and> (k0 \<longrightarrow> writing crc nd s0 [])"
    using open_segment_first [OF o _ _ _ _ ap] wf by simp
  obtain k s where ws: "write_snapshot crc sb nd snap (k0, s0) = (k, s)" by fastforce
  have s: "same_log dir adir (wrdisk s0) (wrdisk s) \<and> (k \<longrightarrow> writing crc nd s snap)"
  proof (cases k0)
    case True
    then show ?thesis using write_snapshot_effect [of crc sb nd snap s0 k s "[]"] ws s0 v ap by simp
  next
    case False
    then have "k = False" "s = s0" using ws by (cases snap; simp)+
    then show ?thesis using same_log_refl same_logD(1) s0 by blast
  qed
  obtain j d2 where y: "(if out s \<noteq> None then sync_data_fd (out s) (wrdisk s) else (True, wrdisk s)) = (j, d2)"
    by fastforce
  have t2: "same_tree (wrdisk s) d2" using y sync_data_fd_tree by (auto split: if_splits)
  have res: "ok = (k \<and> j)" "lsn = wlsn s" "d' = d2"
    using w o ws y by (auto simp: write_generation_def Let_def)
  have "same_log dir adir d d2"
    using s0 s same_log_trans same_log_tree [OF t2] same_logD(1) by blast
  then show ?thesis using res s layout_same [OF t2] by (auto simp: writing_def)
qed

lemma sync_directory_tree:
  "sync_directory p w = (r, w') \<Longrightarrow> \<exists>d. w' = w\<lparr>wdisk := d\<rparr> \<and> same_tree (wdisk w) d"
  by (auto simp: sync_directory_def dest: sys_fsync_dir_effect split: prod.splits)

text \<open>The first half of \<open>compact\<close>: the old log is untouched, and the new generation holds the snapshot.\<close>

definition prepared :: "(bytes \<Rightarrow> u32) \<Rightarrow> wal \<Rightarrow> disk \<Rightarrow> bytes list \<Rightarrow> u64 \<Rightarrow> bool" where
  "prepared crc w d snap g \<longleftrightarrow>
     apart (dir_of w) (active_dir w) (dir_of w @ [gen_name g]) \<and>
     \<not> log_path (dir_of w) (active_dir w) (dir_of w @ [''CURRENT.tmp'']) \<and>
     (\<exists>pre bs. layout crc d (dir_of w @ [gen_name g]) pre bs [] \<and> snap = concat pre @ bs)"

lemma prepared_same: "same_tree d d' \<Longrightarrow> prepared crc w d snap g \<Longrightarrow> prepared crc w d' snap g"
  using layout_same unfolding prepared_def by blast

lemma fresh_directory:
  assumes "wf_disk d" "\<not> path_exists d p" "file_at d' = file_at d" "set (dirs d') = insert p (set (dirs d))"
  shows "no_segments d' p"
proof -
  have "\<not> path_exists d' (p @ [n])" for n
    using assms by (auto simp: path_exists_def wf_disk_def is_dir_def)
  then show ?thesis using assms(4) by (simp add: no_segments_def is_dir_def)
qed

lemma compact_write_effect:
  assumes c: "compact_write crc snap w = (r, w')" and wf: "wf_disk (wdisk w)"
    and p: "pointer (wdisk w) (dir_of w) (generation w) (active_dir w)"
    and ad: "is_dir (wdisk w) (active_dir w)"
    and v: "\<forall>b \<in> set snap. valid_body b" "length snap < 2 ^ 64"
  shows "\<exists>d. w' = w\<lparr>wdisk := d\<rparr> \<and> same_log (dir_of w) (active_dir w) (wdisk w) d \<and>
    (\<forall>g lsn. r = Some (g, lsn) \<longrightarrow> lsn = of_nat (length snap) \<and> prepared crc w d snap g)"
proof -
  let ?dir = "dir_of w" and ?ad = "active_dir w"
  obtain og d1 where m: "make_generation ?dir (generation w + 1) (wdisk w) = (og, d1)" by fastforce
  from make_generation_effect [OF m] show ?thesis
  proof (elim disjE exE conjE)
    assume "og = None" "same_tree (wdisk w) d1"
    then show ?thesis
      using c m same_log_tree [OF _ wf] by (intro exI [of _ d1]) (auto simp: compact_write_def)
  next
    fix g assume g: "og = Some g" "\<not> path_exists (wdisk w) (?dir @ [gen_name g])" "is_dir (wdisk w) ?dir"
      "file_at d1 = file_at (wdisk w)" "set (dirs d1) = insert (?dir @ [gen_name g]) (set (dirs (wdisk w)))"
    let ?nd = "?dir @ [gen_name g]"
    note apg = apart_generation [OF p g(2) ad]
    have ap: "apart ?dir ?ad ?nd" using apg(2) by (simp add: apart_def)
    have l1: "same_log ?dir ?ad (wdisk w) d1"
      using g apg(1) by (intro same_log_mkdir [OF wf g(4,5)]) simp_all
    obtain k lsn d2 where wg: "write_generation crc (segment_bytes w) ?nd snap d1 = (k, lsn, d2)"
      using prod_cases3 by blast
    note w2 = write_generation_effect [OF wg same_logD(1) [OF l1] fresh_directory [OF wf g(2,4,5)] ap v]
    obtain k3 w3 where y3: "sync_directory ?nd (w\<lparr>wdisk := d2\<rparr>) = (k3, w3)" by fastforce
    then obtain d3 where d3: "w3 = w\<lparr>wdisk := d3\<rparr>" "same_tree d2 d3" using sync_directory_tree by fastforce
    obtain k4 w4 where y4: "sync_directory ?dir w3 = (k4, w4)" by fastforce
    then obtain d4 where d4: "w4 = w\<lparr>wdisk := d4\<rparr>" "same_tree d3 d4"
      using sync_directory_tree d3 by fastforce
    have res: "(r, w') = (if \<not> k then (None, w\<lparr>wdisk := d2\<rparr>) else if \<not> k3 then (None, w3)
        else (if k4 then Some (g, lsn) else None, w4))"
      using c m g(1) wg y3 y4 d3(1) by (cases k; cases k3) (auto simp: compact_write_def Let_def)
    have s2: "same_log ?dir ?ad (wdisk w) d2" using same_log_trans [OF l1] w2 by blast
    note s3 = same_log_then_tree [OF s2 d3(2)]
    note s4 = same_log_then_tree [OF s3 d4(2)]
    have "k \<Longrightarrow> prepared crc w d2 snap g" using w2 ap apg(3) by (auto simp: prepared_def)
    then have pr: "k \<Longrightarrow> prepared crc w d4 snap g" using prepared_same d3(2) d4(2) by blast
    have lsn: "k \<Longrightarrow> lsn = of_nat (length snap)" using w2 by simp
    consider "\<not> k" | "k" "\<not> k3" | "k" "k3" by blast
    then show ?thesis
    proof cases
      case 1
      then show ?thesis using res s2 by (intro exI [of _ d2]) simp
    next
      case 2
      then show ?thesis using res s3 d3(1) by (intro exI [of _ d3]) simp
    next
      case 3
      then show ?thesis using res s4 d4(1) pr lsn by (intro exI [of _ d4]) (simp split: if_splits)
    qed
  qed
qed


section \<open>Switching over\<close>

lemma pointer_written:
  assumes "is_dir d dir" "file_at d (dir @ [''CURRENT'']) = Some (map byte_of_char (to_string (unat g) @ [CHR 0x0A]))"
  shows "pointer d dir g (dir @ [gen_name g])"
proof -
  have "map char_of_byte (map byte_of_char s) = s" for s by (induction s) auto
  then show ?thesis using assms parse_to_string [of g] by (simp add: pointer_def del: map_append)
qed

text \<open>
  Until the rename the disk holds the old log; the rename makes \<open>CURRENT\<close> name the new generation.
\<close>

lemma compact_point_effect:
  assumes c: "compact_point g w = (ok, w')" and wf: "wf_disk (wdisk w)" and dir: "is_dir (wdisk w) (dir_of w)"
    and pr: "prepared crc w (wdisk w) snap g"
  shows "\<exists>d. w' = w\<lparr>wdisk := d\<rparr> \<and> wf_disk d \<and>
    (if ok then pointer d (dir_of w) g (dir_of w @ [gen_name g]) \<and>
        (\<exists>pre bs. layout crc d (dir_of w @ [gen_name g]) pre bs [] \<and> snap = concat pre @ bs)
     else same_log (dir_of w) (active_dir w) (wdisk w) d)"
proof -
  let ?dir = "dir_of w" and ?tmp = "dir_of w @ [''CURRENT.tmp'']" and ?cur = "dir_of w @ [''CURRENT'']"
  let ?v = "map byte_of_char (to_string (unat g) @ [CHR 0x0A])" and ?nd = "dir_of w @ [gen_name g]"
  have nl: "\<not> log_path ?dir (active_dir w) ?tmp" using pr by (simp add: prepared_def)
  have nn: "\<not> log_path ?dir ?nd ?tmp" by (auto simp: log_path_def)
  obtain r d1 where o: "sys_open True False True ?tmp (wdisk w) = (r, d1)" by fastforce
  from o show ?thesis
  proof (cases rule: sys_open_effect)
    case fail
    then show ?thesis using c o same_log_tree [OF _ wf] same_tree_wf [OF _ wf]
      by (intro exI [of _ d1]) (auto simp: compact_point_def)
  next
    case opened
    have f1: "file_at d1 = (file_at (wdisk w))(?tmp \<mapsto> [])" using opened(4) by simp
    have s1: "same_log ?dir a (wdisk w) d1" if "\<not> log_path ?dir a ?tmp" for a
      using opened(2,6) that by (intro same_log_upd [OF wf f1 opened(3)]) auto
    obtain k d2 where wl: "write_loop False ?tmp ?v d1 = (k, d2)" by fastforce
    obtain n where n: "file_at d2 = (file_at d1)(?tmp \<mapsto> [] @ take n ?v)" "set (dirs d2) = set (dirs d1)"
        "k \<longleftrightarrow> n = length ?v"
      using write_loop_effect [OF wl] f1 by fastforce
    have s2: "same_log ?dir a d1 d2" if "\<not> log_path ?dir a ?tmp" for a
      using that f1 same_logD(1) [OF s1 [OF that]] by (intro same_log_upd [OF _ n(1,2)]) auto
    obtain j d3 where y: "sync_data_fd r d2 = (j, d3)" by fastforce
    note t3 = sync_data_fd_tree [OF y]
    have s3: "same_log ?dir a (wdisk w) d3" if "\<not> log_path ?dir a ?tmp" for a
      by (rule same_log_then_tree [OF same_log_trans [OF s1 [OF that] s2 [OF that]] t3])
    obtain q d4 where rn: "sys_rename ?tmp ?cur d3 = (q, d4)" by fastforce
    have res: "(ok, w') = (if \<not> k then (False, w\<lparr>wdisk := d2\<rparr>) else if \<not> j then (False, w\<lparr>wdisk := d3\<rparr>)
        else (q, w\<lparr>wdisk := d4\<rparr>))"
      using c o opened(1) wl y rn by (auto simp: compact_point_def Let_def)
    have s12: "same_log ?dir (active_dir w) (wdisk w) d2" using same_log_trans [OF s1 s2] nl by blast
    show ?thesis
    proof (cases "k \<and> j \<and> q")
      case False
      have "k \<Longrightarrow> j \<Longrightarrow> same_log ?dir (active_dir w) (wdisk w) d4"
        using False sys_rename_effect [OF rn] same_log_then_tree [OF s3 [OF nl], of d4] by blast
      then have sl: "same_log ?dir (active_dir w) (wdisk w) (if \<not> k then d2 else if \<not> j then d3 else d4)"
        using s12 s3 [OF nl] by simp
      have "\<not> ok" "w' = w\<lparr>wdisk := if \<not> k then d2 else if \<not> j then d3 else d4\<rparr>"
        using False res by (auto split: if_splits)
      with sl same_logD(1) [OF sl] show ?thesis by (simp only: if_False) blast
    next
      case True
      from sys_rename_effect [OF rn] True
      have f4: "file_at d4 = ((file_at d3)(?tmp := None))(?cur := file_at d3 ?tmp)"
          "set (dirs d4) = set (dirs d3)" "\<not> is_dir d3 ?cur" by auto
      have v: "file_at d3 ?tmp = Some ?v" using t3 n True by (simp add: same_tree_def)
      have wf3: "wf_disk d3" using same_logD(1) [OF s3 [OF nl]] .
      have dir3: "is_dir d3 ?dir" using dir same_logD(3) [OF s3 [OF nl], of ?dir] by simp
      have wf4: "wf_disk d4"
        using wf3 f4 v dir3 by (auto simp: wf_disk_def is_dir_cong [OF f4(2)])
      have p: "pointer d4 ?dir g ?nd"
        using f4 v dir3 by (intro pointer_written) (auto simp: is_dir_cong [OF f4(2)])
      obtain pre bs where l: "layout crc (wdisk w) ?nd pre bs []" "snap = concat pre @ bs"
        using pr by (auto simp: prepared_def)
      have l3: "layout crc d3 ?nd pre bs []" by (rule same_log_layout [OF s3 [OF nn] l(1)])
      have "same_log ?nd ?nd d3 d4"
        using wf4 f4(1) by (auto simp: same_log_def log_path_def is_dir_cong [OF f4(2)])
      from same_log_layout [OF this l3] have "layout crc d4 ?nd pre bs []" .
      with p wf4 l(2) res True show ?thesis by auto
    qed
  qed
qed

lemma sys_fstat_effect:
  "sys_fstat p d = (r, d') \<Longrightarrow> same_tree d d' \<and> (r = None \<or> r = map_option length (file_at d p))"
  by (auto simp: sys_fstat_def dest: sys_read_all_effect split: prod.splits)

lemma compact_switch_effect:
  assumes c: "compact_switch g lsn w = (ok, w')" and wf: "wf_disk (wdisk w)"
    and p: "pointer (wdisk w) (dir_of w) g (dir_of w @ [gen_name g])"
    and l: "layout crc (wdisk w) (dir_of w @ [gen_name g]) pre bs []" "snap = concat pre @ bs"
    and lsn: "lsn = of_nat (length snap)"
  shows "dir_of w' = dir_of w \<and>
    (if ok then live crc w' snap else failed w' \<and> on_disk crc (wdisk w') (dir_of w') snap)"
proof -
  let ?dir = "dir_of w" and ?nd = "dir_of w @ [gen_name g]" and ?p = "seg_path (dir_of w @ [gen_name g]) (length (concat pre))"
  have od: "on_disk crc d ?dir snap" if "same_tree (wdisk w) d" for d
    using on_disk_same [OF that on_diskI [OF wf p l(1)]] l(2) by simp
  obtain k1 w1 where y: "sync_directory ?dir (w\<lparr>failed := True\<rparr>) = (k1, w1)" by fastforce
  from sync_directory_tree [OF y] obtain d1 where d1: "w1 = w\<lparr>failed := True, wdisk := d1\<rparr>" "same_tree (wdisk w) d1"
    by auto
  obtain r d2 where ls: "sys_list_dir ?nd d1 = (r, d2)" by fastforce
  from sys_list_dir_effect [OF ls] have t12: "same_tree d1 d2"
      and r: "r = None \<or> r = Some (entries d1 ?nd)" by auto
  note t2 = same_tree_trans [OF d1(2) t12]
  let ?w2 = "w\<lparr>failed := True, fd := None, active_dir := ?nd, generation := g, wdisk := d2\<rparr>"
  have l1: "layout crc d1 ?nd pre bs []" using l(1) layout_same [OF d1(2)] by simp
  have li: "sort (filter is_segment (entries d1 ?nd)) = seg_names 0 (pre @ [bs])" by (rule layout_listing [OF l1])
  obtain k3 w3 where a: "open_active ?p False ?w2 = (k3, w3)" by fastforce
  have f2: "file_at d2 ?p = Some (frames crc bs)"
    using l1 t12 by (simp add: layout_def same_tree_def)
  from open_active_existing [OF a, of "frames crc bs"] f2 obtain d3 where
    d3: "same_tree d2 d3" "w3 = ?w2\<lparr>fd := if k3 then Some ?p else None, wdisk := d3\<rparr>" by auto
  obtain st d4 where fs: "sys_fstat ?p d3 = (st, d4)" by fastforce
  have st: "same_tree d3 d4" "st = None \<or> st = Some (length (frames crc bs))"
    using sys_fstat_effect [OF fs] f2 d3(1) by (auto simp: same_tree_def)
  note t3 = same_tree_trans [OF t2 d3(1)]
  note t4 = same_tree_trans [OF t3 st(1)]
  let ?w4 = "w\<lparr>failed := False, fd := Some ?p, active_dir := ?nd, generation := g, wdisk := d4,
      active_size := length (frames crc bs), next_lsn := lsn\<rparr>"
  have sel: "?nd @ [if seg_names 0 (pre @ [bs]) = [] then segment_name 0 else last (seg_names 0 (pre @ [bs]))] = ?p"
    by (simp add: seg_path_def)
  have ev: "compact_switch g lsn w = (if \<not> k1 then (False, w1) else if r = None then (False, ?w2)
      else if \<not> k3 then (False, w3) else if st = None then (False, w3\<lparr>wdisk := d4\<rparr>) else (True, ?w4))"
  proof (cases "k1 \<and> r \<noteq> None")
    case True
    then have r': "r = Some (entries d1 ?nd)" using r by auto
    show ?thesis
      using y True d1(1) ls a d3(2) fs r' li sel st(2)
      by (cases k3; cases st) (simp_all add: compact_switch_def Let_def, (cases w, simp)?)
  next
    case False
    then show ?thesis using y d1(1) ls by (cases k1) (simp_all add: compact_switch_def Let_def)
  qed
  have lv: "live crc ?w4 snap"
    using same_tree_wf [OF t4 wf] p l pointer_same [OF t4] layout_same [OF t4] lsn
    by (intro liveI [where pre = pre and bs = bs]) simp_all
  show ?thesis
    using c [unfolded ev, symmetric] lv od [OF d1(2)] od [OF t2] od [OF t3] od [OF t4] d1(1) d3(2)
    by (simp split: if_splits)
qed

lemma compact_switch_active:
  "compact_switch g lsn w = (ok, w') \<Longrightarrow> ok \<Longrightarrow> active_dir w' = dir_of w @ [gen_name g]"
  by (auto simp: compact_switch_def open_active_def sync_directory_def Let_def
      split: prod.splits if_splits option.splits)


section \<open>Removing the old generation\<close>

lemma live_same_log:
  assumes "live crc w L" "same_log (dir_of w) (active_dir w) (wdisk w) d"
  shows "live crc (w\<lparr>wdisk := d\<rparr>) L"
proof (rule liveE [OF assms(1)])
  fix pre bs
  assume "\<not> failed w" "pointer (wdisk w) (dir_of w) (generation w) (active_dir w)"
    "next_lsn w = of_nat (length L)" "layout crc (wdisk w) (active_dir w) pre bs []" "L = concat pre @ bs"
    "fd w = Some (seg_path (active_dir w) (length (concat pre)))" "active_size w = length (frames crc bs)"
  with same_logD(1) [OF assms(2)] same_log_pointer [OF assms(2)] same_log_layout [OF assms(2)]
  show ?thesis by (intro liveI [where pre = pre and bs = bs]) simp_all
qed

text \<open>Nothing the loop removes is a path of the new log.\<close>

lemma remove_old_effect:
  assumes "remove_old dir (dir @ [gen_name g]) ns d = (ok, d')" "wf_disk d"
  shows "same_log dir (dir @ [gen_name g]) d d'"
  using assms
proof (induction ns arbitrary: d)
  case Nil
  then show ?case by (auto intro: same_log_refl)
next
  case (Cons n ns)
  let ?ad = "dir @ [gen_name g]"
  show ?case
  proof (cases "has_prefix ''wal-gen-'' n \<and> dir @ [n] \<noteq> ?ad")
    case True
    obtain k d1 where r: "sys_remove_all (dir @ [n]) d = (k, d1)" by fastforce
    have "\<not> under (dir @ [n]) q" if "log_path dir ?ad q" for q
      using that True by (auto simp: log_path_def under_def)
    then have s: "same_log dir ?ad d d1"
      using sys_remove_all_effect [OF r] Cons.prems(2) by (simp add: same_log_def)
    show ?thesis
    proof (cases k)
      case False
      then show ?thesis using Cons.prems(1) True r s by simp
    next
      case k: True
      then have "remove_old dir ?ad ns d1 = (ok, d')" using Cons.prems(1) True r by simp
      from same_log_trans [OF s Cons.IH [OF this same_logD(1) [OF s]]] show ?thesis .
    qed
  next
    case nr: False
    show ?thesis
    proof (cases "is_segment n")
      case False
      then show ?thesis using Cons nr by auto
    next
      case True
      obtain e d1 where u: "sys_unlink (dir @ [n]) d = (e, d1)" by fastforce
      have nl: "\<not> log_path dir ?ad (dir @ [n])"
        using True by (auto simp: log_path_def)
      have s: "same_log dir ?ad d d1"
        using sys_unlink_effect [OF u]
      proof (elim disjE conjE)
        assume "same_tree d d1"
        then show ?thesis by (rule same_log_tree [OF _ Cons.prems(2)])
      next
        assume a: "file_at d1 = (file_at d)(dir @ [n] := None)" "set (dirs d1) = set (dirs d)"
        then have "wf_disk d1" using Cons.prems(2) by (auto simp: wf_disk_def is_dir_cong [OF a(2)])
        then show ?thesis using a nl by (auto simp: same_log_def is_dir_cong [OF a(2)])
      qed
      show ?thesis
      proof (cases "e \<noteq> None \<and> e \<noteq> Some ENOENT")
        case bad: True
        then have "d' = d1" using Cons.prems(1) True nr u by (auto split: if_splits)
        then show ?thesis using s by simp
      next
        case False
        then have "remove_old dir ?ad ns d1 = (ok, d')" using Cons.prems(1) True nr u by (auto split: if_splits)
        from same_log_trans [OF s Cons.IH [OF this same_logD(1) [OF s]]] show ?thesis .
      qed
    qed
  qed
qed

lemma compact_clean_effect:
  assumes c: "compact_clean w = (ok, w')" and l: "live crc w L" and a: "active_dir w = dir_of w @ [gen_name g]"
  shows "live crc w' L \<and> dir_of w' = dir_of w"
proof -
  obtain r d1 where ls: "sys_list_dir (dir_of w) (wdisk w) = (r, d1)" by fastforce
  have t1: "same_tree (wdisk w) d1" using sys_list_dir_effect [OF ls] by simp
  have l1: "live crc (w\<lparr>wdisk := d1\<rparr>) L" by (rule live_same [OF l t1])
  show ?thesis
  proof (cases r)
    case None
    then show ?thesis using c ls l1 by (auto simp: compact_clean_def)
  next
    case (Some ns)
    obtain k d2 where r: "remove_old (dir_of w) (active_dir w) ns d1 = (k, d2)" by fastforce
    have "wf_disk d1" using l1 by (simp add: live_def)
    with r a have s: "same_log (dir_of w) (active_dir w) d1 d2" using remove_old_effect by simp
    have l2: "live crc (w\<lparr>wdisk := d2\<rparr>) L" using live_same_log [OF l1] s by simp
    obtain k3 w3 where y: "sync_directory (dir_of w) (w\<lparr>wdisk := d2\<rparr>) = (k3, w3)" by fastforce
    from sync_directory_tree [OF y] obtain d3 where d3: "w3 = w\<lparr>wdisk := d3\<rparr>" "same_tree d2 d3" by auto
    have l3: "live crc w3 L" using live_same [OF l2, of d3] d3 by simp
    show ?thesis using c ls Some r y l2 l3 d3(1) by (cases k) (auto simp: compact_clean_def)
  qed
qed


section \<open>Compaction is atomic\<close>

lemma wal_compact_effect:
  assumes l: "live crc w L" and n: "length snap < 2 ^ 64" and c: "wal_compact crc hook snap w = (ok, w')"
  shows "dir_of w' = dir_of w \<and> (if ok then live crc w' snap else holds crc w' L \<or> holds crc w' snap)"
proof (cases "\<forall>b \<in> set snap. valid_body b")
  case False
  then have "\<exists>b \<in> set snap. b = [] \<or> length b > kMaxBody" by (force simp: valid_body_def)
  then have "w' = w" "\<not> ok" using c by (simp_all add: wal_compact_def)
  then show ?thesis using l by (simp add: holds_def)
next
  case v: True
  then have g: "\<not> (fd w = None \<or> failed w \<or> (\<exists>b \<in> set snap. b = [] \<or> length b > kMaxBody))"
    using l by (auto simp: live_def valid_body_def)
  obtain k1 w1 where s: "wal_sync w = (k1, w1)" by fastforce
  note w1 = wal_sync_effect [OF l s]
  obtain r w2 where cw: "compact_write crc snap w1 = (r, w2)" by fastforce
  have ev: "wal_compact crc hook snap w = (if \<not> k1 then (False, w1) else
      case r of None \<Rightarrow> (False, w2) | Some (g, lsn) \<Rightarrow>
        if \<not> hook SnapshotDurable then (False, w2)
        else (case compact_point g w2 of (ok, w3) \<Rightarrow> if \<not> ok then (False, w3)
          else (case compact_switch g lsn w3 of (ok, w4) \<Rightarrow> if \<not> ok then (False, w4)
            else if \<not> hook Installed then (False, w4\<lparr>failed := True\<rparr>)
            else if \<not> hook BeforeOldLogDeletion then (False, w4\<lparr>failed := True\<rparr>)
            else compact_clean w4)))"
    unfolding wal_compact_def if_not_P [OF g] Let_def by (simp add: s cw)
  note res = c [unfolded ev, symmetric]
  show ?thesis
  proof (cases k1)
    case False
    then show ?thesis using res w1 by (simp add: holds_def)
  next
    case k1: True
    have l1: "live crc w1 L" using w1(1) k1 by simp
    then have p1: "wf_disk (wdisk w1)" "pointer (wdisk w1) (dir_of w1) (generation w1) (active_dir w1)"
        "is_dir (wdisk w1) (active_dir w1)" by (auto simp: live_def layout_def)
    from compact_write_effect [OF cw p1 v n] obtain d2 where d2: "w2 = w1\<lparr>wdisk := d2\<rparr>"
      "same_log (dir_of w1) (active_dir w1) (wdisk w1) d2"
      "\<And>g lsn. r = Some (g, lsn) \<Longrightarrow> lsn = of_nat (length snap) \<and> prepared crc w1 d2 snap g" by blast
    have l2: "live crc w2 L" using live_same_log [OF l1 d2(2)] d2(1) by simp
    show ?thesis
    proof (cases "r = None \<or> \<not> hook SnapshotDurable")
      case True
      then show ?thesis using res k1 l2 d2(1) w1(3) by (auto simp: holds_def split: option.splits prod.splits)
    next
      case False
      then obtain g lsn where r: "r = Some (g, lsn)" "hook SnapshotDurable" by auto
      note pr = d2(3) [OF r(1)]
      obtain k3 w3 where cp: "compact_point g w2 = (k3, w3)" by fastforce
      have "wf_disk (wdisk w2)" "is_dir (wdisk w2) (dir_of w2)" "prepared crc w2 (wdisk w2) snap g"
        using l2 pr d2(1) by (auto simp: live_def pointer_def prepared_def)
      from compact_point_effect [OF cp this] obtain d3 where d3: "w3 = w2\<lparr>wdisk := d3\<rparr>" "wf_disk d3"
        "if k3 then pointer d3 (dir_of w2) g (dir_of w2 @ [gen_name g]) \<and>
            (\<exists>pre bs. layout crc d3 (dir_of w2 @ [gen_name g]) pre bs [] \<and> snap = concat pre @ bs)
         else same_log (dir_of w2) (active_dir w2) (wdisk w2) d3" by blast
      show ?thesis
      proof (cases k3)
        case False
        then have "live crc w3 L" using live_same_log [OF l2] d3 by simp
        then show ?thesis using res k1 r cp False d2(1) d3(1) w1(3) by (simp add: holds_def)
      next
        case k3: True
        then obtain pre bs where q: "pointer d3 (dir_of w2) g (dir_of w2 @ [gen_name g])"
          "layout crc d3 (dir_of w2 @ [gen_name g]) pre bs []" "snap = concat pre @ bs" using d3(3) by auto
        obtain k4 w4 where cs: "compact_switch g lsn w3 = (k4, w4)" by fastforce
        have w4: "dir_of w4 = dir_of w3 \<and>
            (if k4 then live crc w4 snap else failed w4 \<and> on_disk crc (wdisk w4) (dir_of w4) snap)"
          by (rule compact_switch_effect [OF cs _ _ _ q(3)]) (use d3(1,2) q(1,2) pr in simp_all)
        have ad4: "active_dir w4 = dir_of w4 @ [gen_name g]" if k4
          using compact_switch_active [OF cs] that w4 by simp
        obtain k5 w5 where cc: "compact_clean w4 = (k5, w5)" by fastforce
        have w5: "live crc w5 snap \<and> dir_of w5 = dir_of w4" if k4
          by (rule compact_clean_effect [OF cc _ ad4 [OF that]]) (use w4 that in simp)
        have dir: "dir_of w4 = dir_of w" using w4 d3(1) d2(1) w1(3) by simp
        have od4: "on_disk crc (wdisk w4) (dir_of w4) snap" using w4 live_on_disk [of crc w4 snap] by (auto split: if_splits)
        have "(ok, w') = (if \<not> k4 then (False, w4)
            else if hook Installed \<and> hook BeforeOldLogDeletion then (k5, w5) else (False, w4\<lparr>failed := True\<rparr>))"
          using res k1 r cp k3 cs cc by simp
        then show ?thesis
          using w4 w5 dir od4 by (cases k4; cases k5) (auto simp: holds_def split: if_splits)
      qed
    qed
  qed
qed

end
