(* ===== verification/Wal_History.thy ===== *)
theory Wal_History
  imports Wal_Compact "HOL-Library.Sublist"
begin

text \<open>
  Whole lives of a log: a process opens the log, appends to it, crashes and is restarted, with any
  script of failing calls in each life. What was acknowledged stays, in order, and nothing is there
  that was never appended.
\<close>

section \<open>Histories\<close>

datatype proc = Down disk | Up wal

text \<open>
  \<open>history crc dir s acked tried\<close>: the process is in state \<open>s\<close> after the appends \<open>tried\<close>, of which \<open>acked\<close>
  reported success. A crash leaves the disk as it is and starts a new script.
\<close>

inductive history :: "(bytes \<Rightarrow> u32) \<Rightarrow> path \<Rightarrow> proc \<Rightarrow> bytes list \<Rightarrow> bytes list \<Rightarrow> bool"
  for crc :: "bytes \<Rightarrow> u32" and dir :: path where
  first: "on_disk crc d dir [] \<Longrightarrow> history crc dir (Down d) [] []"
| start: "history crc dir (Down d) a t \<Longrightarrow> current_readable d dir \<Longrightarrow>
    wal_open crc dir (wal_new sb d) = Some (ok, bods, w) \<Longrightarrow>
    history crc dir (if ok then Up w else Down (wdisk w)) a t"
| ack: "history crc dir (Up w) a t \<Longrightarrow> length t + 1 < 2 ^ 64 \<Longrightarrow>
    wal_append crc b sync w = (True, w') \<Longrightarrow> history crc dir (Up w') (a @ [b]) (t @ [b])"
| refuse: "history crc dir (Up w) a t \<Longrightarrow> length t + 1 < 2 ^ 64 \<Longrightarrow>
    wal_append crc b sync w = (False, w') \<Longrightarrow> history crc dir (Up w') a (t @ [b])"
| crash: "history crc dir (Up w) a t \<Longrightarrow> history crc dir (Down ((wdisk w)\<lparr>script := s\<rparr>)) a t"

fun proc_holds :: "(bytes \<Rightarrow> u32) \<Rightarrow> path \<Rightarrow> proc \<Rightarrow> bytes list \<Rightarrow> bool" where
  "proc_holds crc dir (Down d) L \<longleftrightarrow> on_disk crc d dir L"
| "proc_holds crc dir (Up w) L \<longleftrightarrow> dir_of w = dir \<and> holds crc w L"

lemma same_tree_script [simp]: "same_tree d (d\<lparr>script := s\<rparr>)"
  by (simp add: same_tree_def)

lemma wal_new_simps [simp]: "wdisk (wal_new sb d) = d" "fd (wal_new sb d) = None"
  by (simp_all add: wal_new_def)

lemma append_failed: "failed w \<Longrightarrow> wal_append crc b sync w = (False, w)"
  by (simp add: wal_append_def)

lemma subseq_snoc: "subseq xs ys \<Longrightarrow> subseq (xs @ [x]) (ys @ [x])" "subseq xs ys \<Longrightarrow> subseq xs (ys @ [x])"
  by (simp_all add: subseq_append_iff) (metis append_Nil2 list_emb_append2 subseq_order.refl)+

lemma append_holds:
  assumes h: "holds crc w L" and n: "length L + 1 < 2 ^ 64" and ap: "wal_append crc b sync w = (ok, w')"
  shows "dir_of w' = dir_of w" "ok \<Longrightarrow> holds crc w' (L @ [b])"
    "\<not> ok \<Longrightarrow> holds crc w' L \<or> holds crc w' (L @ [b])"
proof (atomize (full), goal_cases)
  case 1
  show ?case
  proof (cases "failed w")
    case True
    then show ?thesis using ap h append_failed [of w crc b sync] by simp
  next
    case False
    then have l: "live crc w L" using h by (simp add: holds_def)
    from wal_append_effect [OF l n ap] l show ?thesis by (auto simp: holds_def split: if_splits)
  qed
qed

lemma history_invariant:
  "history crc dir s a t \<Longrightarrow> \<exists>L. proc_holds crc dir s L \<and> subseq a L \<and> subseq L t"
proof (induction rule: history.induct)
  case (first d)
  then show ?case by (intro exI [of _ "[]"]) simp
next
  case (start d a t sb ok bods w)
  then obtain L where L: "on_disk crc d dir L" "subseq a L" "subseq L t" by auto
  from wal_open_effect [of crc "wal_new sb d" dir L ok bods w] start.hyps L(1)
  have "proc_holds crc dir (if ok then Up w else Down (wdisk w)) L"
    by (auto simp: holds_def)
  with L show ?case by blast
next
  case (ack w a t b sync w')
  then obtain L where L: "dir_of w = dir" "holds crc w L" "subseq a L" "subseq L t" by auto
  have "length L + 1 < 2 ^ 64" using list_emb_length [OF L(4)] ack.hyps(2) by linarith
  from append_holds(1,2) [OF L(2) this ack.hyps(3)] L show ?case
    by (intro exI [of _ "L @ [b]"]) (simp add: subseq_snoc(1))
next
  case (refuse w a t b sync w')
  then obtain L where L: "dir_of w = dir" "holds crc w L" "subseq a L" "subseq L t" by auto
  have "length L + 1 < 2 ^ 64" using list_emb_length [OF L(4)] refuse.hyps(2) by linarith
  from append_holds(1,3) [OF L(2) this refuse.hyps(3)] L show ?case
    using subseq_snoc [of a L b] subseq_snoc [of L t b] by auto
next
  case (crash w a t s)
  then obtain L where "dir_of w = dir" "holds crc w L" "subseq a L" "subseq L t" by auto
  then show ?case
    using on_disk_same [OF same_tree_script [of "wdisk w" s]] holds_on_disk [of crc w L] by auto
qed


section \<open>No read outside a buffer\<close>

lemma open_segments_defined: "open_segments crc ss acc w \<noteq> None"
proof (induction ss arbitrary: acc w)
  case (Cons s ss)
  obtain r d where r: "sys_read_all (active_dir w @ [s]) (wdisk w) = (r, d)" by fastforce
  show ?case
  proof (cases r)
    case (Some data)
    obtain n bs where "scan_frames crc data 0 = Some (n, bs)"
      using scan_frames_defined [of crc data 0] by auto
    then show ?thesis
      using r Some Cons.IH by (auto simp: open_segments.simps Let_def split: prod.splits)
  qed (use r in \<open>simp add: open_segments.simps\<close>)
qed simp

lemma open_replay_defined: "open_replay crc w \<noteq> None"
proof -
  obtain r d where r: "sys_list_dir (active_dir w) (wdisk w) = (r, d)" by fastforce
  obtain x where "open_segments crc (sort (filter is_segment ns)) [] (w\<lparr>wdisk := d, next_lsn := 0\<rparr>) = Some x"
    if "r = Some ns" for ns
    using open_segments_defined [of crc "sort (filter is_segment (the r))" "[]" "w\<lparr>wdisk := d, next_lsn := 0\<rparr>"]
    by (metis option.exhaust option.sel)
  with r show ?thesis
    by (cases r) (auto simp: open_replay_def split: prod.splits)
qed

lemma wal_open_defined: "wal_open crc dir w \<noteq> None"
  using open_replay_defined
  by (auto simp: wal_open_def Let_def split: prod.splits option.splits)


text \<open>A life without faults so far stays without faults.\<close>

lemma sys_script_empty:
  assumes "script d = []"
  shows "script (snd (sys_mkdir p d)) = []" "script (snd (sys_open c e t p d)) = []"
    "script (snd (sys_read_all p d)) = []" "script (snd (sys_list_dir p d)) = []"
    "script (snd (sys_truncate p n d)) = []" "script (snd (sys_fsync_dir p d)) = []"
    "script (snd (read_current p d)) = []"
  using assms
  by (auto simp: sys_mkdir_def sys_open_def sys_read_all_def sys_list_dir_def sys_truncate_def
      sys_fsync_dir_def read_current_def next_outcome_empty split: option.split)

lemma open_active_script: "script (wdisk w) = [] \<Longrightarrow> script (wdisk (snd (open_active p c w))) = []"
  using sys_script_empty(2) [of "wdisk w" c False False p]
  by (auto simp: open_active_def split: prod.splits)

lemma sync_directory_script: "script (wdisk w) = [] \<Longrightarrow> script (wdisk (snd (sync_directory p w))) = []"
  using sys_script_empty(6) [of "wdisk w" p] by (auto simp: sync_directory_def split: prod.splits)

lemma open_segments_script:
  "open_segments crc ss acc w = Some (ok, bods, w') \<Longrightarrow> script (wdisk w) = [] \<Longrightarrow> script (wdisk w') = []"
proof (induction ss arbitrary: acc w)
  case (Cons s ss)
  let ?p = "active_dir w @ [s]"
  have r: "sys_read_all ?p (wdisk w) = (file_at (wdisk w) ?p, wdisk w)"
    by (rule sys_read_all_no_fault [OF Cons.prems(2)])
  show ?case
  proof (cases "file_at (wdisk w) ?p")
    case (Some data)
    obtain n bs where sc: "scan_frames crc data 0 = Some (n, bs)"
      using scan_frames_defined [of crc data 0] by auto
    obtain k d2 where tr: "(if n \<noteq> length data then sys_truncate ?p n (wdisk w) else (True, wdisk w)) = (k, d2)"
      by fastforce
    have d2: "script d2 = []"
      using tr sys_script_empty(5) [OF Cons.prems(2), of ?p n] Cons.prems(2)
      by (cases "n = length data") (simp_all add: prod_eq_iff)
    let ?w = "w\<lparr>next_lsn := next_lsn w + of_nat (length bs), wdisk := d2\<rparr>"
    obtain j w3 where o: "open_active ?p False ?w = (j, w3)" by fastforce
    have w3: "script (wdisk w3) = []" using open_active_script [of ?w ?p False] d2 o by simp
    have "(ok, bods, w') = (False, acc @ bs, w\<lparr>next_lsn := next_lsn w + of_nat (length bs)\<rparr>) \<or>
        (ok, bods, w') = (False, acc @ bs, ?w) \<or> (ok, bods, w') = (False, acc @ bs, w3) \<or>
        open_segments crc ss (acc @ bs) (w3\<lparr>active_size := n\<rparr>) = Some (ok, bods, w') \<or>
        open_segments crc ss (acc @ bs) ?w = Some (ok, bods, w')"
      using Cons.prems(1) r Some sc tr o
      by (auto simp: open_segments.simps Let_def split: if_splits)
    then show ?thesis
      using Cons.IH [of "acc @ bs" "w3\<lparr>active_size := n\<rparr>"] Cons.IH [of "acc @ bs" ?w] d2 w3 Cons.prems(2)
      by auto
  qed (use Cons.prems r in \<open>auto simp: open_segments.simps\<close>)
qed auto

lemma open_first_script: "script (wdisk w) = [] \<Longrightarrow> script (wdisk (snd (open_first w))) = []"
proof -
  assume s: "script (wdisk w) = []"
  obtain e d where e: "(if active_dir w \<noteq> dir_of w then sys_mkdir (active_dir w) (wdisk w) else (None, wdisk w)) = (e, d)"
    by fastforce
  have d: "script d = []"
    using e s sys_script_empty(1) [OF s, of "active_dir w"] by (cases "active_dir w = dir_of w") (simp_all add: prod_eq_iff)
  obtain k w2 where o: "open_active (active_dir w @ [segment_name 0]) True (w\<lparr>wdisk := d\<rparr>) = (k, w2)" by fastforce
  have w2: "script (wdisk w2) = []"
    using open_active_script [of "w\<lparr>wdisk := d\<rparr>" "active_dir w @ [segment_name 0]" True] d o by simp
  show ?thesis
    using e d o w2 sync_directory_script [of "w2\<lparr>active_size := 0\<rparr>" "active_dir w2"]
    by (auto simp: open_first_def Let_def split: prod.splits)
qed

lemma open_replay_script:
  assumes o: "open_replay crc w = Some (ok, bods, w')" and s: "script (wdisk w) = []"
  shows "script (wdisk w') = []"
proof -
  obtain r where ls: "sys_list_dir (active_dir w) (wdisk w) = (r, wdisk w)"
    using s by (simp add: sys_list_dir_def next_outcome_empty)
  show ?thesis
  proof (cases r)
    case None
    then show ?thesis using o ls s by (auto simp: open_replay_def)
  next
    case (Some ns)
    obtain k cs w1 where os: "open_segments crc (sort (filter is_segment ns)) [] (w\<lparr>next_lsn := 0\<rparr>) = Some (k, cs, w1)"
      using open_segments_defined by (metis option.exhaust prod_cases3)
    have w1: "script (wdisk w1) = []" using open_segments_script [OF os] s by simp
    have "w' = w1 \<or> w' = snd (open_first w1)"
      using o ls Some os by (auto simp: open_replay_def split: if_splits prod.splits)
    then show ?thesis using w1 open_first_script [of w1] by auto
  qed
qed

lemma wal_open_script:
  assumes "wal_open crc dir w = Some (ok, bods, w')" "script (wdisk w) = []"
  shows "script (wdisk w') = []"
proof -
  obtain e d1 where m: "sys_mkdir dir (wdisk w) = (e, d1)" by fastforce
  obtain c d2 where c: "read_current (dir @ [''CURRENT'']) d1 = (c, d2)" by fastforce
  have "script d1 = []" "script d2 = []"
    using m c sys_script_empty(1) [OF assms(2), of dir] sys_script_empty(7) [of d1 "dir @ [''CURRENT'']"] by simp_all
  then show ?thesis
    using assms(1) m c
    by (auto simp: wal_open_def Let_def split: if_splits option.splits dest!: open_replay_script)
qed


section \<open>Appending without faults\<close>

lemma write_loop_no_fault:
  assumes "script d = []" "file_at d p = Some c" "data \<noteq> []"
  shows "write_loop zr p data d = (True, d\<lparr>files := AList.update p (c @ data) (files d)\<rparr>)"
proof -
  have "sys_write p data d = (Wrote (length data) EOther, d\<lparr>files := AList.update p (c @ data) (files d)\<rparr>)"
    using assms(1,2) by (simp add: sys_write_def next_outcome_empty)
  then show ?thesis using assms(3) by (simp add: write_loop.simps)
qed

lemma sys_sync_no_fault:
  "script d = [] \<Longrightarrow> file_at d p = Some c \<Longrightarrow>
     sys_sync p d = (True, d\<lparr>durable := AList.update p c (durable d)\<rparr>)"
  by (simp add: sys_sync_def next_outcome_empty)

lemma live_file:
  assumes "live crc w L"
  shows "\<exists>p c. fd w = Some p \<and> file_at (wdisk w) p = Some c \<and> \<not> failed w"
  using assms by (elim liveE) (auto simp: layout_def)

lemma sync_no_fault:
  assumes "live crc w L" "script (wdisk w) = []"
  shows "\<exists>u. wal_sync w = (True, w\<lparr>wdisk := (wdisk w)\<lparr>durable := u\<rparr>\<rparr>)"
  using live_file [OF assms(1)] assms(2)
  by (auto simp: wal_sync_def sync_data_fd_def sys_sync_no_fault Let_def)

lemma rotate_no_fault:
  assumes l: "live crc w L" and sc: "script (wdisk w) = []" and a: "active_size w > 0"
  shows "\<exists>w'. rotate w = (True, w') \<and> script (wdisk w') = []"
proof -
  from live_file [OF l] obtain p c where p: "fd w = Some p" "file_at (wdisk w) p = Some c" "\<not> failed w" by blast
  have nx: "\<not> path_exists (wdisk w) (active_dir w @ [segment_name (next_lsn w)])"
    by (rule live_next_fresh [OF l a])
  have "is_dir (wdisk w) (active_dir w)" using l by (auto simp: live_def layout_def)
  with p sc nx show ?thesis
    by (auto simp: rotate_def sync_data_fd_def sys_sync_no_fault open_active_def sys_open_def sync_directory_def
        sys_fsync_dir_def next_outcome_empty path_exists_def Let_def)
qed

lemma append_no_fault:
  assumes l: "live crc w L" and sc: "script (wdisk w) = []" and b: "valid_body b" and n: "length L + 1 < 2 ^ 64"
  shows "\<exists>w'. wal_append crc b sync w = (True, w')"
proof -
  obtain w1 where w1: "(if active_size w > 0 \<and> active_size w + (kFrameHeader + length b) > segment_bytes w
      then rotate w else (True, w)) = (True, w1)" "live crc w1 L" "script (wdisk w1) = []"
  proof (cases "active_size w > 0 \<and> active_size w + (kFrameHeader + length b) > segment_bytes w")
    case True
    with rotate_no_fault [OF l sc] obtain w1 where "rotate w = (True, w1)" "script (wdisk w1) = []" by auto
    with True rotate_effect [OF l _ this(1)] that show ?thesis by auto
  next
    case False
    with l sc that show ?thesis by auto
  qed
  from live_file [OF w1(2)] obtain p c where p: "fd w1 = Some p" "file_at (wdisk w1) p = Some c" by blast
  let ?d = "(wdisk w1)\<lparr>files := AList.update p (c @ frame crc b) (files (wdisk w1))\<rparr>"
  have wl: "write_loop True (the (fd w1)) (frame crc b) (wdisk w1) = (True, ?d)"
    using write_loop_no_fault [OF w1(3) p(2), of "frame crc b" True] p(1) by (auto simp: frame_bytes u32_bytes_def)
  let ?w2 = "w1\<lparr>wdisk := ?d, active_size := active_size w1 + length (frame crc b), next_lsn := next_lsn w1 + 1\<rparr>"
  have "live crc ?w2 (L @ [b])" using append_write(1) [OF w1(2) b n wl] by simp
  from sync_no_fault [OF this] w1(3) obtain w3 where "wal_sync ?w2 = (True, w3)" by auto
  moreover have "\<not> (fd w = None \<or> failed w \<or> b = [] \<or> length b > kMaxBody)"
    using live_file [OF l] b by (auto simp: valid_body_def)
  ultimately show ?thesis using w1(1) wl by (cases sync) (auto simp: wal_append_def Let_def)
qed


section \<open>A log with one segment\<close>

definition small_disk :: "(bytes \<Rightarrow> u32) \<Rightarrow> bytes list \<Rightarrow> outcome list \<Rightarrow> disk" where
  "small_disk crc bs s = \<lparr>files = [([''d'', segment_name 0], frames crc bs)], dirs = [[''d'']],
     durable = [], script = s\<rparr>"

definition small_wal :: "(bytes \<Rightarrow> u32) \<Rightarrow> bytes list \<Rightarrow> outcome list \<Rightarrow> wal" where
  "small_wal crc bs s = \<lparr>dir_of = [''d''], active_dir = [''d''], generation = 0,
     fd = Some [''d'', segment_name 0], failed = False, active_size = length (frames crc bs),
     segment_bytes = 100, next_lsn = of_nat (length bs), wdisk = small_disk crc bs s\<rparr>"

lemma small_disk_layout:
  assumes "list_all valid_body bs" "length bs < 2 ^ 64"
  shows "wf_disk (small_disk crc bs s)" "pointer (small_disk crc bs s) [''d''] 0 [''d'']"
    "layout crc (small_disk crc bs s) [''d''] [] bs []"
proof -
  have ns: "segment_name 0 \<noteq> ''CURRENT''" by (metis is_segment_segment_name not_is_segment_CURRENT(1))
  show "wf_disk (small_disk crc bs s)" "pointer (small_disk crc bs s) [''d''] 0 [''d'']"
    using ns by (auto simp: small_disk_def wf_disk_def file_at_def is_dir_def pointer_def split: if_splits)
  show "layout crc (small_disk crc bs s) [''d''] [] bs []"
    using assms
    by (auto simp: small_disk_def layout_def wf_log_def list_all_iff file_at_def is_dir_def path_exists_def
        seg_path_def)
qed

lemma small_wal_live:
  "list_all valid_body bs \<Longrightarrow> length bs < 2 ^ 64 \<Longrightarrow> live crc (small_wal crc bs s) bs"
  using small_disk_layout [of bs crc s]
  by (intro liveI [where pre = "[]" and bs = bs]) (simp_all add: small_wal_def seg_path_def)

lemma small_disk_on_disk:
  "list_all valid_body bs \<Longrightarrow> length bs < 2 ^ 64 \<Longrightarrow> on_disk crc (small_disk crc bs s) [''d''] bs"
  using live_on_disk [OF small_wal_live, of bs crc s] by (simp add: small_wal_def)

lemma valid_body_1 [simp]: "valid_body [b]"
  by (simp add: valid_body_def kMaxBody_def)


section \<open>Properties\<close>

text \<open>
  C11. Opening a log hands its records to the callback in order. Without faults it succeeds and the
  log can be appended to. With any script of faults in which \<open>CURRENT\<close>, if there is one, can be opened,
  it leaves the log on the disk, and if it reports success it replayed exactly the log. It never
  reads outside a buffer, whatever fails.
\<close>

theorem open_replays_log:
  assumes "on_disk crc d dir L"
  shows "wal_open crc dir (wal_new sb d) \<noteq> None \<and>
    (script d = [] \<longrightarrow> (\<exists>w. wal_open crc dir (wal_new sb d) = Some (True, L, w) \<and> live crc w L)) \<and>
    (\<forall>ok bods w. current_readable d dir \<longrightarrow> wal_open crc dir (wal_new sb d) = Some (ok, bods, w) \<longrightarrow>
       on_disk crc (wdisk w) dir L \<and> (ok \<longrightarrow> bods = L \<and> live crc w L))"
  using wal_open_defined [of crc dir "wal_new sb d"] wal_open_no_fault [of crc "wal_new sb d" dir L]
    wal_open_effect [of crc "wal_new sb d" dir L] assms
  by auto

theorem open_replays_log_witness:
  "on_disk (\<lambda>b. 7) (small_disk (\<lambda>b. 7) [[1], [2]] []) [''d''] [[1], [2]] \<and>
   (\<exists>w. wal_open (\<lambda>b. 7) [''d''] (wal_new 100 (small_disk (\<lambda>b. 7) [[1], [2]] [])) = Some (True, [[1], [2]], w))"
  using open_replays_log [of "\<lambda>b. 7" "small_disk (\<lambda>b. 7) [[1], [2]] []" "[''d'']" "[[1], [2]]" 100]
    small_disk_on_disk [of "[[1], [2]]" "\<lambda>b. 7" "[]"]
  by (auto simp: small_disk_def)

text \<open>
  C12. Appending refines appending to a list, for every script of faults: on success the log ends
  in the new record; on failure the log is unchanged, or it is unusable and the disk holds the
  old log with or without the new record, never a part of it. A body of legal size is accepted
  when no call fails.
\<close>

theorem append_refines_list:
  assumes "live crc w L" "length L + 1 < 2 ^ 64" "wal_append crc b sync w = (ok, w')"
  shows "(if ok then live crc w' (L @ [b])
     else w' = w \<and> \<not> valid_body b \<or>
       failed w' \<and> (on_disk crc (wdisk w') (dir_of w) L \<or> on_disk crc (wdisk w') (dir_of w) (L @ [b]))) \<and>
    (script (wdisk w) = [] \<and> valid_body b \<longrightarrow> ok)"
  using wal_append_effect [OF assms] append_no_fault [OF assms(1) _ _ assms(2), of b sync] assms(3)
  by (auto split: if_splits)

theorem append_refines_list_witness:
  "live (\<lambda>b. 7) (small_wal (\<lambda>b. 7) [[1]] []) [[1]] \<and>
   (\<exists>w'. wal_append (\<lambda>b. 7) [2] True (small_wal (\<lambda>b. 7) [[1]] []) = (True, w') \<and>
      live (\<lambda>b. 7) w' [[1], [2]])"
proof -
  let ?w = "small_wal (\<lambda>b. 7) [[1]] []"
  have l: "live (\<lambda>b. 7) ?w [[1]]" by (rule small_wal_live) simp_all
  obtain ok w' where a: "wal_append (\<lambda>b. 7) [2] True ?w = (ok, w')" by fastforce
  from append_refines_list [OF l _ a] have "ok" "live (\<lambda>b. 7) w' [[1], [2]]"
    by (auto simp: small_wal_def small_disk_def split: if_splits)
  with l a show ?thesis by simp
qed

text \<open>
  C9. Compaction is atomic for every script of faults and every hook: when it reports success the
  log is the snapshot; when it reports failure the log is the old one or the snapshot, never a
  mixture, and it either still accepts appends or has marked itself failed.
\<close>

theorem compact_atomic:
  assumes "live crc w L" "length snap < 2 ^ 64" "wal_compact crc hook snap w = (ok, w')"
  shows "dir_of w' = dir_of w \<and> (if ok then live crc w' snap else holds crc w' L \<or> holds crc w' snap)"
  by (rule wal_compact_effect [OF assms])

theorem compact_atomic_witness:
  "live (\<lambda>b. 7) (small_wal (\<lambda>b. 7) [[1], [2]] [SysOk, SysOk, SysFail EOther]) [[1], [2]] \<and>
   (let (ok, w') = wal_compact (\<lambda>b. 7) (\<lambda>s. True) [[3]] (small_wal (\<lambda>b. 7) [[1], [2]] [SysOk, SysOk, SysFail EOther])
    in if ok then live (\<lambda>b. 7) w' [[3]] else holds (\<lambda>b. 7) w' [[1], [2]] \<or> holds (\<lambda>b. 7) w' [[3]])"
proof -
  let ?w = "small_wal (\<lambda>b. 7) [[1], [2]] [SysOk, SysOk, SysFail EOther]"
  have l: "live (\<lambda>b. 7) ?w [[1], [2]]" by (rule small_wal_live) simp_all
  obtain ok w' where c: "wal_compact (\<lambda>b. 7) (\<lambda>s. True) [[3]] ?w = (ok, w')" by fastforce
  from compact_atomic [OF l _ c] l c show ?thesis by simp
qed

text \<open>
  C1. Across any number of lives of the process, with faults in each and a crash after any
  operation, the log on the disk contains every acknowledged record in order, and only records
  that were appended, in order.
\<close>

theorem acknowledged_records_survive:
  assumes "history crc dir (Down d) acked tried"
  shows "\<exists>L. on_disk crc d dir L \<and> subseq acked L \<and> subseq L tried"
  using history_invariant [OF assms] by simp

theorem acknowledged_records_survive_witness:
  "\<exists>d. history (\<lambda>b. 7) [''d''] (Down d) [[2]] [[2]] \<and> on_disk (\<lambda>b. 7) d [''d''] [[2]]"
proof -
  let ?c = "\<lambda>b :: bytes. 7 :: u32" and ?d = "small_disk (\<lambda>b. 7) [] []"
  have h0: "history ?c [''d''] (Down ?d) [] []"
    by (rule history.first) (rule small_disk_on_disk, simp_all)
  obtain w where w: "wal_open ?c [''d''] (wal_new 100 ?d) = Some (True, [], w)" "live ?c w []"
    using wal_open_no_fault [of ?c "wal_new 100 ?d" "[''d'']" "[]"] small_disk_on_disk [of "[]" ?c "[]"]
    by (auto simp: small_disk_def)
  have h1: "history ?c [''d''] (Up w) [] []"
    using history.start [OF h0 _ w(1)] by (simp add: current_readable_def small_disk_def)
  obtain ok w' where a: "wal_append ?c [2] True w = (ok, w')" by fastforce
  have s: "script (wdisk w) = []" using wal_open_script [OF w(1)] by (simp add: small_disk_def)
  have ok: "ok" using append_no_fault [OF w(2) s, of "[2]" True] a by simp
  have "history ?c [''d''] (Down ((wdisk w')\<lparr>script := []\<rparr>)) [[2]] [[2]]"
    using history.crash [OF history.ack [OF h1 _ a [unfolded ok [THEN eqTrueI]]]] ok by simp
  with acknowledged_records_survive [OF this] show ?thesis
    by (metis subseq_order.antisym)
qed

text \<open>
  C40. A fault the code does not handle: when the stream on an existing \<open>CURRENT\<close> cannot be opened (out of
  descriptors, say), \<open>open\<close> falls back to the root directory. After a compaction that directory has no
  segments, so \<open>open\<close> reports success with an empty log although the disk holds \<open>L\<close>.
\<close>

theorem unreadable_pointer_opens_empty:
  assumes "wf_disk d" "pointer d dir g (dir @ [gen_name g])" "layout crc d (dir @ [gen_name g]) pre bs []"
    "no_segments d dir" "file_at d (dir @ [''CURRENT'']) \<noteq> None" "script d = [SysOk, SysFail EOther]"
  shows "on_disk crc d dir (concat pre @ bs) \<and>
    (\<exists>w. wal_open crc dir (wal_new sb d) = Some (True, [], w))"
proof
  show "on_disk crc d dir (concat pre @ bs)" by (rule on_diskI [OF assms(1-3)])
  let ?d = "d\<lparr>script := []\<rparr>"
  have dir: "is_dir d dir" using assms(2) by (simp add: pointer_def)
  have m: "sys_mkdir dir d = (Some EEXIST, d\<lparr>script := [SysFail EOther]\<rparr>)"
    using assms(6) dir by (simp add: sys_mkdir_def next_outcome_def path_exists_def)
  have c: "read_current (dir @ [''CURRENT'']) (d\<lparr>script := [SysFail EOther]\<rparr>) = (None, ?d)"
    by (simp add: read_current_def next_outcome_def fault_def)
  let ?w = "(wal_new sb d)\<lparr>failed := False, dir_of := dir, active_dir := dir, generation := 0, wdisk := ?d\<rparr>"
  have o: "wal_open crc dir (wal_new sb d) = open_replay crc ?w"
    using m c by (simp add: wal_open_def)
  have ns: "no_segments ?d dir" using assms(4) no_segments_same [OF same_tree_script] by blast
  have "entries ?d dir = entries d dir" by (simp add: entries_def)
  then have "open_replay crc ?w =
      (let (ok, w) = open_first (?w\<lparr>next_lsn := 0\<rparr>) in Some (ok, [], w))"
    using no_segments_listing [OF ns] dir
    by (simp add: open_replay_def sys_list_dir_def next_outcome_empty wal_new_def)
  moreover obtain w' where "open_first (?w\<lparr>next_lsn := 0\<rparr>) = (True, w')"
    using open_first_no_fault [of "?w\<lparr>next_lsn := 0\<rparr>"] ns by auto
  ultimately show "\<exists>w. wal_open crc dir (wal_new sb d) = Some (True, [], w)"
    using o by simp
qed

definition compacted_disk :: "outcome list \<Rightarrow> disk" where
  "compacted_disk s =
    \<lparr>files = [([''d'', ''CURRENT''], map byte_of_char (to_string (unat (1 :: u64)) @ [CHR 0x0A])),
              ([''d'', gen_name 1, segment_name 0], frames (\<lambda>b. 7) [[1]])],
     dirs = [[''d''], [''d'', gen_name 1]], durable = [], script = s\<rparr>"

theorem unreadable_pointer_opens_empty_witness:
  "on_disk (\<lambda>b. 7) (compacted_disk [SysOk, SysFail EOther]) [''d''] [[1]] \<and>
   (\<exists>w. wal_open (\<lambda>b. 7) [''d''] (wal_new 100 (compacted_disk [SysOk, SysFail EOther])) = Some (True, [], w))"
proof -
  let ?d = "compacted_disk [SysOk, SysFail EOther]" and ?nd = "[''d''] @ [gen_name 1]"
  have ns: "segment_name n \<noteq> ''CURRENT''" "segment_name n \<noteq> gen_name g" for n g
    by (metis is_segment_segment_name not_is_segment_CURRENT(1)) (metis is_segment_segment_name not_is_segment_gen_name)
  have f: "file_at ?d p = (if p = [''d'', ''CURRENT''] then Some (map byte_of_char (to_string (unat (1 :: u64)) @ [CHR 0x0A]))
      else if p = [''d'', gen_name 1, segment_name 0] then Some (frames (\<lambda>b. 7) [[1]]) else None)" for p
    by (simp add: compacted_disk_def file_at_def)
  have i: "is_dir ?d p \<longleftrightarrow> p = [] \<or> p = [''d''] \<or> p = [''d'', gen_name 1]" for p
    by (simp add: compacted_disk_def is_dir_def)
  have "set (dirs ?d) = {[''d''], [''d'', gen_name 1]}" by (simp add: compacted_disk_def)
  then have wf: "wf_disk ?d" using ns by (auto simp: wf_disk_def f i)
  have p: "pointer ?d [''d''] 1 ?nd" by (rule pointer_written) (simp_all add: f i)
  have l: "layout (\<lambda>b. 7) ?d ?nd [] [[1]] []"
    using ns by (auto simp: layout_def wf_log_def f i seg_path_def path_exists_def)
  have n: "no_segments ?d [''d'']" by (auto simp: no_segments_def path_exists_def f i)
  show ?thesis
    using unreadable_pointer_opens_empty [OF wf p l n, of 100] by (simp add: f) (simp add: compacted_disk_def)
qed

end
