(* ===== verification/Store.thy ===== *)
theory Store
  imports Wal_History "HOL-Library.Product_Lexorder" "HOL-Library.Multiset"
begin

text \<open>
  The job table: \<^verbatim>\<open>src/src/store.h\<close> and \<^verbatim>\<open>src/src/store.cc\<close>. The table is rebuilt by folding log records
  through \<open>apply\<close>, which live commits use too; \<open>compact\<close> writes one full record per job.
\<close>

section \<open>The table\<close>

record store =
  jobs :: "(JobId \<times> Job) list"
  by_idem :: "(string \<times> JobId) list"
  swal :: wal

definition find :: "JobId \<Rightarrow> store \<Rightarrow> Job option" where
  "find i s = map_of (jobs s) i"

definition find_by_idem :: "string \<Rightarrow> store \<Rightarrow> Job option" where
  "find_by_idem k s = (case map_of (by_idem s) k of None \<Rightarrow> None | Some i \<Rightarrow> find i s)"

text \<open>Writing through the pointer \<open>find\<close> returns.\<close>

definition set_job :: "JobId \<Rightarrow> Job \<Rightarrow> store \<Rightarrow> store" where
  "set_job i j s = s\<lparr>jobs := AList.update i j (jobs s)\<rparr>"

fun apply_rec :: "Record \<Rightarrow> store \<Rightarrow> store" where
  "apply_rec (SubmitRec j) s =
     s\<lparr>jobs := AList.update (job_id j) j (jobs s),
       by_idem := AList.update (idem_key j) (job_id j) (by_idem s)\<rparr>"
| "apply_rec (ReplicateRec j) s =
     (let s = (case find (job_id j) s of
                 None \<Rightarrow> s\<lparr>jobs := AList.update (job_id j) j (jobs s)\<rparr>
               | Some l \<Rightarrow>
                   if job_advances l j then s\<lparr>jobs := AList.update (job_id j) j (jobs s)\<rparr> else s)
      in s\<lparr>by_idem := AList.update (idem_key j) (job_id j) (by_idem s)\<rparr>)"
| "apply_rec (LeaseRec i ep sq w) s =
     (case find i s of
        None \<Rightarrow> s
      | Some j \<Rightarrow>
          if epoch j \<le> ep \<and> state j \<noteq> Done \<and> state j \<noteq> DeadLetter
          then set_job i (j\<lparr>state := Leased, epoch := ep, lease_seq := sq, attempts := sq\<rparr>) s
          else s)"
| "apply_rec (DoneRec i ep sq) s =
     (case find i s of
        None \<Rightarrow> s
      | Some j \<Rightarrow>
          if epoch j \<le> ep \<and> state j \<noteq> Done
          then set_job i (j\<lparr>state := Done, epoch := ep, body := []\<rparr>) s else s)"
| "apply_rec (ExpireRec i ep sq) s =
     (case find i s of
        None \<Rightarrow> s
      | Some j \<Rightarrow>
          if epoch j \<le> ep \<and> state j = Leased \<and> lease_seq j = sq
          then set_job i (j\<lparr>state := Ready, epoch := ep\<rparr>) s else s)"
| "apply_rec (DeadLetterRec i ep) s =
     (case find i s of
        None \<Rightarrow> s
      | Some j \<Rightarrow>
          if epoch j \<le> ep \<and> state j \<noteq> Done
          then set_job i (j\<lparr>state := DeadLetter, epoch := ep\<rparr>) s else s)"
| "apply_rec (TakeoverRec i ep own) s =
     (case find i s of
        None \<Rightarrow> s
      | Some j \<Rightarrow>
          if epoch j < ep then set_job i (j\<lparr>epoch := ep, owner := own\<rparr>) s else s)"


section \<open>Opening, committing, compacting\<close>

text \<open>The replay callback: a body that does not decode is skipped.\<close>

primrec replay :: "bytes list \<Rightarrow> store \<Rightarrow> store option" where
  "replay [] s = Some s"
| "replay (b # bs) s = do {
     r \<leftarrow> decode_record b;
     replay bs (case r of None \<Rightarrow> s | Some (rec, lsn) \<Rightarrow> apply_rec rec s)
   }"

definition store_open :: "(bytes \<Rightarrow> u32) \<Rightarrow> path \<Rightarrow> store \<Rightarrow> (bool \<times> store) option" where
  "store_open crc dir s = do {
     (ok, bs, w) \<leftarrow> wal_open crc dir (swal s);
     s \<leftarrow> replay bs s;
     Some (ok, s\<lparr>swal := w\<rparr>)
   }"

definition commit :: "(bytes \<Rightarrow> u32) \<Rightarrow> Record \<Rightarrow> bool \<Rightarrow> store \<Rightarrow> bool \<times> store" where
  "commit crc r sync s =
    (let b = encode_record r (next_lsn (swal s));
         (ok, w) = wal_append crc b sync (swal s); s = s\<lparr>swal := w\<rparr>
     in if \<not> ok then (False, s) else (True, apply_rec r s))"

text \<open>
  The comparison of \<open>compact\<close>: by key, then the job the key selects last, then by identifier. It is
  the lexicographic order of this tuple, with \<open>False\<close> below \<open>True\<close>.
\<close>

definition retained_order :: "store \<Rightarrow> Job \<Rightarrow> string \<times> bool \<times> u64 \<times> u64" where
  "retained_order s j =
     (idem_key j, map_of (by_idem s) (idem_key j) = Some (job_id j), origin (job_id j), nonce (job_id j))"

definition retained :: "store \<Rightarrow> Job list" where
  "retained s = sort_key (retained_order s) (map snd (jobs s))"

definition snapshot :: "store \<Rightarrow> bytes list" where
  "snapshot s = map (\<lambda>(i, j). encode_record (ReplicateRec j) (of_nat i)) (enumerate 0 (retained s))"

definition store_compact :: "(bytes \<Rightarrow> u32) \<Rightarrow> (CompactStage \<Rightarrow> bool) \<Rightarrow> store \<Rightarrow> bool \<times> store" where
  "store_compact crc hook s =
    (let (ok, w) = wal_compact crc hook (snapshot s) (swal s) in (ok, s\<lparr>swal := w\<rparr>))"


section \<open>What a record does to a job\<close>

text \<open>\<open>apply\<close> touches the record's own job only; this is what it does to it.\<close>

fun rec_job :: "Record \<Rightarrow> JobId" where
  "rec_job (SubmitRec j) = job_id j"
| "rec_job (ReplicateRec j) = job_id j"
| "rec_job (LeaseRec i ep sq w) = i"
| "rec_job (DoneRec i ep sq) = i"
| "rec_job (ExpireRec i ep sq) = i"
| "rec_job (DeadLetterRec i ep) = i"
| "rec_job (TakeoverRec i ep own) = i"

fun job_step :: "Record \<Rightarrow> Job option \<Rightarrow> Job option" where
  "job_step (SubmitRec j) x = Some j"
| "job_step (ReplicateRec j) None = Some j"
| "job_step (ReplicateRec j) (Some l) = Some (if job_advances l j then j else l)"
| "job_step (LeaseRec i ep sq w) (Some j) =
     Some (if epoch j \<le> ep \<and> state j \<noteq> Done \<and> state j \<noteq> DeadLetter
           then j\<lparr>state := Leased, epoch := ep, lease_seq := sq, attempts := sq\<rparr> else j)"
| "job_step (DoneRec i ep sq) (Some j) =
     Some (if epoch j \<le> ep \<and> state j \<noteq> Done then j\<lparr>state := Done, epoch := ep, body := []\<rparr> else j)"
| "job_step (ExpireRec i ep sq) (Some j) =
     Some (if epoch j \<le> ep \<and> state j = Leased \<and> lease_seq j = sq then j\<lparr>state := Ready, epoch := ep\<rparr> else j)"
| "job_step (DeadLetterRec i ep) (Some j) =
     Some (if epoch j \<le> ep \<and> state j \<noteq> Done then j\<lparr>state := DeadLetter, epoch := ep\<rparr> else j)"
| "job_step (TakeoverRec i ep own) (Some j) =
     Some (if epoch j < ep then j\<lparr>epoch := ep, owner := own\<rparr> else j)"
| "job_step _ None = None"

lemma find_set_job [simp]: "find k (set_job i j s) = (if k = i then Some j else find k s)"
  by (simp add: find_def set_job_def)

lemma find_update [simp]:
  "find k (s\<lparr>jobs := AList.update i j (jobs s)\<rparr>) = (if k = i then Some j else find k s)"
  "find k (s\<lparr>by_idem := y\<rparr>) = find k s" "find k (s\<lparr>swal := w\<rparr>) = find k s"
  by (simp_all add: find_def)

lemma find_update2 [simp]:
  "find k (s\<lparr>jobs := AList.update i j (jobs s), by_idem := y\<rparr>) = (if k = i then Some j else find k s)"
  by (simp add: find_def)

lemma find_apply_rec:
  "find i (apply_rec r s) = (if i = rec_job r then job_step r (find i s) else find i s)"
  by (cases r; cases "find (rec_job r) s") (auto simp: Let_def)

lemma apply_rec_swal [simp]: "swal (apply_rec r s) = swal s"
  by (cases r) (auto simp: Let_def set_job_def split: option.splits)

lemma apply_rec_swal_update [simp]: "apply_rec r (s\<lparr>swal := w\<rparr>) = (apply_rec r s)\<lparr>swal := w\<rparr>"
  by (cases r) (auto simp: Let_def set_job_def find_def split: option.splits)

lemma by_idem_apply_rec:
  "map_of (by_idem (apply_rec r s)) =
     (case r of SubmitRec j \<Rightarrow> (map_of (by_idem s))(idem_key j \<mapsto> job_id j)
      | ReplicateRec j \<Rightarrow> (map_of (by_idem s))(idem_key j \<mapsto> job_id j)
      | _ \<Rightarrow> map_of (by_idem s))"
  by (cases r) (auto simp: Let_def set_job_def split: option.splits)

lemma dict_apply_rec:
  "dict (jobs s) \<Longrightarrow> dict (jobs (apply_rec r s))"
  by (cases r) (auto simp: Let_def set_job_def split: option.splits)


section \<open>Terminal states and fences\<close>

fun full_copy :: "Record \<Rightarrow> bool" where
  "full_copy (SubmitRec j) = True"
| "full_copy (ReplicateRec j) = True"
| "full_copy _ = False"

lemma job_step_epoch:
  "\<not> (\<exists>j. r = SubmitRec j) \<Longrightarrow> job_step r (Some j) = Some j' \<Longrightarrow> epoch j \<le> epoch j'"
  by (cases r) (auto simp: job_advances_def split: if_splits)

lemma job_step_done:
  "\<not> full_copy r \<Longrightarrow> state j = Done \<Longrightarrow> job_step r (Some j) = Some j' \<Longrightarrow>
     state j' = Done \<and> body j' = body j \<and> lease_seq j' = lease_seq j"
  by (cases r) (auto split: if_splits)

lemma job_step_replicate_done:
  "state l = Done \<Longrightarrow> epoch j \<le> epoch l \<Longrightarrow> job_step (ReplicateRec j) (Some l) = Some j' \<Longrightarrow> state j' = Done"
  by (auto simp: job_advances_def split: if_splits)

lemma job_step_dead:
  "\<not> full_copy r \<Longrightarrow> state j = DeadLetter \<Longrightarrow> job_step r (Some j) = Some j' \<Longrightarrow>
     state j' \<in> {DeadLetter, Done}"
  by (cases r) (auto split: if_splits)


section \<open>Tables up to the order of their entries\<close>

definition same_table :: "store \<Rightarrow> store \<Rightarrow> bool" where
  "same_table s t \<longleftrightarrow> map_of (jobs s) = map_of (jobs t) \<and> map_of (by_idem s) = map_of (by_idem t)"

lemma same_table_refl [simp]: "same_table s s"
  by (simp add: same_table_def)

lemma same_table_trans: "same_table s t \<Longrightarrow> same_table t u \<Longrightarrow> same_table s u"
  by (simp add: same_table_def)

lemma same_table_sym: "same_table s t \<Longrightarrow> same_table t s"
  by (simp add: same_table_def)

lemma same_table_swal [simp]:
  "same_table (s\<lparr>swal := w\<rparr>) t = same_table s t" "same_table s (t\<lparr>swal := w\<rparr>) = same_table s t"
  by (simp_all add: same_table_def)

lemma same_table_find: "same_table s t \<Longrightarrow> find i s = find i t"
  by (simp add: same_table_def find_def)

lemma same_table_apply: "same_table s t \<Longrightarrow> same_table (apply_rec r s) (apply_rec r t)"
proof -
  assume a: "same_table s t"
  have "find i (apply_rec r s) = find i (apply_rec r t)" for i
    using same_table_find [OF a] by (simp add: find_apply_rec)
  then have "map_of (jobs (apply_rec r s)) = map_of (jobs (apply_rec r t))"
    by (auto simp: find_def)
  then show ?thesis
    using a by (simp add: same_table_def by_idem_apply_rec split: Record.split)
qed

lemma same_table_fold: "same_table s t \<Longrightarrow> same_table (fold apply_rec rs s) (fold apply_rec rs t)"
  by (induction rs arbitrary: s t) (simp_all add: same_table_apply)

text \<open>Replaying what was encoded.\<close>

definition encodes :: "bytes list \<Rightarrow> Record list \<Rightarrow> bool" where
  "encodes L rs \<longleftrightarrow> list_all2 (\<lambda>b r. wf_rec r \<and> (\<exists>lsn. b = encode_record r lsn)) L rs"

lemma encodes_snoc:
  "encodes L rs \<Longrightarrow> wf_rec r \<Longrightarrow> encodes (L @ [encode_record r lsn]) (rs @ [r])"
  unfolding encodes_def by (intro list_all2_appendI) auto

lemma decode_encode [simp]: "wf_rec r \<Longrightarrow> decode_record (encode_record r lsn) = Some (Some (r, lsn))"
  using decode_record_read [of r lsn "[]"] by simp

lemma replay_encoded: "encodes L rs \<Longrightarrow> replay L s = Some (fold apply_rec rs s)"
  unfolding encodes_def by (induction arbitrary: s rule: list_all2_induct) auto

lemma replay_total: "replay L s \<noteq> None"
proof (induction L arbitrary: s)
  case (Cons b L)
  have "decode_record b \<noteq> None" using decode_record_safe [of b] by (simp add: safe_def)
  then show ?case using Cons by auto
qed simp

lemma valid_encoded: "wf_rec r \<Longrightarrow> valid_body (encode_record r lsn)"
  using encode_record_bound [of r lsn] by (auto simp: valid_body_def kMaxBody_def)


section \<open>Compaction keeps the table\<close>

text \<open>
  The table invariant. \<open>K\<close> gives the key of an identifier: identifiers are minted per submission, so
  copies of one job carry one key.
\<close>

definition job_ok :: "(JobId \<Rightarrow> string) \<Rightarrow> JobId \<Rightarrow> Job \<Rightarrow> bool" where
  "job_ok K i j \<longleftrightarrow> job_id j = i \<and> wf_job j \<and> idem_key j = K i"

definition table_ok :: "(JobId \<Rightarrow> string) \<Rightarrow> store \<Rightarrow> bool" where
  "table_ok K s \<longleftrightarrow> dict (jobs s) \<and>
     (\<forall>i j. find i s = Some j \<longrightarrow> job_ok K i j \<and> K i \<in> dom (map_of (by_idem s))) \<and>
     (\<forall>k i. map_of (by_idem s) k = Some i \<longrightarrow> K i = k \<and> find i s \<noteq> None)"

fun rec_ok :: "(JobId \<Rightarrow> string) \<Rightarrow> Record \<Rightarrow> bool" where
  "rec_ok K (SubmitRec j) = (wf_job j \<and> idem_key j = K (job_id j))"
| "rec_ok K (ReplicateRec j) = (wf_job j \<and> idem_key j = K (job_id j))"
| "rec_ok K _ = True"

lemma rec_ok_wf: "rec_ok K r \<Longrightarrow> wf_rec r"
  by (cases r) simp_all

lemma wf_job_states: "\<exists>w. Ready = state_of_u8 w" "\<exists>w. Leased = state_of_u8 w"
  "\<exists>w. Done = state_of_u8 w" "\<exists>w. DeadLetter = state_of_u8 w"
  by (rule named_state_of_u8, simp add: named_state_def)+

lemma wf_job_update [simp]:
  "wf_job (j\<lparr>epoch := ep\<rparr>) = wf_job j" "wf_job (j\<lparr>lease_seq := sq\<rparr>) = wf_job j"
  "wf_job (j\<lparr>attempts := sq\<rparr>) = wf_job j" "wf_job (j\<lparr>owner := e\<rparr>) = wf_job j"
  "wf_job j \<Longrightarrow> wf_job (j\<lparr>body := []\<rparr>)" "wf_job j \<Longrightarrow> wf_job (j\<lparr>state := Ready\<rparr>)"
  "wf_job j \<Longrightarrow> wf_job (j\<lparr>state := Leased\<rparr>)" "wf_job j \<Longrightarrow> wf_job (j\<lparr>state := Done\<rparr>)"
  "wf_job j \<Longrightarrow> wf_job (j\<lparr>state := DeadLetter\<rparr>)"
  unfolding wf_job_def using wf_job_states by simp_all

lemma job_step_ok:
  assumes "rec_ok K r" "job_step r x = Some j" "x = None \<or> (\<exists>l. x = Some l \<and> job_ok K (rec_job r) l)"
  shows "job_ok K (rec_job r) j"
proof (cases x)
  case None
  then show ?thesis using assms by (cases r) (simp_all add: job_ok_def)
next
  case (Some l)
  then have "job_id l = rec_job r" "wf_job l" "idem_key l = K (rec_job r)" using assms by (simp_all add: job_ok_def)
  then show ?thesis
    using assms(1) assms(2) [symmetric] Some by (cases r) (simp_all add: job_ok_def)
qed

lemma by_idem_apply_other: "\<not> full_copy r \<Longrightarrow> by_idem (apply_rec r s) = by_idem s"
  by (cases r) (auto simp: set_job_def split: option.splits)

lemma job_step_None: "job_step r x = None \<Longrightarrow> x = None"
  by (cases r; cases x) auto

lemma job_step_full: "full_copy r \<Longrightarrow> job_step r x \<noteq> None"
  by (cases r; cases x) auto

lemma job_step_new: "job_step r None = Some j \<Longrightarrow> full_copy r"
  by (cases r) auto

lemma table_ok_by_idem:
  assumes r: "rec_ok K r"
  shows "map_of (by_idem (apply_rec r s)) =
    (if full_copy r then (map_of (by_idem s))(K (rec_job r) \<mapsto> rec_job r) else map_of (by_idem s))"
  using r by (cases r) (auto simp: by_idem_apply_rec Let_def set_job_def split: option.splits)

lemma table_ok_apply:
  assumes t: "table_ok K s" and r: "rec_ok K r"
  shows "table_ok K (apply_rec r s)"
  unfolding table_ok_def
proof (intro conjI allI impI)
  show "dict (jobs (apply_rec r s))" using t by (simp add: table_ok_def dict_apply_rec)
next
  fix i j assume f: "find i (apply_rec r s) = Some j"
  show "job_ok K i j"
  proof (cases "i = rec_job r")
    case True
    then show ?thesis
      using f t job_step_ok [OF r, of "find i s" j] by (cases "find i s") (simp_all add: find_apply_rec table_ok_def)
  qed (use f t in \<open>simp add: find_apply_rec table_ok_def\<close>)
  show "K i \<in> dom (map_of (by_idem (apply_rec r s)))"
  proof (cases "find i s")
    case None
    then show ?thesis
      using f job_step_new [of r j] by (auto simp: find_apply_rec table_ok_by_idem [OF r] split: if_splits)
  next
    case (Some l)
    then show ?thesis using t by (auto simp: table_ok_by_idem [OF r] table_ok_def)
  qed
next
  fix k i assume b: "map_of (by_idem (apply_rec r s)) k = Some i"
  have "K i = k \<and> (find i s \<noteq> None \<or> full_copy r \<and> i = rec_job r)"
    using b t by (auto simp: table_ok_by_idem [OF r] table_ok_def split: if_splits)
  then show "K i = k" "find i (apply_rec r s) \<noteq> None"
    using job_step_None [of r "find i s"] job_step_full [of r "find i s"]
    by (cases "job_step r (find i s)"; auto simp: find_apply_rec)+
qed


declare apply_rec.simps [simp del]

text \<open>Replaying full copies of distinct jobs into an empty table.\<close>

definition empty_store :: "wal \<Rightarrow> store" where
  "empty_store w = \<lparr>jobs = [], by_idem = [], swal = w\<rparr>"

lemma swal_empty_store [simp]: "swal (empty_store w) = w"
  by (simp add: empty_store_def)

lemma table_ok_empty [simp]: "table_ok K (empty_store w)"
  by (simp add: table_ok_def empty_store_def find_def)

lemma find_copies:
  "distinct (map job_id js) \<Longrightarrow> (\<forall>j \<in> set js. find (job_id j) s = None) \<Longrightarrow>
     find i (fold apply_rec (map ReplicateRec js) s) =
       (case map_of (map (\<lambda>j. (job_id j, j)) js) i of None \<Rightarrow> find i s | Some j \<Rightarrow> Some j)"
proof (induction js arbitrary: s)
  case (Cons j js)
  have d: "\<forall>x \<in> set js. job_id x \<noteq> job_id j" using Cons.prems(1) by (metis distinct.simps(2) image_eqI list.set_map list.simps(9))
  have "\<forall>x \<in> set js. find (job_id x) (apply_rec (ReplicateRec j) s) = None"
    using Cons.prems d by (simp add: find_apply_rec)
  moreover have "map_of (map (\<lambda>j. (job_id j, j)) js) (job_id j) = None"
    using d by (auto simp: map_of_eq_None_iff)
  ultimately show ?case
    using Cons by (auto simp: find_apply_rec split: option.split)
qed simp

definition last_with :: "string \<Rightarrow> Job list \<Rightarrow> JobId option \<Rightarrow> JobId option" where
  "last_with k js d = (let ys = filter (\<lambda>j. idem_key j = k) js in if ys = [] then d else Some (job_id (last ys)))"

lemma by_idem_copies:
  "map_of (by_idem (fold apply_rec (map ReplicateRec js) s)) k = last_with k js (map_of (by_idem s) k)"
  by (induction js arbitrary: s) (auto simp: last_with_def Let_def by_idem_apply_rec)

lemma job_id_key: "origin a = origin b \<Longrightarrow> nonce a = nonce b \<Longrightarrow> a = (b :: JobId)"
  by simp

lemma retained_set: "dict (jobs s) \<Longrightarrow> set (retained s) = {j. \<exists>i. find i s = Some j}"
  by (force simp: retained_def find_def)

lemma retained_ids:
  assumes "table_ok K s"
  shows "distinct (map job_id (retained s))"
    "map_of (map (\<lambda>j. (job_id j, j)) (retained s)) = map_of (jobs s)"
proof -
  have e: "map (\<lambda>x. job_id (snd x)) (jobs s) = map fst (jobs s)"
    using assms by (auto simp: table_ok_def find_def job_ok_def)
  have d: "distinct (map job_id (map snd (jobs s)))"
    using assms by (simp add: table_ok_def e comp_def)
  have "mset (map job_id (retained s)) = mset (map job_id (map snd (jobs s)))"
    by (simp only: mset_map retained_def mset_sort)
  then show r: "distinct (map job_id (retained s))" using d by (metis mset_eq_imp_distinct_iff)
  show "map_of (map (\<lambda>j. (job_id j, j)) (retained s)) = map_of (jobs s)"
  proof
    fix i
    have d: "dict (map (\<lambda>j. (job_id j, j)) (retained s))" using r by (simp add: comp_def)
    have k: "\<And>i j. find i s = Some j \<Longrightarrow> job_id j = i" and dj: "dict (jobs s)"
      using assms by (simp_all add: table_ok_def job_ok_def)
    have "map_of (map (\<lambda>j. (job_id j, j)) (retained s)) i = Some j \<longleftrightarrow> j \<in> set (retained s) \<and> job_id j = i" for j
      using d by (auto simp: map_of_eq_Some_iff)
    then have "map_of (map (\<lambda>j. (job_id j, j)) (retained s)) i = Some j \<longleftrightarrow> map_of (jobs s) i = Some j" for j
      using k by (auto simp: retained_set [OF dj] simp flip: find_def)
    then show "map_of (map (\<lambda>j. (job_id j, j)) (retained s)) i = map_of (jobs s) i"
      by (metis option.exhaust)
  qed
qed

lemma sorted_last_ge: "sorted_wrt (\<lambda>x y. f x \<le> f y) ys \<Longrightarrow> y \<in> set ys \<Longrightarrow> f y \<le> (f (last ys) :: 'a::linorder)"
  by (induction ys) auto

lemma retained_last:
  assumes t: "table_ok K s" and b: "map_of (by_idem s) k = Some i"
  shows "last_with k (retained s) d = Some i"
proof -
  let ?ys = "filter (\<lambda>j. idem_key j = k) (retained s)"
  obtain j where j: "find i s = Some j" using t b by (fastforce simp: table_ok_def)
  then have k: "idem_key j = k" "job_id j = i" using t b by (auto simp: table_ok_def job_ok_def)
  have jy: "j \<in> set ?ys" using j k t by (auto simp: retained_set table_ok_def)
  have "sorted_wrt (\<lambda>x y. retained_order s x \<le> retained_order s y) ?ys"
    by (rule sorted_wrt_filter) (metis retained_def sorted_map sorted_sort_key)
  from sorted_last_ge [OF this jy] have le: "retained_order s j \<le> retained_order s (last ?ys)" .
  have "last ?ys \<in> set ?ys" using jy last_in_set [of ?ys] by (metis empty_iff empty_set)
  then have "idem_key (last ?ys) = k" by simp
  with le b k have "job_id (last ?ys) = i" by (auto simp: retained_order_def)
  moreover have "?ys \<noteq> []" using jy by force
  ultimately show ?thesis unfolding last_with_def Let_def by presburger
qed

lemma compact_same_table:
  assumes t: "table_ok K s"
  shows "same_table (fold apply_rec (map ReplicateRec (retained s)) (empty_store w)) s"
proof -
  let ?t = "fold apply_rec (map ReplicateRec (retained s)) (empty_store w)"
  have "find i ?t = find i s" for i
    using retained_ids [OF t] find_copies [of "retained s" "empty_store w" i]
    by (simp add: find_def empty_store_def split: option.splits)
  then have "map_of (jobs ?t) = map_of (jobs s)" by (auto simp: find_def)
  moreover have "map_of (by_idem ?t) k = map_of (by_idem s) k" for k
  proof (cases "map_of (by_idem s) k")
    case (Some i)
    then show ?thesis using retained_last [OF t Some] by (simp add: by_idem_copies)
  next
    case None
    then have "\<forall>j \<in> set (retained s). idem_key j \<noteq> k"
      using t by (fastforce simp: retained_set table_ok_def job_ok_def)
    then have "filter (\<lambda>j. idem_key j = k) (retained s) = []" by (simp add: filter_empty_conv)
    then show ?thesis using None by (simp add: by_idem_copies last_with_def empty_store_def)
  qed
  ultimately show ?thesis by (auto simp: same_table_def)
qed

lemma snapshot_encodes: "table_ok K s \<Longrightarrow> encodes (snapshot s) (map ReplicateRec (retained s))"
  by (auto simp: encodes_def snapshot_def list_all2_conv_all_nth nth_enumerate_eq retained_set table_ok_def job_ok_def
      dest!: nth_mem)



section \<open>A table over a log\<close>

text \<open>
  What the table relies on of its log: \<open>live\<close> is a usable log holding the list, \<open>left\<close> is what the disk
  would give a restart, \<open>dead\<close> a log that refuses everything.
\<close>

locale record_log =
  fixes live :: "'w \<Rightarrow> 'b list \<Rightarrow> bool"
    and left :: "'w \<Rightarrow> 'b list \<Rightarrow> bool"
    and dead :: "'w \<Rightarrow> bool"
    and valid :: "'b \<Rightarrow> bool"
    and append :: "bool \<Rightarrow> 'b \<Rightarrow> 'w \<Rightarrow> bool \<times> 'w"
    and compact :: "'h \<Rightarrow> 'b list \<Rightarrow> 'w \<Rightarrow> bool \<times> 'w"
  assumes live_left: "live w L \<Longrightarrow> left w L"
    and append_live: "live w L \<Longrightarrow> length L + 1 < 2 ^ 64 \<Longrightarrow> valid b \<Longrightarrow> append sync b w = (ok, w') \<Longrightarrow>
      (if ok then live w' (L @ [b]) else dead w' \<and> (left w' L \<or> left w' (L @ [b])))"
    and append_dead: "dead w \<Longrightarrow> append sync b w = (False, w)"
    and compact_live: "live w L \<Longrightarrow> length snap < 2 ^ 64 \<Longrightarrow> compact h snap w = (ok, w') \<Longrightarrow>
      (if ok then live w' snap
       else live w' L \<or> live w' snap \<or> dead w' \<and> (left w' L \<or> left w' snap))"
    and compact_dead: "dead w \<Longrightarrow> compact h snap w = (False, w)"

text \<open>A table whose state the log rebuilds, and that writes before it applies.\<close>

locale write_ahead = record_log live left dead valid append compact
  for live :: "'w \<Rightarrow> 'b list \<Rightarrow> bool" and left dead valid and append
    and compact :: "'h \<Rightarrow> 'b list \<Rightarrow> 'w \<Rightarrow> bool \<times> 'w" +
  fixes good :: "'r \<Rightarrow> bool"
    and rebuilds :: "'b list \<Rightarrow> 't \<Rightarrow> bool"
    and encodes_as :: "'r \<Rightarrow> 'b \<Rightarrow> bool"
    and app :: "'r \<Rightarrow> 't \<Rightarrow> 't"
  assumes encoded_valid: "good r \<Longrightarrow> encodes_as r b \<Longrightarrow> valid b"
    and rebuilds_snoc: "rebuilds L t \<Longrightarrow> good r \<Longrightarrow> encodes_as r b \<Longrightarrow> rebuilds (L @ [b]) (app r t)"
begin

text \<open>
  The log of a running table: live and rebuilding it, or dead, in which case a restart gives the
  table or the table after one record of \<open>A\<close>, the records whose commit was refused.
\<close>

definition tracks :: "'r set \<Rightarrow> nat \<Rightarrow> 'w \<Rightarrow> 't \<Rightarrow> bool" where
  "tracks A n w t \<longleftrightarrow> (\<exists>L. live w L \<and> rebuilds L t \<and> length L \<le> n) \<or>
     dead w \<and> (\<exists>L. left w L \<and> (rebuilds L t \<or> (\<exists>r \<in> A. rebuilds L (app r t))))"

lemma tracks_mono: "tracks A n w t \<Longrightarrow> A \<subseteq> B \<Longrightarrow> n \<le> m \<Longrightarrow> tracks B m w t"
  unfolding tracks_def by (meson order_trans subset_eq)

lemma tracks_commit:
  assumes t: "tracks A n w t" and n: "n + 1 < 2 ^ 64" and g: "good r" "encodes_as r b"
    and a: "append sync b w = (ok, w')"
  shows "if ok then tracks A (Suc n) w' (app r t) else tracks (insert r A) n w' t"
proof (cases "dead w")
  case True
  then have e: "ok = False" "w' = w" using a append_dead by simp_all
  then show ?thesis using tracks_mono [OF t subset_insertI [of A r] order_refl] by simp
next
  case False
  with t obtain L where L: "live w L" "rebuilds L t" "length L \<le> n"
    unfolding tracks_def by blast
  have v: "valid b" using encoded_valid [OF g] .
  show ?thesis
  proof (cases ok)
    case True
    then have "live w' (L @ [b])" using append_live [OF L(1) _ v a] L(3) n by simp
    then show ?thesis
      using True rebuilds_snoc [OF L(2) g] L(3) unfolding tracks_def by force
  next
    case False
    then have "dead w'" "left w' L \<or> left w' (L @ [b])" using append_live [OF L(1) _ v a] L(3) n by simp_all
    then show ?thesis
      using False rebuilds_snoc [OF L(2) g] L(2) unfolding tracks_def by auto
  qed
qed

lemma tracks_left:
  "tracks A n w t \<Longrightarrow> \<exists>L. left w L \<and> (rebuilds L t \<or> (\<exists>r \<in> A. rebuilds L (app r t)))"
  unfolding tracks_def using live_left by blast

end

text \<open>One that can also replace its log by a snapshot of itself.\<close>

locale logged_table = write_ahead live left dead valid append compact good rebuilds encodes_as app
  for live :: "'w \<Rightarrow> 'b list \<Rightarrow> bool" and left dead valid and append
    and compact :: "'h \<Rightarrow> 'b list \<Rightarrow> 'w \<Rightarrow> bool \<times> 'w"
    and good :: "'r \<Rightarrow> bool" and rebuilds :: "'b list \<Rightarrow> 't \<Rightarrow> bool" and encodes_as and app +
  fixes good_table :: "'t \<Rightarrow> bool"
    and snap :: "'t \<Rightarrow> 'b list"
  assumes rebuilds_snap: "good_table t \<Longrightarrow> rebuilds (snap t) t"
begin

lemma tracks_compact:
  assumes t: "tracks A n w t" and gt: "good_table t" and l: "length (snap t) \<le> n" "n < 2 ^ 64"
    and c: "compact h (snap t) w = (ok, w')"
  shows "tracks A n w' t"
proof (cases "dead w")
  case True
  then show ?thesis using t c compact_dead by simp
next
  case False
  with t obtain L where L: "live w L" "rebuilds L t" "length L \<le> n"
    unfolding tracks_def by blast
  have "live w' L \<or> live w' (snap t) \<or> dead w' \<and> (left w' L \<or> left w' (snap t))"
    using compact_live [OF L(1) _ c] l by (simp split: if_splits)
  then show ?thesis
    using rebuilds_snap [OF gt] L(2,3) l(1) unfolding tracks_def by blast
qed

end


section \<open>The store over the write-ahead log\<close>

definition rebuilds_table :: "bytes list \<Rightarrow> store \<Rightarrow> bool" where
  "rebuilds_table L t \<longleftrightarrow> (\<exists>rs. encodes L rs \<and> (\<forall>w. same_table (fold apply_rec rs (empty_store w)) t))"

lemma on_disk_script: "on_disk crc d dir L \<Longrightarrow> on_disk crc (d\<lparr>script := s\<rparr>) dir L"
  by (rule on_disk_same [OF same_tree_script])

definition live_in :: "(bytes \<Rightarrow> u32) \<Rightarrow> path \<Rightarrow> wal \<Rightarrow> bytes list \<Rightarrow> bool" where
  "live_in crc dir w L \<longleftrightarrow> dir_of w = dir \<and> live crc w L"

definition left_in :: "(bytes \<Rightarrow> u32) \<Rightarrow> path \<Rightarrow> wal \<Rightarrow> bytes list \<Rightarrow> bool" where
  "left_in crc dir w L \<longleftrightarrow> dir_of w = dir \<and> on_disk crc (wdisk w) dir L"

interpretation slog: record_log "live_in crc dir" "left_in crc dir" failed valid_body
  "\<lambda>sync b. wal_append crc b sync" "wal_compact crc" for crc dir
proof unfold_locales
  fix w L snap h ok w' assume l: "live_in crc dir w L" and n: "length snap < 2 ^ 64"
    and c: "wal_compact crc h snap w = (ok, w')"
  from l have "live crc w L" by (simp add: live_in_def)
  from wal_compact_effect [OF this n c] l
  show "if ok then live_in crc dir w' snap
    else live_in crc dir w' L \<or> live_in crc dir w' snap \<or> failed w' \<and> (left_in crc dir w' L \<or> left_in crc dir w' snap)"
    by (auto simp: live_in_def left_in_def holds_def)
next
  fix w L b sync ok w' assume l: "live_in crc dir w L" and n: "length L + 1 < 2 ^ 64" "valid_body b"
    and c: "wal_append crc b sync w = (ok, w')"
  from l have "live crc w L" by (simp add: live_in_def)
  from wal_append_effect [OF this n(1) c] l n(2)
  show "if ok then live_in crc dir w' (L @ [b]) else failed w' \<and> (left_in crc dir w' L \<or> left_in crc dir w' (L @ [b]))"
    by (auto simp: live_in_def left_in_def)
qed (auto simp: live_in_def left_in_def live_on_disk append_failed wal_compact_def)

lemma empty_store_swal: "empty_store w = (empty_store v)\<lparr>swal := w\<rparr>"
  by (simp add: empty_store_def)

lemma rebuilds_table_snoc:
  "rebuilds_table L t \<Longrightarrow> wf_rec r \<Longrightarrow> rebuilds_table (L @ [encode_record r lsn]) (apply_rec r t)"
  unfolding rebuilds_table_def
  using encodes_snoc [of L _ r lsn] same_table_apply [of _ t r] by fastforce

lemma rebuilds_table_snapshot: "table_ok K t \<Longrightarrow> rebuilds_table (snapshot t) t"
  unfolding rebuilds_table_def using snapshot_encodes compact_same_table by blast

interpretation swah: write_ahead "live_in crc dir" "left_in crc dir" failed valid_body
  "\<lambda>sync b. wal_append crc b sync" "wal_compact crc"
  wf_rec rebuilds_table "\<lambda>r b. \<exists>lsn. b = encode_record r lsn" apply_rec for crc dir
  by unfold_locales (auto simp: valid_encoded rebuilds_table_snoc)

interpretation stbl: logged_table "live_in crc dir" "left_in crc dir" failed valid_body
  "\<lambda>sync b. wal_append crc b sync" "wal_compact crc"
  wf_rec rebuilds_table "\<lambda>r b. \<exists>lsn. b = encode_record r lsn" apply_rec "table_ok K" snapshot for crc dir K
  by unfold_locales (auto simp: rebuilds_table_snapshot)

text \<open>A run of the store: what it acknowledged, and where it ends.\<close>

datatype store_op = OpCommit Record bool | OpCompact "CompactStage \<Rightarrow> bool"

primrec op_rec :: "store_op \<Rightarrow> Record option" where
  "op_rec (OpCommit r sync) = Some r"
| "op_rec (OpCompact h) = None"

fun store_run :: "(bytes \<Rightarrow> u32) \<Rightarrow> store_op list \<Rightarrow> store \<Rightarrow> Record list \<times> store" where
  "store_run crc [] s = ([], s)"
| "store_run crc (OpCommit r sync # ops) s =
     (let (ok, s) = commit crc r sync s; (rs, s) = store_run crc ops s in (if ok then r # rs else rs, s))"
| "store_run crc (OpCompact h # ops) s = store_run crc ops (snd (store_compact crc h s))"

definition ops_ok :: "(JobId \<Rightarrow> string) \<Rightarrow> store_op list \<Rightarrow> bool" where
  "ops_ok K ops \<longleftrightarrow> list_all (\<lambda>x. case op_rec x of None \<Rightarrow> True | Some r \<Rightarrow> rec_ok K r) ops"

definition store_tracks :: "(bytes \<Rightarrow> u32) \<Rightarrow> path \<Rightarrow> (JobId \<Rightarrow> string) \<Rightarrow> Record set \<Rightarrow> nat \<Rightarrow> store \<Rightarrow> bool" where
  "store_tracks crc dir K A n s \<longleftrightarrow> swah.tracks crc dir A n (swal s) s \<and> table_ok K s \<and> length (jobs s) \<le> n"


lemma table_ok_swal [simp]: "table_ok K (t\<lparr>swal := w\<rparr>) = table_ok K t"
  by (simp add: table_ok_def)

lemma rebuilds_table_swal [simp]: "rebuilds_table L (t\<lparr>swal := w\<rparr>) = rebuilds_table L t"
  by (simp add: rebuilds_table_def)

lemma tracks_swal [simp]: "swah.tracks crc dir A n v (t\<lparr>swal := w\<rparr>) = swah.tracks crc dir A n v t"
  by (simp add: swah.tracks_def)

lemma length_update: "length (AList.update k v xs) \<le> Suc (length xs)"
  by (induction xs) auto

lemma length_apply: "length (jobs (apply_rec r s)) \<le> Suc (length (jobs s))"
  by (cases r) (auto simp: apply_rec.simps Let_def set_job_def length_update split: option.split)

lemma snapshot_length [simp]: "length (snapshot s) = length (jobs s)"
  by (simp add: snapshot_def retained_def)

lemma commit_st:
  "commit crc r sync s = (ok, s') \<Longrightarrow> \<exists>w. s' = (if ok then apply_rec r s else s)\<lparr>swal := w\<rparr>"
  by (cases "wal_append crc (encode_record r (next_lsn (swal s))) sync (swal s)")
    (auto simp: commit_def Let_def split: if_splits)

lemma table_tracks_commit:
  assumes "swah.tracks crc dir A n (swal s) s" "n + 1 < 2 ^ 64" "wf_rec r" "commit crc r sync s = (ok, s')"
  shows "if ok then swah.tracks crc dir A (Suc n) (swal s') s' \<and> same_table s' (apply_rec r s)
    else swah.tracks crc dir (insert r A) n (swal s') s' \<and> same_table s' s"
proof -
  let ?b = "encode_record r (next_lsn (swal s))"
  obtain w' where a: "wal_append crc ?b sync (swal s) = (ok, w')"
      and s': "s' = (if ok then (apply_rec r s)\<lparr>swal := w'\<rparr> else s\<lparr>swal := w'\<rparr>)"
    using assms(4) by (cases "wal_append crc ?b sync (swal s)") (auto simp: commit_def Let_def split: if_splits)
  have "if ok then swah.tracks crc dir A (Suc n) w' (apply_rec r s) else swah.tracks crc dir (insert r A) n w' s"
    by (rule swah.tracks_commit [OF assms(1,2,3) _ a]) blast
  then show ?thesis using s' by simp
qed

lemma store_tracks_commit:
  assumes "store_tracks crc dir K A n s" "n + 1 < 2 ^ 64" "rec_ok K r" "commit crc r sync s = (ok, s')"
  shows "if ok then store_tracks crc dir K A (Suc n) s' \<and> same_table s' (apply_rec r s)
    else store_tracks crc dir K (insert r A) n s' \<and> same_table s' s"
proof -
  obtain w where s': "s' = (if ok then apply_rec r s else s)\<lparr>swal := w\<rparr>" using commit_st [OF assms(4)] by blast
  have "length (jobs (apply_rec r s)) \<le> Suc n" "length (jobs s) \<le> n" "table_ok K (apply_rec r s)" "table_ok K s"
    using assms(1,3) length_apply [of r s] by (simp_all add: store_tracks_def table_ok_apply)
  then show ?thesis
    using table_tracks_commit [OF _ assms(2) rec_ok_wf [OF assms(3)] assms(4)] assms(1)
    by (auto simp: store_tracks_def s')
qed

lemma store_tracks_compact:
  assumes "store_tracks crc dir K A n s" "n < 2 ^ 64"
  shows "store_tracks crc dir K A n (snd (store_compact crc h s)) \<and> same_table (snd (store_compact crc h s)) s"
proof -
  obtain ok w' where c: "wal_compact crc h (snapshot s) (swal s) = (ok, w')" by fastforce
  have "swah.tracks crc dir A n w' s"
    by (rule stbl.tracks_compact [where K = K, OF _ _ _ assms(2) c]) (use assms(1) in \<open>simp_all add: store_tracks_def\<close>)
  then show ?thesis using assms(1) c by (simp add: store_compact_def store_tracks_def)
qed

definition refused :: "store_op list \<Rightarrow> Record set" where
  "refused ops = {r. \<exists>sync. OpCommit r sync \<in> set ops}"

lemma store_tracks_run:
  assumes "store_tracks crc dir K A n s" "n + length ops < 2 ^ 64" "ops_ok K ops" "store_run crc ops s = (rs, s')"
  shows "store_tracks crc dir K (A \<union> refused ops) (n + length ops) s' \<and> same_table s' (fold apply_rec rs s)"
  using assms
proof (induction crc ops s arbitrary: n A rs s' rule: store_run.induct)
  case (1 crc s)
  then show ?case by (simp add: refused_def)
next
  case (2 crc r sync ops s)
  obtain ok s1 where c: "commit crc r sync s = (ok, s1)" by fastforce
  obtain rs1 where r: "store_run crc ops s1 = (rs1, s')" and rs: "rs = (if ok then r # rs1 else rs1)"
    using 2(5) c by (auto simp: Let_def split: prod.splits if_splits)
  have k: "rec_ok K r" "ops_ok K ops" using 2(4) by (simp_all add: ops_ok_def)
  have st: "if ok then store_tracks crc dir K A (Suc n) s1 \<and> same_table s1 (apply_rec r s)
    else store_tracks crc dir K (insert r A) n s1 \<and> same_table s1 s"
    by (rule store_tracks_commit [OF 2(2) _ k(1) c]) (use 2(3) in simp)
  then have "store_tracks crc dir K (insert r A) (Suc n) s1"
    unfolding store_tracks_def by (auto split: if_splits elim!: swah.tracks_mono)
  from 2(1) [OF c [symmetric] refl this _ k(2) r] 2(3)
  have i: "store_tracks crc dir K (insert r A \<union> refused ops) (Suc n + length ops) s'"
    "same_table s' (fold apply_rec rs1 s1)" by simp_all
  have "insert r A \<union> refused ops = A \<union> refused (OpCommit r sync # ops)" by (auto simp: refused_def)
  moreover have "same_table (fold apply_rec rs1 s1) (fold apply_rec rs s)"
    using st rs same_table_fold [of s1 _ rs1] by (auto split: if_splits)
  ultimately show ?case using i same_table_trans by auto
next
  case (3 crc h ops s)
  have c: "store_tracks crc dir K A n (snd (store_compact crc h s))" "same_table (snd (store_compact crc h s)) s"
    using store_tracks_compact [OF 3(2), of h] 3(3) by simp_all
  have "refused (OpCompact h # ops) = refused ops" by (auto simp: refused_def)
  with 3(1) [OF c(1), of rs s'] 3(3-5) same_table_fold [OF c(2), of rs] show ?case
    by (auto simp: ops_ok_def store_tracks_def elim: same_table_trans swah.tracks_mono)
qed


lemma store_open_rebuilt:
  assumes od: "on_disk crc d dir L" and sc: "script d = []" and r: "rebuilds_table L t"
  shows "\<exists>s. store_open crc dir (empty_store (wal_new sb d)) = Some (True, s) \<and> same_table s t"
proof -
  obtain w' where o: "wal_open crc dir (wal_new sb d) = Some (True, L, w')"
    using wal_open_no_fault [of crc "wal_new sb d" dir L] od sc by auto
  obtain rs where rs: "encodes L rs" "\<forall>w. same_table (fold apply_rec rs (empty_store w)) t"
    using r by (auto simp: rebuilds_table_def)
  show ?thesis
    using o rs by (simp add: store_open_def replay_encoded [OF rs(1)])
qed

lemma fold_apply_swal: "fold apply_rec rs (s\<lparr>swal := w\<rparr>) = (fold apply_rec rs s)\<lparr>swal := w\<rparr>"
  by (induction rs arbitrary: s) simp_all

lemma table_ok_fold: "table_ok K s \<Longrightarrow> list_all (rec_ok K) rs \<Longrightarrow> table_ok K (fold apply_rec rs s)"
  by (induction rs arbitrary: s) (simp_all add: table_ok_apply)

lemma length_fold_apply: "length (jobs (fold apply_rec rs s)) \<le> length (jobs s) + length rs"
proof (induction rs arbitrary: s)
  case (Cons r rs)
  show ?case using Cons [of "apply_rec r s"] length_apply [of r s] by simp
qed simp

lemma table_opened:
  assumes od: "on_disk crc d dir L" and e: "encodes L rs"
    and cr: "current_readable d dir" and o: "store_open crc dir (empty_store (wal_new sb d)) = Some (True, s)"
  shows "swah.tracks crc dir {} (length L) (swal s) s"
    "\<exists>w'. s = (fold apply_rec rs (empty_store (wal_new sb d)))\<lparr>swal := w'\<rparr>"
proof -
  let ?e = "empty_store (wal_new sb d)"
  obtain ok bods w' where w: "wal_open crc dir (wal_new sb d) = Some (ok, bods, w')"
    using wal_open_defined [of crc dir "wal_new sb d"] by auto
  have ok: ok
    using o w by (auto simp: store_open_def elim!: bind_SomeE)
  with wal_open_effect [of crc "wal_new sb d" dir L ok bods w'] od cr w
  have L: "dir_of w' = dir" "bods = L" "live crc w' L" by simp_all
  then have s: "s = (fold apply_rec rs ?e)\<lparr>swal := w'\<rparr>"
    using o w by (simp add: store_open_def replay_encoded [OF e])
  have st: "same_table s (fold apply_rec rs (empty_store v))" for v
    using s by (simp add: empty_store_swal [of v "wal_new sb d"] fold_apply_swal)
  have "rebuilds_table L s" using e st same_table_sym unfolding rebuilds_table_def by blast
  then show "swah.tracks crc dir {} (length L) (swal s) s"
    using L s unfolding swah.tracks_def live_in_def by auto
  show "\<exists>w'. s = (fold apply_rec rs ?e)\<lparr>swal := w'\<rparr>" using s by blast
qed

lemma store_opened_tracks:
  assumes od: "on_disk crc d dir L" and e: "encodes L rs" and k: "list_all (rec_ok K) rs"
    and cr: "current_readable d dir" and o: "store_open crc dir (empty_store (wal_new sb d)) = Some (True, s)"
  shows "store_tracks crc dir K {} (length L) s \<and> same_table s (fold apply_rec rs (empty_store w))"
proof -
  let ?e = "empty_store (wal_new sb d)"
  obtain w' where s: "s = (fold apply_rec rs ?e)\<lparr>swal := w'\<rparr>" using table_opened(2) [OF od e cr o] by blast
  have "table_ok K s" using s table_ok_fold [OF table_ok_empty k] by simp
  moreover have "length (jobs s) \<le> length L"
    using s length_fold_apply [of rs ?e] e by (simp add: empty_store_def encodes_def list_all2_lengthD)
  moreover have "same_table s (fold apply_rec rs (empty_store w))"
    using s by (simp add: empty_store_swal [of w "wal_new sb d"] fold_apply_swal)
  ultimately show ?thesis
    using table_opened(1) [OF od e cr o] unfolding store_tracks_def by blast
qed


section \<open>Merging full copies\<close>

definition merge_copies :: "Job list \<Rightarrow> Job \<Rightarrow> Job" where
  "merge_copies js l = fold (\<lambda>j l. if job_advances l j then j else l) js l"

lemma find_merge_copies:
  "find i s = Some l \<Longrightarrow> \<forall>j \<in> set js. job_id j = i \<Longrightarrow>
     find i (fold apply_rec (map ReplicateRec js) s) = Some (merge_copies js l)"
  by (induction js arbitrary: s l) (simp_all add: find_apply_rec merge_copies_def)

lemma merge_copies_rank:
  "named_state (state l) \<Longrightarrow> \<forall>j \<in> set js. named_state (state j) \<Longrightarrow>
     named_state (state (merge_copies js l)) \<and> job_rank (merge_copies js l) = Max (job_rank ` insert l (set js))"
proof (induction js arbitrary: l)
  case (Cons j js)
  let ?l = "if job_advances l j then j else l"
  have n: "named_state (state ?l)" using Cons.prems by simp
  have r: "job_rank ?l = max (job_rank l) (job_rank j)"
    using Cons.prems job_advances_iff_rank [of l j] by (auto simp: max_def)
  have "job_rank (merge_copies js ?l) = Max (insert (job_rank ?l) (job_rank ` set js))"
    using Cons.IH [OF n] Cons.prems by simp
  also have "\<dots> = Max (job_rank ` insert l (set (j # js)))"
    unfolding r by (cases "js = []") (simp_all add: max.assoc)
  finally show ?case using Cons.IH [OF n] Cons.prems by (simp add: merge_copies_def)
qed (simp add: merge_copies_def)


section \<open>Properties\<close>

text \<open>
  C10. Crash consistency of the store: open a store on a log of encoded records, run any sequence of
  commits and compactions with any faults, stop anywhere and open again. The second open
  rebuilds the table the process had, which is the fold of all acknowledged records, or that
  table after one more record whose commit was requested. Compaction is invisible.
\<close>

theorem store_crash_consistent:
  assumes d: "on_disk crc d dir L" "encodes L rs" "list_all (rec_ok K) rs" "current_readable d dir"
    and o: "store_open crc dir (empty_store (wal_new sb d)) = Some (True, s)"
    and r: "ops_ok K ops" "length L + length ops < 2 ^ 64" "store_run crc ops s = (acked, s')"
  shows "\<exists>s2. store_open crc dir (empty_store (wal_new sb ((wdisk (swal s'))\<lparr>script := []\<rparr>))) = Some (True, s2) \<and>
    same_table s' (fold apply_rec (rs @ acked) (empty_store w)) \<and>
    (same_table s2 s' \<or> (\<exists>r sync. OpCommit r sync \<in> set ops \<and> same_table s2 (apply_rec r s')))"
proof -
  note t = store_opened_tracks [OF d o, of w]
  from store_tracks_run [OF conjunct1 [OF t] r(2,1,3)]
  have tr: "store_tracks crc dir K (refused ops) (length L + length ops) s'"
      and sm: "same_table s' (fold apply_rec acked s)" by simp_all
  obtain L' t' where L': "left_in crc dir (swal s') L'" "rebuilds_table L' t'"
      and t': "t' = s' \<or> (\<exists>r \<in> refused ops. t' = apply_rec r s')"
    using tr swah.tracks_left unfolding store_tracks_def by blast
  have "same_table s' (fold apply_rec (rs @ acked) (empty_store w))"
    using sm same_table_fold [OF conjunct2 [OF t], of acked] same_table_trans by simp
  moreover obtain s2 where "store_open crc dir (empty_store (wal_new sb ((wdisk (swal s'))\<lparr>script := []\<rparr>))) = Some (True, s2)"
      "same_table s2 t'"
    using store_open_rebuilt [OF on_disk_script [of crc "wdisk (swal s')" dir L' "[]"] _ L'(2), of sb] L'(1)
    by (auto simp: left_in_def)
  ultimately show ?thesis using t' by (auto simp: refused_def)
qed

definition sample_job :: Job where
  "sample_job = Job0\<lparr>idem_key := ''k'', url := ''u'', replicas := [\<lparr>addr_be = 1, port_be = 1\<rparr>, Endpoint0, Endpoint0]\<rparr>"

lemma sample_job_simps [simp]: "wf_job sample_job" "idem_key sample_job = ''k''" "job_id sample_job = JobId0"
  "state sample_job = Ready" "epoch sample_job = 1" "lease_seq sample_job = 0"
  using wf_job_states(1) by (simp_all add: sample_job_def wf_job_def Job0_def kMaxIdemKey_def kMaxUrl_def)

definition sample_store :: "Job \<Rightarrow> store" where
  "sample_store j = apply_rec (SubmitRec j) (empty_store (wal_new 100 (small_disk (\<lambda>b. 7) [] [])))"

lemma find_sample_store: "job_id j = JobId0 \<Longrightarrow> find JobId0 (sample_store j) = Some j"
  by (simp add: sample_store_def find_apply_rec)

theorem store_crash_consistent_witness:
  "\<exists>acked s s' s2. store_open (\<lambda>b. 7) [''d''] (empty_store (wal_new 100 (small_disk (\<lambda>b. 7) [] []))) = Some (True, s) \<and>
     store_run (\<lambda>b. 7) [OpCommit (SubmitRec sample_job) True, OpCompact (\<lambda>x. True)] s = (acked, s') \<and>
     store_open (\<lambda>b. 7) [''d''] (empty_store (wal_new 100 ((wdisk (swal s'))\<lparr>script := []\<rparr>))) = Some (True, s2) \<and>
     (same_table s2 s' \<or> same_table s2 (apply_rec (SubmitRec sample_job) s'))"
proof -
  let ?c = "\<lambda>b::bytes. 7 :: u32" and ?d = "small_disk (\<lambda>b. 7) [] []"
  let ?ops = "[OpCommit (SubmitRec sample_job) True, OpCompact (\<lambda>x. True)]"
  have od: "on_disk ?c ?d [''d''] []" by (rule small_disk_on_disk) simp_all
  have e: "encodes [] []" by (simp add: encodes_def)
  have cr: "current_readable ?d [''d'']" "script ?d = []" by (simp_all add: current_readable_def small_disk_def)
  have "rebuilds_table [] (empty_store (wal_new 100 ?d))"
    unfolding rebuilds_table_def using e
    by (intro exI [of _ "[]"]) (simp add: empty_store_def same_table_def)
  from store_open_rebuilt [OF od cr(2) this, of 100] obtain s
    where s: "store_open ?c [''d''] (empty_store (wal_new 100 ?d)) = Some (True, s)" by blast
  obtain acked s' where r: "store_run ?c ?ops s = (acked, s')" by fastforce
  have k: "ops_ok (\<lambda>i. ''k'') ?ops" by (simp add: ops_ok_def)
  from store_crash_consistent [OF od e _ cr(1) s k _ r] show ?thesis
    using s r by (simp) blast
qed

text \<open>
  C19. What records do to a job, over the whole table: no record but a submission lowers an epoch; no
  transition record (lease, done, expire, dead letter, takeover) changes the state, body or lease
  number of a Done job or moves a dead letter anywhere but to Done; and a full copy of an epoch not above the
  local one leaves Done alone. Submissions, and full copies of a higher epoch, may replace a Done job.
\<close>

theorem apply_monotone:
  assumes "find i s = Some j"
  shows "\<exists>j'. find i (apply_rec r s) = Some j' \<and>
    ((\<exists>x. r = SubmitRec x) \<or> epoch j \<le> epoch j') \<and>
    (state j = Done \<and> \<not> full_copy r \<longrightarrow> state j' = Done \<and> body j' = body j \<and> lease_seq j' = lease_seq j) \<and>
    (state j = DeadLetter \<and> \<not> full_copy r \<longrightarrow> state j' \<in> {DeadLetter, Done}) \<and>
    (\<forall>x. state j = Done \<and> r = ReplicateRec x \<and> epoch x \<le> epoch j \<longrightarrow> state j' = Done)"
proof (cases "i = rec_job r")
  case True
  obtain j' where j': "job_step r (Some j) = Some j'" using job_step_None [of r "Some j"] by fastforce
  show ?thesis
    using True assms j' job_step_epoch [OF _ j'] job_step_done [OF _ _ j'] job_step_dead [OF _ _ j']
      job_step_replicate_done [of j _ j']
    by (intro exI [of _ j']) (auto simp: find_apply_rec)
qed (use assms in \<open>simp add: find_apply_rec\<close>)

theorem apply_monotone_witness:
  "let s = sample_store (sample_job\<lparr>state := Done\<rparr>);
       s' = apply_rec (LeaseRec JobId0 1 1 9) s
   in \<exists>j j'. find JobId0 s = Some j \<and> find JobId0 s' = Some j' \<and> state j' = Done \<and> lease_seq j' = lease_seq j"
proof -
  let ?s = "sample_store (sample_job\<lparr>state := Done\<rparr>)"
  have f: "find JobId0 ?s = Some (sample_job\<lparr>state := Done\<rparr>)"
    by (simp add: find_sample_store)
  from apply_monotone [OF f, of "LeaseRec JobId0 1 1 9"] f show ?thesis by (auto simp: Let_def)
qed

text \<open>
  C20. Replicas converge: from a table that holds the job, full copies of it may arrive in any order,
  any number of times; epoch, state and lease number of the result are the same.
\<close>

theorem copies_converge:
  assumes "find i s = Some l" "named_state (state l)" "\<forall>j \<in> set js. job_id j = i \<and> named_state (state j)"
    and "set js' = set js"
  shows "\<exists>a b. find i (fold apply_rec (map ReplicateRec js) s) = Some a \<and>
    find i (fold apply_rec (map ReplicateRec js') s) = Some b \<and>
    epoch a = epoch b \<and> state a = state b \<and> lease_seq a = lease_seq b"
proof -
  let ?a = "merge_copies js l" and ?b = "merge_copies js' l"
  have "named_state (state ?a)" "named_state (state ?b)" "job_rank ?a = job_rank ?b"
    using merge_copies_rank [of l js] merge_copies_rank [of l js'] assms by simp_all
  from job_rank_eq [OF this] show ?thesis
    using find_merge_copies [OF assms(1), of js] find_merge_copies [OF assms(1), of js'] assms(3,4) by simp
qed

theorem copies_converge_witness:
  "let s = sample_store sample_job;
       x = sample_job\<lparr>state := Leased, lease_seq := 1\<rparr>; y = sample_job\<lparr>epoch := 2\<rparr>
   in \<exists>a b. find JobId0 (fold apply_rec (map ReplicateRec [x, y]) s) = Some a \<and>
        find JobId0 (fold apply_rec (map ReplicateRec [y, x, y]) s) = Some b \<and> epoch a = epoch b \<and> state a = state b"
proof -
  let ?s = "sample_store sample_job"
  let ?x = "sample_job\<lparr>state := Leased, lease_seq := 1\<rparr>" and ?y = "sample_job\<lparr>epoch := 2\<rparr>"
  have "find JobId0 ?s = Some sample_job" by (simp add: find_sample_store)
  from copies_converge [OF this, of "[?x, ?y]" "[?y, ?x, ?y]"] show ?thesis
    by (auto simp: Let_def named_state_def)
qed

text \<open>
  C34. Done is not absolute against full copies: a copy of a higher epoch replaces a Done job by
  whatever state it carries.
\<close>

theorem newer_copy_replaces_done:
  assumes "find (job_id x) s = Some j" "state j = Done" "epoch j < epoch x"
  shows "find (job_id x) (apply_rec (ReplicateRec x) s) = Some x"
  using assms by (simp add: find_apply_rec job_advances_def)

theorem newer_copy_replaces_done_witness:
  "let s = sample_store (sample_job\<lparr>state := Done\<rparr>);
       x = sample_job\<lparr>epoch := 2\<rparr>
   in find (job_id x) (apply_rec (ReplicateRec x) s) = Some x \<and> state x = Ready"
proof -
  let ?j = "sample_job\<lparr>state := Done\<rparr>" and ?x = "sample_job\<lparr>epoch := 2\<rparr>"
  have "find (job_id ?x) (sample_store ?j) = Some ?j" by (simp add: find_sample_store)
  from newer_copy_replaces_done [OF this] show ?thesis by (simp add: Let_def)
qed

text \<open>
  C36. Lease records are not ordered within an epoch: a delayed lease of the same epoch takes a job
  that is not terminal back to the older lease number, also after that lease has expired.
\<close>

theorem delayed_lease_regresses:
  assumes "find i s = Some j" "state j \<in> {Ready, Leased}" "sq \<le> lease_seq j"
  shows "\<exists>j'. find i (apply_rec (LeaseRec i (epoch j) sq w) s) = Some j' \<and> state j' = Leased \<and>
    lease_seq j' = sq \<and> (sq < lease_seq j \<longrightarrow> job_advances j' j)"
  using assms by (auto simp: find_apply_rec job_advances_def)

theorem delayed_lease_regresses_witness:
  "let s = sample_store (sample_job\<lparr>lease_seq := 2\<rparr>)
   in \<exists>j'. find JobId0 (apply_rec (LeaseRec JobId0 1 1 9) s) = Some j' \<and> state j' = Leased \<and> lease_seq j' = 1"
proof -
  let ?s = "sample_store (sample_job\<lparr>lease_seq := 2\<rparr>)"
  have "find JobId0 ?s = Some (sample_job\<lparr>lease_seq := 2\<rparr>)" by (simp add: find_sample_store)
  from delayed_lease_regresses [OF this, of 1 9] show ?thesis
    by (auto simp: Let_def)
qed

end
