(* ===== verification/Ring.thy ===== *)
theory Ring
  imports Wire "HOL-Library.Product_Lexorder" "HOL-Library.Multiset"
begin

text \<open>
  The consistent-hash ring of \<^verbatim>\<open>src/src/ring.h\<close> and \<^verbatim>\<open>src/src/ring.cc\<close>, and the two liveness views built
  on it: \<^verbatim>\<open>StaticMembership\<close> and \<^verbatim>\<open>src/src/swim_membership.h\<close>. The gossip protocol itself is not part of
  the sources; its \<open>snapshot\<close> and \<open>state_of\<close> are arguments.
\<close>

section \<open>The ring\<close>

text \<open>splitmix64, with the wrap-around of 64-bit arithmetic.\<close>

definition mix :: "u64 \<Rightarrow> u64" where
  "mix x =
    (let x = x + 0x9E3779B97F4A7C15;
         x = (x XOR drop_bit 30 x) * 0xBF58476D1CE4E5B9;
         x = (x XOR drop_bit 27 x) * 0x94D049BB133111EB
     in x XOR drop_bit 31 x)"

record Pos =
  pos :: u64
  node :: Endpoint

text \<open>The comparison of \<open>std::sort\<close>: by position, then by endpoint key.\<close>

definition pos_order :: "Pos \<Rightarrow> u64 \<times> u64" where
  "pos_order p = (pos p, ekey (node p))"

definition positions :: "Endpoint list \<Rightarrow> Pos list" where
  "positions alive = sort_key pos_order (map (\<lambda>n. \<lparr>pos = mix (ekey n), node = n\<rparr>) alive)"

definition hash_key :: "string \<Rightarrow> u64" where
  "hash_key k = foldl (\<lambda>h c. (h XOR ucast (byte_of_char c)) * 0x100000001B3) 0xCBF29CE484222325 k"

fun successor :: "Pos list \<Rightarrow> u64 \<Rightarrow> nat \<Rightarrow> nat" where
  "successor [] kh start = start"
| "successor (p # ps) kh start = (if pos p < kh then successor ps kh (start + 1) else start)"

definition replica_set :: "string \<Rightarrow> Endpoint list \<Rightarrow> Endpoint list" where
  "replica_set idem_key alive =
    (let out = [Endpoint0, Endpoint0, Endpoint0] in
     if alive = [] then out
     else
      (let ps = positions alive;
           kh = hash_key idem_key;
           start = successor ps kh 0;
           start = (if start = length ps then 0 else start)
       in fold (\<lambda>i out. out[i := node (ps ! ((start + i) mod length ps))]) [0..<min (length ps) 3] out))"

definition owner_for :: "string \<Rightarrow> Endpoint list \<Rightarrow> Endpoint" where
  "owner_for idem_key alive = replica_set idem_key alive ! 0"


section \<open>Liveness views\<close>

text \<open>The interface \<open>Membership\<close>, as the three answers it gives.\<close>

record membership =
  m_alive :: "Endpoint list"
  m_members :: "Endpoint list"
  m_is_alive :: "Endpoint \<Rightarrow> bool"

record StaticMembership =
  nodes_of :: "Endpoint list"
  members_of :: "Endpoint list"

definition StaticMembership_new :: "Endpoint list \<Rightarrow> StaticMembership" where
  "StaticMembership_new ns = \<lparr>nodes_of = ns, members_of = ns\<rparr>"

text \<open>\<open>std::find\<close> against the end, then \<open>push_back\<close>.\<close>

definition push_new :: "'a \<Rightarrow> 'a list \<Rightarrow> 'a list" where
  "push_new x xs = (if x \<in> set xs then xs else xs @ [x])"

definition static_view :: "StaticMembership \<Rightarrow> membership" where
  "static_view s = \<lparr>m_alive = nodes_of s, m_members = members_of s, m_is_alive = (\<lambda>e. e \<in> set (nodes_of s))\<rparr>"

definition StaticMembership_set :: "Endpoint list \<Rightarrow> StaticMembership \<Rightarrow> StaticMembership" where
  "StaticMembership_set ns s = s\<lparr>members_of := fold push_new ns (members_of s), nodes_of := ns\<rparr>"

text \<open>Host and network order of a port on a little-endian machine.\<close>

definition htons :: "u16 \<Rightarrow> u16" where
  "htons p = push_bit 8 p OR drop_bit 8 p"

abbreviation ntohs :: "u16 \<Rightarrow> u16" where
  "ntohs \<equiv> htons"

definition swim_endpoint :: "Endpoint \<Rightarrow> Endpoint" where
  "swim_endpoint e = e\<lparr>port_be := htons (ntohs (port_be e) + 1)\<rparr>"

definition data_endpoint :: "Endpoint \<Rightarrow> Endpoint" where
  "data_endpoint e = e\<lparr>port_be := htons (ntohs (port_be e) - 1)\<rparr>"

text \<open>
  \<open>taut::Swim\<close> as its two queries, with \<open>True\<close> for the state Alive: the members it lists and the state
  of one endpoint.
\<close>

record swim =
  snapshot_of :: "(Endpoint \<times> bool) list"
  state_alive :: "Endpoint \<Rightarrow> bool"

record SwimMembership =
  self_of :: Endpoint
  configured_of :: "Endpoint list"

definition SwimMembership_new :: "Endpoint \<Rightarrow> Endpoint list \<Rightarrow> SwimMembership" where
  "SwimMembership_new self_data configured_data =
     \<lparr>self_of = self_data, configured_of = fold push_new configured_data [self_data]\<rparr>"

definition swim_alive :: "swim \<Rightarrow> SwimMembership \<Rightarrow> Endpoint list" where
  "swim_alive sw m =
     fold (\<lambda>(ep, alive) out. if alive then push_new (data_endpoint ep) out else out) (snapshot_of sw) [self_of m]"

definition swim_view :: "swim \<Rightarrow> SwimMembership \<Rightarrow> membership" where
  "swim_view sw m = \<lparr>m_alive = swim_alive sw m, m_members = configured_of m,
     m_is_alive = (\<lambda>e. e = self_of m \<or> state_alive sw (swim_endpoint e))\<rparr>"


section \<open>The replica set as a rotated order\<close>

text \<open>
  The clockwise order from a key: nodes at or after the key's hash come first, each part in ring
  order.
\<close>

definition clockwise :: "string \<Rightarrow> Endpoint \<Rightarrow> bool \<times> u64 \<times> u64" where
  "clockwise k n = (mix (ekey n) < hash_key k, mix (ekey n), ekey n)"

lemma clockwise_inj: "inj (clockwise k)"
  by (rule injI) (simp add: clockwise_def ekey_inj)

lemma successor_takeWhile: "successor ps kh n = n + length (takeWhile (\<lambda>p. pos p < kh) ps)"
  by (induction ps arbitrary: n) auto

lemma fold_update_init: "m \<le> length out \<Longrightarrow> fold (\<lambda>i out. out[i := f i]) [0..<m] out = map f [0..<m] @ drop m out"
proof (induction m)
  case (Suc m)
  then show ?case by (simp add: list_update_append Cons_nth_drop_Suc [symmetric])
qed simp

lemma map_rotate:
  assumes "start < length ps" "m \<le> length ps"
  shows "map (\<lambda>i. ps ! ((start + i) mod length ps)) [0..<m] = take m (drop start ps @ take start ps)"
proof (rule nth_equalityI)
  fix i assume "i < length (map (\<lambda>i. ps ! ((start + i) mod length ps)) [0..<m])"
  then have i: "i < m" by simp
  show "map (\<lambda>i. ps ! ((start + i) mod length ps)) [0..<m] ! i = take m (drop start ps @ take start ps) ! i"
  proof (cases "start + i < length ps")
    case True
    then have "i < length ps - start" by simp
    then show ?thesis using i True by (simp add: nth_append)
  next
    case False
    then have "(start + i) mod length ps = start + i - length ps"
      using assms i by (simp add: le_mod_geq mod_if)
    moreover have "\<not> i < length ps - start" "i - (length ps - start) = start + i - length ps" "start + i - length ps < start"
      using False assms i by simp_all
    ultimately show ?thesis using i assms by (simp add: nth_append)
  qed
qed (use assms in simp)

definition ring_walk :: "string \<Rightarrow> Endpoint list \<Rightarrow> Endpoint list" where
  "ring_walk k alive = sort_key (clockwise k) alive"

lemma positions_facts:
  "mset (map node (positions alive)) = mset alive" "length (positions alive) = length alive"
  "p \<in> set (positions alive) \<Longrightarrow> pos p = mix (ekey (node p))"
  "sorted (map pos_order (positions alive))"
proof -
  show "mset (map node (positions alive)) = mset alive"
    by (simp only: mset_map positions_def mset_sort) (simp add: multiset.map_comp comp_def)
qed (auto simp: positions_def)

lemma positions_split:
  assumes "sorted (map pos_order ps)" "p \<in> set (dropWhile (\<lambda>p. pos p < kh) ps)"
  shows "\<not> pos p < kh"
  using assms
proof (induction ps)
  case (Cons q ps)
  show ?case
  proof (cases "pos q < kh")
    case False
    then have "p = q \<or> pos_order q \<le> pos_order p" using Cons.prems by auto
    then show ?thesis using False by (auto simp: pos_order_def)
  qed (use Cons in simp)
qed simp

lemma sorted_map_weaken:
  assumes "sorted (map f xs)" "\<And>x y. x \<in> set xs \<Longrightarrow> y \<in> set xs \<Longrightarrow> f x \<le> f y \<Longrightarrow> g x \<le> g y"
  shows "sorted (map g xs)"
  using assms by (induction xs) auto

lemma rotated_sorted:
  fixes k and alive
  defines "ps \<equiv> positions alive"
  defines "W \<equiv> dropWhile (\<lambda>p. pos p < hash_key k) ps @ takeWhile (\<lambda>p. pos p < hash_key k) ps"
  shows "sort_key (clockwise k) alive = map node W"
proof (rule sort_key_inj_key_eq)
  let ?lo = "takeWhile (\<lambda>p. pos p < hash_key k) ps" and ?hi = "dropWhile (\<lambda>p. pos p < hash_key k) ps"
  have ps: "ps = ?lo @ ?hi" by simp
  have "mset W = mset (?lo @ ?hi)" unfolding W_def mset_append by (rule add.commute)
  then have "mset W = mset ps" by (simp only: ps [symmetric])
  then show "mset alive = mset (map node W)" using positions_facts(1) [of alive] by (simp add: ps_def)
  show "inj_on (clockwise k) (set alive)" using clockwise_inj inj_on_subset by blast
  have "sorted (map pos_order (?lo @ ?hi))" using positions_facts(4) [of alive] by (simp add: ps_def)
  then have s: "sorted (map pos_order ?lo)" "sorted (map pos_order ?hi)"
    by (simp_all only: map_append sorted_append)
  have hi: "pos p \<ge> hash_key k \<and> pos p = mix (ekey (node p))" if "p \<in> set ?hi" for p
    using positions_split [OF positions_facts(4), of p "hash_key k" alive] that positions_facts(3) [of p alive]
    by (auto simp: ps_def dest: set_dropWhileD)
  have lo: "pos p < hash_key k \<and> pos p = mix (ekey (node p))" if "p \<in> set ?lo" for p
    using set_takeWhileD [OF that] positions_facts(3) [of p alive] by (simp add: ps_def)
  have "sorted (map (clockwise k \<circ> node) ?hi)"
  proof (rule sorted_map_weaken [OF s(2)])
    fix x y assume "x \<in> set ?hi" "y \<in> set ?hi" "pos_order x \<le> pos_order y"
    then show "(clockwise k \<circ> node) x \<le> (clockwise k \<circ> node) y"
      using hi [of x] hi [of y] by (auto simp: clockwise_def pos_order_def)
  qed
  moreover have "sorted (map (clockwise k \<circ> node) ?lo)"
  proof (rule sorted_map_weaken [OF s(1)])
    fix x y assume "x \<in> set ?lo" "y \<in> set ?lo" "pos_order x \<le> pos_order y"
    then show "(clockwise k \<circ> node) x \<le> (clockwise k \<circ> node) y"
      using lo [of x] lo [of y] by (auto simp: clockwise_def pos_order_def)
  qed
  moreover have "clockwise k (node x) \<le> clockwise k (node y)" if "x \<in> set ?hi" "y \<in> set ?lo" for x y
    using hi [OF that(1)] lo [OF that(2)] by (auto simp: clockwise_def)
  ultimately show "sorted (map (clockwise k) (map node W))"
    unfolding W_def by (simp add: sorted_append)
qed

lemma take_pad: "take (min (length xs) 3) xs @ drop (min (length xs) 3) [e, e, e] = take 3 (xs @ [e, e, e])"
proof -
  have "[e, e, e] = replicate 3 e" by (simp add: numeral_3_eq_3)
  then show ?thesis by (simp only:) (auto simp: min_def)
qed

lemma replica_set_walk: "replica_set k alive = take 3 (ring_walk k alive @ [Endpoint0, Endpoint0, Endpoint0])"
proof (cases "alive = []")
  case False
  let ?ps = "positions alive" and ?lo = "takeWhile (\<lambda>p. pos p < hash_key k) (positions alive)"
  let ?s = "if length ?lo = length ?ps then 0 else length ?lo"
  let ?out = "[Endpoint0, Endpoint0, Endpoint0]" and ?m = "min (length ?ps) 3"
  have n: "?s < length ?ps" using False length_takeWhile_le [of "\<lambda>p. pos p < hash_key k" ?ps]
    by (auto simp: positions_facts(2) le_neq_implies_less)
  have w: "drop ?s ?ps @ take ?s ?ps = dropWhile (\<lambda>p. pos p < hash_key k) ?ps @ ?lo"
  proof (cases "length ?lo = length ?ps")
    case True
    then have lo: "?lo = ?ps" by (metis takeWhile_eq_take take_all order_refl)
    have "dropWhile (\<lambda>p. pos p < hash_key k) ?ps = []" by (simp only: dropWhile_eq_drop True drop_all order_refl)
    then show ?thesis by (simp only: lo simp_thms if_True drop_0 take_0 append_Nil append_Nil2)
  qed (simp add: dropWhile_eq_drop takeWhile_eq_take [symmetric])
  have "replica_set k alive = fold (\<lambda>i out. out[i := node (?ps ! ((?s + i) mod length ?ps))]) [0..<?m] ?out"
    using False by (simp add: replica_set_def Let_def successor_takeWhile)
  also have "\<dots> = map (\<lambda>i. node (?ps ! ((?s + i) mod length ?ps))) [0..<?m] @ drop ?m ?out"
    by (rule fold_update_init) simp
  also have "map (\<lambda>i. node (?ps ! ((?s + i) mod length ?ps))) [0..<?m] = map node (take ?m (drop ?s ?ps @ take ?s ?ps))"
    by (subst map_rotate [OF n, symmetric]) (simp_all add: comp_def)
  also have "\<dots> = take ?m (ring_walk k alive)"
    unfolding w ring_walk_def rotated_sorted by (simp only: take_map)
  also have "take ?m (ring_walk k alive) @ drop ?m ?out = take 3 (ring_walk k alive @ ?out)"
    using take_pad [of "ring_walk k alive" Endpoint0] by (simp add: ring_walk_def positions_facts(2))
  finally show ?thesis .
qed (simp add: replica_set_def ring_walk_def)


lemma ring_walk_set [simp]: "set (ring_walk k alive) = set alive" "length (ring_walk k alive) = length alive"
  "distinct (ring_walk k alive) = distinct alive"
  by (simp_all add: ring_walk_def)

lemma ring_walk_hd_least:
  assumes "alive \<noteq> []"
  shows "hd (ring_walk k alive) \<in> set alive \<and> (\<forall>n \<in> set alive. clockwise k (hd (ring_walk k alive)) \<le> clockwise k n)"
proof -
  have ne: "ring_walk k alive \<noteq> []" using assms by (metis length_0_conv ring_walk_set(2))
  have "sorted (map (clockwise k) (ring_walk k alive))" by (simp add: ring_walk_def)
  then have "\<forall>n \<in> set (ring_walk k alive). clockwise k (hd (ring_walk k alive)) \<le> clockwise k n"
    using ne by (cases "ring_walk k alive") auto
  then show ?thesis using hd_in_set [OF ne] by simp
qed

lemma owner_for_hd: "alive \<noteq> [] \<Longrightarrow> owner_for k alive = hd (ring_walk k alive)"
proof -
  assume a: "alive \<noteq> []"
  then have "ring_walk k alive \<noteq> []" by (metis length_0_conv ring_walk_set(2))
  then show ?thesis using a by (simp add: owner_for_def replica_set_walk hd_conv_nth nth_append)
qed


section \<open>Liveness views\<close>

lemma htons_htons [simp]: "htons (htons p) = p"
  by (rule bit_word_eqI) (auto simp: htons_def bit_simps)

lemma data_swim_endpoint [simp]: "data_endpoint (swim_endpoint e) = e" "swim_endpoint (data_endpoint e) = e"
  by (simp_all add: data_endpoint_def swim_endpoint_def)

lemma push_new_facts [simp]: "distinct xs \<Longrightarrow> distinct (push_new x xs)" "set (push_new x xs) = insert x (set xs)"
  by (auto simp: push_new_def)

lemma fold_push_new: "distinct acc \<Longrightarrow> distinct (fold push_new xs acc)" "set (fold push_new xs acc) = set xs \<union> set acc"
  by (induction xs arbitrary: acc) auto

lemma swim_alive_facts:
  "distinct (swim_alive sw m)"
  "set (swim_alive sw m) = insert (self_of m) (data_endpoint ` {ep. (ep, True) \<in> set (snapshot_of sw)})"
proof -
  let ?f = "\<lambda>(ep, alive) out. if alive then push_new (data_endpoint ep) out else out"
  have "distinct acc \<Longrightarrow> distinct (fold ?f xs acc)" for xs acc
  proof (induction xs arbitrary: acc)
    case (Cons x xs)
    show ?case using Cons.IH [of "?f x acc"] Cons.prems by (cases x) simp
  qed simp
  then show "distinct (swim_alive sw m)" by (simp add: swim_alive_def)
  have "set (fold ?f xs acc) = set acc \<union> data_endpoint ` {ep. (ep, True) \<in> set xs}" for xs acc
  proof (induction xs arbitrary: acc)
    case (Cons x xs)
    have "{ep. (ep, True) \<in> set (x # xs)} =
        (if snd x then insert (fst x) {ep. (ep, True) \<in> set xs} else {ep. (ep, True) \<in> set xs})"
      by (cases x) auto
    then show ?case using Cons by (cases x) (simp del: set_simps)
  qed simp
  then show "set (swim_alive sw m) = insert (self_of m) (data_endpoint ` {ep. (ep, True) \<in> set (snapshot_of sw)})"
    by (simp add: swim_alive_def)
qed


section \<open>Properties\<close>

text \<open>
  C22. The replica set is the first three nodes in clockwise order from the key, padded with empty
  endpoints: the sort, the search for the successor and the wrapped indexing compute a prefix of
  one sorted list.
\<close>

theorem replica_set_clockwise:
  "replica_set k alive = take 3 (sort_key (clockwise k) alive @ [Endpoint0, Endpoint0, Endpoint0])"
  using replica_set_walk by (simp add: ring_walk_def)

text \<open>
  C23. Consistent hashing: the owner of a key does not depend on the order in which the nodes are
  listed, and removing nodes other than the owner does not move the key.
\<close>

theorem owner_stable:
  assumes "owner_for k alive \<in> set alive'" "set alive' \<subseteq> set alive"
  shows "owner_for k alive' = owner_for k alive"
proof -
  have ne: "alive' \<noteq> []" "alive \<noteq> []" using assms by auto
  let ?o = "hd (ring_walk k alive)" and ?o' = "hd (ring_walk k alive')"
  note a = ring_walk_hd_least [OF ne(1), of k] ring_walk_hd_least [OF ne(2), of k]
  have "clockwise k ?o' \<le> clockwise k ?o" "clockwise k ?o \<le> clockwise k ?o'"
    using a assms by (auto simp: owner_for_hd [OF ne(2)])
  then have "?o' = ?o" using injD [OF clockwise_inj [of k]] by (metis order_antisym)
  then show ?thesis by (simp add: owner_for_hd [OF ne(1)] owner_for_hd [OF ne(2)])
qed

theorem owner_stable_witness:
  "\<exists>o' \<in> {Endpoint0, Endpoint0\<lparr>port_be := 1\<rparr>}. owner_for ''k'' [Endpoint0, Endpoint0\<lparr>port_be := 1\<rparr>] = o' \<and>
     owner_for ''k'' [o'] = o'"
proof -
  let ?l = "[Endpoint0, Endpoint0\<lparr>port_be := 1\<rparr>]"
  have "owner_for ''k'' ?l \<in> set ?l"
    using ring_walk_hd_least [of ?l "''k''"] owner_for_hd [of ?l "''k''"] by simp
  with owner_stable [of "''k''" ?l "[owner_for ''k'' ?l]"] show ?thesis by simp
qed

text \<open>
  C24. What a submit relies on: from a list of distinct live nodes the replica set has three slots;
  the filled ones are distinct live nodes, as many as there are nodes up to three, and the rest
  are empty.
\<close>

theorem replica_set_members:
  assumes "distinct alive"
  shows "length (replica_set k alive) = 3 \<and>
    (let n = min 3 (length alive) in
       distinct (take n (replica_set k alive)) \<and> set (take n (replica_set k alive)) \<subseteq> set alive \<and>
       (\<forall>i \<in> {n..<3}. replica_set k alive ! i = Endpoint0))"
proof -
  let ?w = "ring_walk k alive"
  have l: "length (replica_set k alive) = 3" by (simp add: replica_set_walk)
  have t: "take (min 3 (length alive)) (replica_set k alive) = take 3 ?w"
    by (simp add: replica_set_walk min_def)
  have "replica_set k alive ! i = Endpoint0" if "min 3 (length alive) \<le> i" "i < 3" for i
  proof -
    have "i - length alive < 3" "length alive \<le> i" using that by simp_all
    then have "[Endpoint0, Endpoint0, Endpoint0] ! (i - length alive) = Endpoint0"
      by (auto simp: less_Suc_eq numeral_3_eq_3)
    then show ?thesis using that \<open>length alive \<le> i\<close> by (simp add: replica_set_walk nth_append)
  qed
  moreover have "set (take 3 ?w) \<subseteq> set alive" using set_take_subset [of 3 ?w] by simp
  ultimately show ?thesis using l t assms by (auto simp: Let_def)
qed

theorem replica_set_members_witness:
  "distinct (take 2 (replica_set ''k'' [Endpoint0, Endpoint0\<lparr>port_be := 1\<rparr>])) \<and>
   replica_set ''k'' [Endpoint0, Endpoint0\<lparr>port_be := 1\<rparr>] ! 2 = Endpoint0"
  using replica_set_members [of "[Endpoint0, Endpoint0\<lparr>port_be := 1\<rparr>]" "''k''"]
  by (auto simp: Let_def Endpoint0_def numeral_2_eq_2)

text \<open>
  C30. The gossip view: with a gossip layer whose listing agrees with its answers, \<open>alive\<close> has no
  duplicates, contains the node itself and lists only nodes that \<open>is_alive\<close> accepts; the ownership
  membership has no duplicates, contains the node and the configured peers, and no gossip changes
  it.
\<close>

theorem swim_view_sound:
  assumes "\<forall>ep. (ep, True) \<in> set (snapshot_of sw) \<longrightarrow> state_alive sw ep"
  shows "let v = swim_view sw (SwimMembership_new self peers) in
    distinct (m_alive v) \<and> self \<in> set (m_alive v) \<and> (\<forall>e \<in> set (m_alive v). m_is_alive v e) \<and>
    distinct (m_members v) \<and> set (m_members v) = insert self (set peers) \<and>
    m_members v = m_members (swim_view sw' (SwimMembership_new self peers))"
  using assms fold_push_new [where acc = "[self]" and xs = peers] swim_alive_facts [of sw "SwimMembership_new self peers"]
  by (auto simp: Let_def swim_view_def SwimMembership_new_def)

theorem swim_view_sound_witness:
  "let sw = \<lparr>snapshot_of = [(Endpoint0\<lparr>port_be := 1\<rparr>, True)], state_alive = (\<lambda>e. e = Endpoint0\<lparr>port_be := 1\<rparr>)\<rparr>;
       v = swim_view sw (SwimMembership_new Endpoint0 [])
   in (\<forall>e \<in> set (m_alive v). m_is_alive v e) \<and> Endpoint0 \<in> set (m_alive v)"
  using swim_view_sound [of "\<lparr>snapshot_of = [(Endpoint0\<lparr>port_be := 1\<rparr>, True)], state_alive = (\<lambda>e. e = Endpoint0\<lparr>port_be := 1\<rparr>)\<rparr>" Endpoint0 "[]"]
  by (simp add: Let_def)

end
