(* ===== verification/Queue.thy ===== *)
theory Queue
  imports Rpc Store Ring
begin

text \<open>
  The queue protocol: \<^verbatim>\<open>src/src/queue_node.h\<close> and \<^verbatim>\<open>src/src/queue_node.cc\<close>. Callbacks are values: a client's
  callback is the token of its request, answered by an entry of \<open>out\<close>; a response callback is a
  value of \<open>cont\<close> holding what the C++ lambda captures; the shared state of a quorum commit is an
  entry of \<open>qstates\<close>. A handler maps a node, the pair of the RPC layer and of the queue's own state,
  to a node.
\<close>

section \<open>Statuses\<close>

definition kCreated :: u32 where "kCreated = 0"
definition kDuplicate :: u32 where "kDuplicate = 1"
definition kStaleEpoch :: u32 where "kStaleEpoch = 2"
definition kNoQuorum :: u32 where "kNoQuorum = 3"
definition kInvalid :: u32 where "kInvalid = 4"
definition kUnknownJob :: u32 where "kUnknownJob = 5"
definition kNotOwner :: u32 where "kNotOwner = 6"
definition kNotLeased :: u32 where "kNotLeased = 7"
definition kNoJob :: u32 where "kNoJob = 8"


section \<open>State\<close>

record NodeConfig =
  self :: Endpoint
  data_dir :: path
  default_visibility_ms :: u32
  default_max_attempts :: u32
  rpc_timeout :: nat
  repair_interval :: nat

record SubmitParams =
  p_idem_key :: string
  p_url :: string
  p_body :: bytes
  p_visibility_ms :: u32
  p_max_attempts :: u32

record LeaseGrant =
  g_id :: JobId
  g_url :: string
  g_body :: bytes
  g_idem_key :: string
  g_epoch :: u32
  g_lease_seq :: u32
  g_visibility_ms :: u32
  g_attempt :: u32

definition LeaseGrant0 :: LeaseGrant where
  "LeaseGrant0 = \<lparr>g_id = JobId0, g_url = [], g_body = [], g_idem_key = [], g_epoch = 0, g_lease_seq = 0,
     g_visibility_ms = 0, g_attempt = 0\<rparr>"

type_synonym token = nat

text \<open>
  A \<open>SubmitCb\<close> or \<open>AckCb\<close> is a client's, or the one a handler makes to answer a forwarded request.
\<close>

datatype reply_cb = Client token | Remote ReqCtx

datatype quorum_cb = NoDone | LeaseDone JobId token | AckDone JobId reply_cb

datatype cont =
    FwdSubmitCont token
  | StatusCont JobId "Endpoint list" nat "Job option" token
  | ReplicateCont JobId nat
  | ApplyCont JobId nat nat
  | FwdAckCont token
  | ClaimCont JobId Endpoint
  | ResyncCont JobId
  | DrainCont

datatype reply =
    SubmitReply token u32 JobId
  | StatusReply token u32 "Job option"
  | LeaseReply token u32 LeaseGrant
  | AckReply token u32
  | DrainReply
  | LatencySample nat

record PendingSubmit =
  ps_cb :: reply_cb
  ps_needed :: int
  ps_outstanding :: int

record QState =
  q_done :: quorum_cb
  q_needed :: int
  q_outstanding :: int
  q_fired :: bool

record ClaimState =
  proposed :: u32
  acks :: int
  needed :: int
  best_state :: u8
  best_seq :: u32
  acked_mask :: u64
  next_retry :: nat

record Counters =
  submits :: u64
  duplicates :: u64
  leases_granted :: u64
  completions_ok :: u64
  completions_failed :: u64
  expirations :: u64
  deadletters :: u64
  takeovers :: u64
  fenced_stale :: u64

definition Counters0 :: Counters where
  "Counters0 = \<lparr>submits = 0, duplicates = 0, leases_granted = 0, completions_ok = 0, completions_failed = 0,
     expirations = 0, deadletters = 0, takeovers = 0, fenced_stale = 0\<rparr>"

text \<open>
  The members of \<open>QueueNode\<close>. Five fields are not in the source, and no operation reads them: \<open>out\<close> collects
  what callbacks were called with, \<open>history\<close> the records given to the store, \<open>votes\<close> the claims this node
  granted or opened itself (job, epoch, claimant, and how many records it had then given to the store), \<open>null_deref\<close>
  records the use of a null pointer, and \<open>seq_wrapped\<close> whether the 32-bit job counter has wrapped around.
\<close>

record qnode =
  cfg :: NodeConfig
  st :: store
  qboot :: u64
  next_job_seq :: u32
  pending_submits :: "(JobId \<times> PendingSubmit) list"
  repair :: "(JobId \<times> u8) list"
  next_repair :: nat
  ready :: "JobId list"
  lease_deadline :: "(JobId \<times> nat) list"
  not_before :: "(JobId \<times> nat) list"
  counters :: Counters
  submit_time :: "(JobId \<times> nat) list"
  claims :: "(JobId \<times> ClaimState) list"
  resync_inflight :: "(JobId \<times> int) list"
  draining :: bool
  drain_cb :: bool
  next_claim_tick :: nat
  next_drain_tick :: nat
  qstates :: "(nat \<times> QState) list"
  next_q :: nat
  out :: "reply list"
  history :: "Record list"
  votes :: "(JobId \<times> u32 \<times> Endpoint \<times> nat) list"
  null_deref :: bool
  seq_wrapped :: bool

type_synonym 's node = "('s, cont) rpc \<times> qnode"

text \<open>What a handler finds around it: the checksum, the sessions and the current liveness view.\<close>

record 's env =
  e_crc :: "bytes \<Rightarrow> u32"
  e_ops :: "'s session_ops"
  e_mem :: membership

definition qnode_new :: "NodeConfig \<Rightarrow> u64 \<Rightarrow> disk \<Rightarrow> nat \<Rightarrow> qnode" where
  "qnode_new c b d sb = \<lparr>cfg = c, st = empty_store (wal_new sb d), qboot = b, next_job_seq = 1,
     pending_submits = [], repair = [], next_repair = 0, ready = [], lease_deadline = [],
     not_before = [], counters = Counters0, submit_time = [], claims = [], resync_inflight = [],
     draining = False, drain_cb = False, next_claim_tick = 0, next_drain_tick = 0, qstates = [],
     next_q = 0, out = [], history = [], votes = [], null_deref = False, seq_wrapped = False\<rparr>"


section \<open>Helpers\<close>

definition owned_by_me :: "qnode \<Rightarrow> Job \<Rightarrow> bool" where
  "owned_by_me q j \<longleftrightarrow> owner j = self (cfg q)"

text \<open>The slots \<open>for_each_peer_slot\<close> visits, in order.\<close>

definition peer_slots :: "Job \<Rightarrow> Endpoint \<Rightarrow> (nat \<times> Endpoint) list" where
  "peer_slots j me =
     filter (\<lambda>(s, e). e \<noteq> Endpoint0 \<and> e \<noteq> me) (map (\<lambda>s. (s, replicas j ! s)) [0..<3])"

abbreviation slots_of :: "qnode \<Rightarrow> Job \<Rightarrow> (nat \<times> Endpoint) list" where
  "slots_of q j \<equiv> peer_slots j (self (cfg q))"

definition upd :: "(qnode \<Rightarrow> qnode) \<Rightarrow> 's node \<Rightarrow> 's node" where
  "upd f n = (fst n, f (snd n))"

definition reply :: "reply \<Rightarrow> 's node \<Rightarrow> 's node" where
  "reply x = upd (\<lambda>q. q\<lparr>out := out q @ [x]\<rparr>)"

definition respond_to :: "'s env \<Rightarrow> ReqCtx \<Rightarrow> u32 \<Rightarrow> bytes \<Rightarrow> 's node \<Rightarrow> 's node" where
  "respond_to E ctx s msg n = (respond (e_ops E) ctx s msg (fst n), snd n)"

definition find_job :: "JobId \<Rightarrow> 's node \<Rightarrow> Job option" where
  "find_job i n = find i (st (snd n))"

definition commit_rec :: "'s env \<Rightarrow> Record \<Rightarrow> 's node \<Rightarrow> bool \<times> 's node" where
  "commit_rec E r n =
    (let (ok, s) = commit (e_crc E) r True (st (snd n)) in (ok, upd (\<lambda>q. q\<lparr>st := s, history := history q @ [r]\<rparr>) n))"

text \<open>\<open>rpc_.call\<close> with the node's timeout: the status of a callback that runs at once, and the node.\<close>

definition rpc_call :: "'s env \<Rightarrow> Endpoint \<Rightarrow> Method \<Rightarrow> bytes \<Rightarrow> cont \<Rightarrow> 's node \<Rightarrow> u32 option \<times> 's node" where
  "rpc_call E to m msg k n =
    (let (r, q) = n; (s, r) = call (e_ops E) to m msg (rpc_timeout (cfg q)) k r in (s, (r, q)))"

definition bump :: "(Counters \<Rightarrow> Counters) \<Rightarrow> 's node \<Rightarrow> 's node" where
  "bump f = upd (\<lambda>q. q\<lparr>counters := f (counters q)\<rparr>)"

definition set_repair :: "JobId \<Rightarrow> 's node \<Rightarrow> 's node" where
  "set_repair i = upd (\<lambda>q. q\<lparr>repair := AList.update i 0 (repair q)\<rparr>)"

definition null :: "'s node \<Rightarrow> 's node" where
  "null = upd (\<lambda>q. q\<lparr>null_deref := True\<rparr>)"

definition cast_vote :: "JobId \<Rightarrow> u32 \<Rightarrow> Endpoint \<Rightarrow> 's node \<Rightarrow> 's node" where
  "cast_vote i p a = upd (\<lambda>q. q\<lparr>votes := votes q @ [(i, p, a, length (history q))]\<rparr>)"

definition submit_cb :: "'s env \<Rightarrow> reply_cb \<Rightarrow> u32 \<Rightarrow> JobId \<Rightarrow> 's node \<Rightarrow> 's node" where
  "submit_cb E c s i n =
    (case c of Client t \<Rightarrow> reply (SubmitReply t s i) n | Remote ctx \<Rightarrow> respond_to E ctx s (put_job_id [] i) n)"

definition ack_cb :: "'s env \<Rightarrow> reply_cb \<Rightarrow> u32 \<Rightarrow> 's node \<Rightarrow> 's node" where
  "ack_cb E c s n =
    (case c of Client t \<Rightarrow> reply (AckReply t s) n | Remote ctx \<Rightarrow> respond_to E ctx s [] n)"

definition nack_backoff :: "u32 \<Rightarrow> nat" where
  "nack_backoff attempt =
    (let shift = (if attempt > 6 then 6 else if attempt > 0 then attempt - 1 else 0)
     in ms (min (1000 * 2 ^ unat shift) 60000))"

definition requeue_ready :: "JobId \<Rightarrow> nat \<Rightarrow> 's node \<Rightarrow> 's node" where
  "requeue_ready i t = upd (\<lambda>q. q\<lparr>ready := ready q @ [i], not_before := AList.update i t (not_before q)\<rparr>)"

definition replicas_reachable :: "'s env \<Rightarrow> qnode \<Rightarrow> Job \<Rightarrow> bool" where
  "replicas_reachable E q j \<longleftrightarrow>
     (\<exists>(s, m) \<in> set (slots_of q j). m_is_alive (e_mem E) m) \<or> slots_of q j = []"

definition mark_replica_ok :: "JobId \<Rightarrow> nat \<Rightarrow> 's node \<Rightarrow> 's node" where
  "mark_replica_ok i slot n =
    (let q = snd n in
     case map_of (repair q) i of
       None \<Rightarrow> n
     | Some m \<Rightarrow>
        (let m = m OR push_bit slot 1;
             want = (case find i (st q) of None \<Rightarrow> 0
                     | Some j \<Rightarrow> fold (\<lambda>(s, e) w. w OR push_bit s 1) (slots_of q j) (0 :: u8))
         in upd (\<lambda>q. q\<lparr>repair := (if m AND want = want then AList.delete i (repair q)
                                   else AList.update i m (repair q))\<rparr>) n))"

definition after_ownership_change :: "JobId \<Rightarrow> 's node \<Rightarrow> 's node" where
  "after_ownership_change i n =
    (case find_job i n of
       None \<Rightarrow> n
     | Some j \<Rightarrow>
        if \<not> owned_by_me (snd n) j then
          upd (\<lambda>q. q\<lparr>lease_deadline := AList.delete i (lease_deadline q),
                     not_before := AList.delete i (not_before q),
                     repair := AList.delete i (repair q), claims := AList.delete i (claims q)\<rparr>) n
        else if state j = Ready then upd (\<lambda>q. q\<lparr>ready := ready q @ [i]\<rparr>) n
        else n)"


section \<open>Resynchronisation\<close>

definition on_resync_resp :: "'s env \<Rightarrow> JobId \<Rightarrow> u32 \<Rightarrow> bytes \<Rightarrow> 's node \<Rightarrow> 's node" where
  "on_resync_resp E i code resp n =
    (let n = (case map_of (resync_inflight (snd n)) i of
                None \<Rightarrow> n
              | Some c \<Rightarrow>
                  upd (\<lambda>q. q\<lparr>resync_inflight :=
                     (if c - 1 \<le> 0 then AList.delete i (resync_inflight q)
                      else AList.update i (c - 1) (resync_inflight q))\<rparr>) n) in
     if code \<noteq> kCreated then n
     else
      (case get_job resp 0 of
         Some (Some (sz, remote)) \<Rightarrow>
           if job_id remote \<noteq> i then n
           else
            (case find_job i n of
               None \<Rightarrow> n
             | Some local \<Rightarrow>
                 if \<not> job_advances local remote then n
                 else after_ownership_change i (snd (commit_rec E (ReplicateRec remote) n)))
       | _ \<Rightarrow> n))"

definition resync_send :: "'s env \<Rightarrow> JobId \<Rightarrow> Endpoint \<Rightarrow> 's node \<Rightarrow> 's node" where
  "resync_send E i m n =
    (let (s, n) = rpc_call E m Resync (put_job_id [] i) (ResyncCont i) n
     in case s of None \<Rightarrow> n | Some code \<Rightarrow> on_resync_resp E i code [] n)"

definition resync_job :: "'s env \<Rightarrow> JobId \<Rightarrow> 's node \<Rightarrow> 's node" where
  "resync_job E i n =
    (if map_of (resync_inflight (snd n)) i \<noteq> None then n
     else
      (case find_job i n of
         None \<Rightarrow> n
       | Some j \<Rightarrow>
          (let ms = filter (m_is_alive (e_mem E)) (map snd (slots_of (snd n) j));
               n = fold (resync_send E i) ms n;
               sent = length ms
           in if sent > 0
              then upd (\<lambda>q. q\<lparr>resync_inflight := AList.update i (int sent) (resync_inflight q)\<rparr>) n
              else n)))"

definition handle_resync :: "'s env \<Rightarrow> ReqCtx \<Rightarrow> bytes \<Rightarrow> 's node \<Rightarrow> 's node" where
  "handle_resync E ctx msg n =
    (if length msg < kJobIdSize then respond_to E ctx kInvalid [] n
     else
      (case get_job_id msg 0 of
         None \<Rightarrow> n
       | Some i \<Rightarrow>
          (case find_job i n of
             None \<Rightarrow> respond_to E ctx kUnknownJob [] n
           | Some j \<Rightarrow> respond_to E ctx kCreated (put_job [] j) n)))"



section \<open>Replication and submission\<close>

definition submit_result :: "'s env \<Rightarrow> JobId \<Rightarrow> u32 \<Rightarrow> 's node \<Rightarrow> 's node" where
  "submit_result E i s n =
    (case map_of (pending_submits (snd n)) i of
       None \<Rightarrow> n
     | Some ps \<Rightarrow>
         submit_cb E (ps_cb ps) s i
           (upd (\<lambda>q. q\<lparr>pending_submits := AList.delete i (pending_submits q)\<rparr>) n))"

text \<open>
  The callback of \<open>send_replicate\<close>. The iterator it holds across \<open>resync_job\<close> stays valid: nothing
  in there touches \<open>pending_submits_\<close>.
\<close>

definition on_replicate_resp :: "'s env \<Rightarrow> JobId \<Rightarrow> nat \<Rightarrow> u32 \<Rightarrow> 's node \<Rightarrow> 's node" where
  "on_replicate_resp E i slot code n =
    (let ok = (code = kCreated \<or> code = kDuplicate);
         n = (if ok then mark_replica_ok i slot n
              else if code = kStaleEpoch then resync_job E i n else n) in
     case map_of (pending_submits (snd n)) i of
       None \<Rightarrow> n
     | Some ps \<Rightarrow>
        (let ps = ps\<lparr>ps_outstanding := ps_outstanding ps - 1,
                     ps_needed := (if ok then ps_needed ps - 1 else ps_needed ps)\<rparr>;
             n = upd (\<lambda>q. q\<lparr>pending_submits := AList.update i ps (pending_submits q)\<rparr>) n in
         if ps_needed ps \<le> 0 then submit_result E i kCreated n
         else if ps_outstanding ps = 0 then submit_result E i kNoQuorum n
         else n))"

definition send_replicate :: "'s env \<Rightarrow> JobId \<Rightarrow> nat \<Rightarrow> 's node \<Rightarrow> 's node" where
  "send_replicate E i slot n =
    (case find_job i n of
       None \<Rightarrow> n
     | Some j \<Rightarrow>
        (let (s, n) = rpc_call E (replicas j ! slot) Replicate (put_job [] j) (ReplicateCont i slot) n
         in case s of None \<Rightarrow> n | Some code \<Rightarrow> on_replicate_resp E i slot code n))"

definition start_replication :: "'s env \<Rightarrow> JobId \<Rightarrow> reply_cb option \<Rightarrow> 's node \<Rightarrow> 's node" where
  "start_replication E i track n =
    (case find_job i n of
       None \<Rightarrow> null n
     | Some j \<Rightarrow>
        (let slots = slots_of (snd n) j;
             replica_count = length slots;
             n = set_repair i n;
             n = (case track of
                    None \<Rightarrow> n
                  | Some c \<Rightarrow>
                     (let ps = \<lparr>ps_cb = c, ps_needed = (if replica_count > 0 then 1 else 0),
                                ps_outstanding = int replica_count\<rparr>;
                          n = upd (\<lambda>q. q\<lparr>pending_submits := AList.update i ps (pending_submits q)\<rparr>) n
                      in if replica_count = 0 then submit_result E i kCreated n else n))
         in fold (\<lambda>(s, e). send_replicate E i s) slots n))"

text \<open>The replica set of a new job: the ring's choice, or this node and the first live others.\<close>

fun fill_slots :: "Endpoint \<Rightarrow> Endpoint list \<Rightarrow> nat \<Rightarrow> Endpoint list \<Rightarrow> Endpoint list" where
  "fill_slots me [] slot rs = rs"
| "fill_slots me (e # es) slot rs =
    (if slot \<ge> 3 then rs
     else if e \<noteq> me then fill_slots me es (slot + 1) (rs[slot := e])
     else fill_slots me es slot rs)"

definition choose_replicas :: "membership \<Rightarrow> Endpoint \<Rightarrow> string \<Rightarrow> Endpoint list" where
  "choose_replicas mem me key =
    (let rs = replica_set key (m_alive mem) in
     if rs ! 0 \<noteq> me then fill_slots me (m_alive mem) 1 [me, Endpoint0, Endpoint0] else rs)"

definition mint_id :: "Endpoint \<Rightarrow> u64 \<Rightarrow> u32 \<Rightarrow> JobId" where
  "mint_id me b sq = \<lparr>origin = ekey me, nonce = push_bit 32 (b AND 0xFFFFFFFF) OR ucast sq\<rparr>"

definition new_job :: "'s env \<Rightarrow> SubmitParams \<Rightarrow> qnode \<Rightarrow> Job" where
  "new_job E p q =
     Job0\<lparr>job_id := mint_id (self (cfg q)) (qboot q) (next_job_seq q),
       idem_key := p_idem_key p, url := p_url p, body := p_body p,
       visibility_ms := (if p_visibility_ms p \<noteq> 0 then p_visibility_ms p else default_visibility_ms (cfg q)),
       max_attempts := (if p_max_attempts p \<noteq> 0 then p_max_attempts p else default_max_attempts (cfg q)),
       replicas := choose_replicas (e_mem E) (self (cfg q)) (p_idem_key p),
       owner := self (cfg q), state := Ready, epoch := 1\<rparr>"

definition owner_submit :: "'s env \<Rightarrow> SubmitParams \<Rightarrow> reply_cb \<Rightarrow> 's node \<Rightarrow> 's node" where
  "owner_submit E p c n =
    (case find_by_idem (p_idem_key p) (st (snd n)) of
       Some existing \<Rightarrow>
         submit_cb E c kDuplicate (job_id existing)
           (bump (\<lambda>k. k\<lparr>duplicates := duplicates k + 1\<rparr>) n)
     | None \<Rightarrow>
        if draining (snd n) then submit_cb E c kNoQuorum JobId0 n
        else
         (let n = bump (\<lambda>k. k\<lparr>submits := submits k + 1\<rparr>) n;
              j = new_job E p (snd n);
              i = job_id j;
              n = upd (\<lambda>q. q\<lparr>next_job_seq := next_job_seq q + 1,
                            seq_wrapped := seq_wrapped q \<or> next_job_seq q + 1 = 0\<rparr>) n;
              (ok, n) = commit_rec E (SubmitRec j) n in
          if \<not> ok then submit_cb E c kNoQuorum JobId0 n
          else
           (let n = upd (\<lambda>q. q\<lparr>ready := ready q @ [i]\<rparr>) n;
                n = upd (\<lambda>q. q\<lparr>submit_time := AList.update i (now (fst n)) (submit_time q)\<rparr>) n
            in start_replication E i (Some c) n)))"

definition encode_params :: "SubmitParams \<Rightarrow> bytes" where
  "encode_params p =
    (let b = put_u16 [] (of_nat (length (p_idem_key p)));
         b = b @ map byte_of_char (p_idem_key p);
         b = put_u16 b (of_nat (length (p_url p)));
         b = b @ map byte_of_char (p_url p);
         b = put_u16 b (of_nat (length (p_body p)));
         b = put_bytes b (p_body p);
         b = put_u32 b (p_visibility_ms p)
     in put_u32 b (p_max_attempts p))"

text \<open>The outer \<open>None\<close> is a read outside the span, as for the other decoders.\<close>

definition decode_params :: "bytes \<Rightarrow> SubmitParams option option" where
  "decode_params b = do {
     k \<leftarrow> get_str b 0 kMaxIdemKey;
     case k of None \<Rightarrow> Some None
     | Some (off, key) \<Rightarrow> do {
       u \<leftarrow> get_str b off kMaxUrl;
       case u of None \<Rightarrow> Some None
       | Some (off, ur) \<Rightarrow>
         if off + 2 > length b then Some None
         else do {
           n \<leftarrow> get_u16 b off;
           let blen = unat n;
           let off = off + 2;
           if blen > kMaxJobBody \<or> off + blen > length b then Some None
           else do {
             bd \<leftarrow> get_run b off blen;
             let off = off + blen;
             if off + 8 > length b then Some None
             else do {
               v \<leftarrow> get_u32 b off;
               a \<leftarrow> get_u32 b (off + 4);
               Some (Some \<lparr>p_idem_key = key, p_url = ur, p_body = bd, p_visibility_ms = v, p_max_attempts = a\<rparr>)
             }
           }
         }
     }
   }"

definition on_fwd_submit_resp :: "token \<Rightarrow> u32 \<Rightarrow> bytes \<Rightarrow> 's node \<Rightarrow> 's node" where
  "on_fwd_submit_resp t code resp n =
    (if code < 0xFFFF0000 then
       reply (SubmitReply t code
         (if length resp \<ge> kJobIdSize then (case get_job_id resp 0 of Some i \<Rightarrow> i | None \<Rightarrow> JobId0) else JobId0)) n
     else reply (SubmitReply t kNoQuorum JobId0) n)"

definition submit :: "'s env \<Rightarrow> SubmitParams \<Rightarrow> token \<Rightarrow> 's node \<Rightarrow> 's node" where
  "submit E p t n =
    (if p_idem_key p = [] \<or> length (p_idem_key p) > kMaxIdemKey \<or> p_url p = [] \<or>
        length (p_url p) > kMaxUrl \<or> length (p_body p) > kMaxJobBody
     then reply (SubmitReply t kInvalid JobId0) n
     else
      (let own = owner_for (p_idem_key p) (m_members (e_mem E)) in
       if own = self (cfg (snd n)) then owner_submit E p (Client t) n
       else if own = Endpoint0 \<or> \<not> m_is_alive (e_mem E) own
       then reply (SubmitReply t kNoQuorum JobId0) n
       else
        (let (s, n) = rpc_call E own FwdSubmit (encode_params p) (FwdSubmitCont t) n
         in case s of None \<Rightarrow> n | Some code \<Rightarrow> on_fwd_submit_resp t code [] n)))"

definition handle_fwd_submit :: "'s env \<Rightarrow> ReqCtx \<Rightarrow> bytes \<Rightarrow> 's node \<Rightarrow> 's node" where
  "handle_fwd_submit E ctx msg n =
    (case decode_params msg of
       Some (Some p) \<Rightarrow> owner_submit E p (Remote ctx) n
     | _ \<Rightarrow> respond_to E ctx kInvalid [] n)"

definition handle_replicate :: "'s env \<Rightarrow> ReqCtx \<Rightarrow> bytes \<Rightarrow> 's node \<Rightarrow> 's node" where
  "handle_replicate E ctx msg n =
    (case get_job msg 0 of
       Some (Some (sz, j)) \<Rightarrow>
        (let stale = (case find_job (job_id j) n of None \<Rightarrow> False | Some known \<Rightarrow> epoch j < epoch known) in
         if stale then respond_to E ctx kStaleEpoch [] n
         else
          (let (ok, n) = commit_rec E (ReplicateRec j) n
           in respond_to E ctx (if ok then kCreated else kNoQuorum) [] n))
     | _ \<Rightarrow> respond_to E ctx kInvalid [] n)"


section \<open>Status queries\<close>

definition better :: "Job option \<Rightarrow> Job \<Rightarrow> bool" where
  "better best j = (case best of None \<Rightarrow> True | Some b \<Rightarrow> job_advances b j)"

text \<open>What the response callback makes of the best copy so far.\<close>

definition status_merge :: "JobId \<Rightarrow> Job option \<Rightarrow> u32 \<Rightarrow> bytes \<Rightarrow> Job option" where
  "status_merge i best code resp =
    (if code = kCreated then
       (case get_job resp 0 of
          Some (Some (sz, remote)) \<Rightarrow> if job_id remote = i \<and> better best remote then Some remote else best
        | _ \<Rightarrow> best)
     else best)"

function query_status_target ::
  "'s env \<Rightarrow> JobId \<Rightarrow> Endpoint list \<Rightarrow> nat \<Rightarrow> Job option \<Rightarrow> token \<Rightarrow> 's node \<Rightarrow> 's node" where
  "query_status_target E i targets index best t n =
    (if index \<ge> length targets
     then reply (StatusReply t (if best \<noteq> None then kCreated else kUnknownJob) best) n
     else if targets ! index = self (cfg (snd n)) then
       query_status_target E i targets (index + 1)
         (case find_job i n of None \<Rightarrow> best | Some l \<Rightarrow> if better best l then Some l else best) t n
     else
      (let (s, n') = rpc_call E (targets ! index) FwdStatus (put_job_id [] i)
                       (StatusCont i targets index best t) n
       in case s of
            None \<Rightarrow> n'
          | Some code \<Rightarrow> query_status_target E i targets (index + 1) (status_merge i best code []) t n'))"
  by pat_completeness auto
termination
  by (relation "measure (\<lambda>(E, i, targets, index, best, t, n). length targets - index)") auto

declare query_status_target.simps [simp del]

definition on_status_resp ::
  "'s env \<Rightarrow> JobId \<Rightarrow> Endpoint list \<Rightarrow> nat \<Rightarrow> Job option \<Rightarrow> token \<Rightarrow> u32 \<Rightarrow> bytes \<Rightarrow> 's node \<Rightarrow> 's node" where
  "on_status_resp E i targets index best t code resp n =
     query_status_target E i targets (index + 1) (status_merge i best code resp) t n"

definition status :: "'s env \<Rightarrow> JobId \<Rightarrow> token \<Rightarrow> 's node \<Rightarrow> 's node" where
  "status E i t n =
    (let orig = \<lparr>addr_be = ucast (drop_bit 16 (origin i)), port_be = ucast (origin i)\<rparr>;
         targets = fold push_new (m_alive (e_mem E)) [orig]
     in query_status_target E i targets 0 None t n)"

definition handle_fwd_status :: "'s env \<Rightarrow> ReqCtx \<Rightarrow> bytes \<Rightarrow> 's node \<Rightarrow> 's node" where
  "handle_fwd_status E ctx msg n =
    (if length msg < kJobIdSize then respond_to E ctx kInvalid [] n
     else
      (case get_job_id msg 0 of
         None \<Rightarrow> n
       | Some i \<Rightarrow>
          (case find_job i n of
             None \<Rightarrow> respond_to E ctx kUnknownJob [] n
           | Some j \<Rightarrow> respond_to E ctx kCreated (put_job [] j) n)))"



section \<open>Quorum commits\<close>

text \<open>
  The three callbacks given to \<open>quorum_commit\<close>. The optional latency callback is taken as installed,
  as \<open>node_main\<close> does.
\<close>

definition lease_done :: "'s env \<Rightarrow> JobId \<Rightarrow> token \<Rightarrow> bool \<Rightarrow> 's node \<Rightarrow> 's node" where
  "lease_done E i t ok n =
    (case find_job i n of
       None \<Rightarrow> reply (LeaseReply t kUnknownJob LeaseGrant0) n
     | Some j \<Rightarrow>
        if \<not> ok then
         (let n = snd (commit_rec E (ExpireRec i (epoch j) (lease_seq j)) n);
              n = requeue_ready i (now (fst n) + nack_backoff (attempts j)) n
          in reply (LeaseReply t kNoQuorum LeaseGrant0) n)
        else
         (let n = bump (\<lambda>k. k\<lparr>leases_granted := leases_granted k + 1\<rparr>) n;
              n = upd (\<lambda>q. q\<lparr>lease_deadline :=
                    AList.update i (now (fst n) + ms (unat (visibility_ms j))) (lease_deadline q)\<rparr>) n
          in reply (LeaseReply t kCreated
               \<lparr>g_id = i, g_url = url j, g_body = body j, g_idem_key = idem_key j, g_epoch = epoch j,
                g_lease_seq = lease_seq j, g_visibility_ms = visibility_ms j, g_attempt = attempts j\<rparr>) n))"

definition ack_done :: "'s env \<Rightarrow> JobId \<Rightarrow> reply_cb \<Rightarrow> bool \<Rightarrow> 's node \<Rightarrow> 's node" where
  "ack_done E i c ok n =
    (let n = (case map_of (submit_time (snd n)) i of
                None \<Rightarrow> n
              | Some ts \<Rightarrow>
                  upd (\<lambda>q. q\<lparr>submit_time := AList.delete i (submit_time q)\<rparr>)
                    (reply (LatencySample (now (fst n) - ts)) n));
         n = (if ok then bump (\<lambda>k. k\<lparr>completions_ok := completions_ok k + 1\<rparr>) n else n)
     in ack_cb E c (if ok then kCreated else kNoQuorum) n)"

definition run_done :: "'s env \<Rightarrow> quorum_cb \<Rightarrow> bool \<Rightarrow> 's node \<Rightarrow> 's node" where
  "run_done E d ok n =
    (case d of NoDone \<Rightarrow> n | LeaseDone i t \<Rightarrow> lease_done E i t ok n | AckDone i c \<Rightarrow> ack_done E i c ok n)"

definition set_q :: "nat \<Rightarrow> QState \<Rightarrow> 's node \<Rightarrow> 's node" where
  "set_q k x = upd (\<lambda>q. q\<lparr>qstates := AList.update k x (qstates q)\<rparr>)"

definition on_apply_resp :: "'s env \<Rightarrow> JobId \<Rightarrow> nat \<Rightarrow> nat \<Rightarrow> u32 \<Rightarrow> 's node \<Rightarrow> 's node" where
  "on_apply_resp E i s k code n =
    (case map_of (qstates (snd n)) k of
       None \<Rightarrow> n
     | Some x \<Rightarrow>
        (let x = x\<lparr>q_outstanding := q_outstanding x - 1,
                   q_needed := (if code = kCreated then q_needed x - 1 else q_needed x)\<rparr>;
             n = set_q k x n;
             n = (if code = kCreated then mark_replica_ok i s n
                  else if code = kStaleEpoch then resync_job E i n else n) in
         if \<not> q_fired x \<and> q_needed x \<le> 0 then run_done E (q_done x) True (set_q k (x\<lparr>q_fired := True\<rparr>) n)
         else if \<not> q_fired x \<and> q_outstanding x = 0 then run_done E (q_done x) False (set_q k (x\<lparr>q_fired := True\<rparr>) n)
         else n))"

definition apply_send :: "'s env \<Rightarrow> JobId \<Rightarrow> nat \<Rightarrow> bytes \<Rightarrow> nat \<times> Endpoint \<Rightarrow> 's node \<Rightarrow> 's node" where
  "apply_send E i k msg se n =
    (let (s, n) = rpc_call E (snd se) Apply msg (ApplyCont i (fst se) k) n
     in case s of None \<Rightarrow> n | Some code \<Rightarrow> on_apply_resp E i (fst se) k code n)"

definition quorum_commit :: "'s env \<Rightarrow> JobId \<Rightarrow> Record \<Rightarrow> quorum_cb \<Rightarrow> 's node \<Rightarrow> 's node" where
  "quorum_commit E i rec d n =
    (let (ok, n) = commit_rec E rec n in
     if \<not> ok then run_done E d False n
     else
      (case find_job i n of
         None \<Rightarrow> null n
       | Some j \<Rightarrow>
          (let n = set_repair i n; slots = slots_of (snd n) j in
           if slots = [] then run_done E d True n
           else
            (let k = next_q (snd n);
                 x = \<lparr>q_done = d, q_needed = 1, q_outstanding = int (length slots), q_fired = False\<rparr>;
                 n = upd (\<lambda>q. q\<lparr>next_q := k + 1\<rparr>) (set_q k x n)
             in fold (apply_send E i k (encode_record rec 0)) slots n))))"

definition rec_meta :: "Record \<Rightarrow> (JobId \<times> u32) option" where
  "rec_meta r =
    (case r of
       LeaseRec i ep sq w \<Rightarrow> Some (i, ep)
     | DoneRec i ep sq \<Rightarrow> Some (i, ep)
     | ExpireRec i ep sq \<Rightarrow> Some (i, ep)
     | DeadLetterRec i ep \<Rightarrow> Some (i, ep)
     | TakeoverRec i ep own \<Rightarrow> Some (i, ep)
     | _ \<Rightarrow> None)"

fun is_takeover :: "Record \<Rightarrow> bool" where
  "is_takeover (TakeoverRec i ep own) = True"
| "is_takeover _ = False"

text \<open>The code a record is answered with, and the node after it.\<close>

definition apply_reply :: "'s env \<Rightarrow> Endpoint \<Rightarrow> bytes \<Rightarrow> 's node \<Rightarrow> u32 \<times> 's node" where
  "apply_reply E from msg n =
    (case decode_record msg of
       Some (Some (rec, lsn)) \<Rightarrow>
        (case rec_meta rec of
           None \<Rightarrow> (kInvalid, n)
         | Some (i, ep) \<Rightarrow>
            (case find_job i n of
               None \<Rightarrow> (kUnknownJob, n)
             | Some j \<Rightarrow>
                if ep < epoch j then (kStaleEpoch, bump (\<lambda>k. k\<lparr>fenced_stale := fenced_stale k + 1\<rparr>) n)
                else if from \<noteq> owner j \<and> \<not> is_takeover rec then (kNotOwner, n)
                else
                 (let (ok, n) = commit_rec E rec n
                  in (if ok then kCreated else kNoQuorum, n))))
     | _ \<Rightarrow> (kInvalid, n))"

definition handle_apply :: "'s env \<Rightarrow> ReqCtx \<Rightarrow> bytes \<Rightarrow> 's node \<Rightarrow> 's node" where
  "handle_apply E ctx msg n =
    (let (code, n) = apply_reply E (ctx_from ctx) msg n in respond_to E ctx code [] n)"


section \<open>Leases and acknowledgements\<close>

text \<open>The loop of \<open>lease\<close> over the ready queue, for \<open>scan\<close> rounds.\<close>

fun lease_scan :: "nat \<Rightarrow> nat \<Rightarrow> qnode \<Rightarrow> Job option \<times> qnode" where
  "lease_scan 0 t q = (None, q)"
| "lease_scan (Suc scan) t q =
    (case ready q of
       [] \<Rightarrow> (None, q)
     | i # rest \<Rightarrow>
        (let q = q\<lparr>ready := rest\<rparr> in
         case find i (st q) of
           None \<Rightarrow> lease_scan scan t q
         | Some j \<Rightarrow>
            if state j \<noteq> Ready \<or> \<not> owned_by_me q j then lease_scan scan t q
            else if (case map_of (not_before q) i of None \<Rightarrow> False | Some nb \<Rightarrow> t < nb)
            then lease_scan scan t (q\<lparr>ready := rest @ [i]\<rparr>)
            else (Some j, q)))"

definition lease :: "'s env \<Rightarrow> u64 \<Rightarrow> token \<Rightarrow> 's node \<Rightarrow> 's node" where
  "lease E worker_id t n =
    (if draining (snd n) then reply (LeaseReply t kNoJob LeaseGrant0) n
     else
      (let (pick, q) = lease_scan (length (ready (snd n))) (now (fst n)) (snd n); n = (fst n, q) in
       case pick of
         None \<Rightarrow> reply (LeaseReply t kNoJob LeaseGrant0) n
       | Some j \<Rightarrow>
          if \<not> replicas_reachable E q j then
            reply (LeaseReply t kNoQuorum LeaseGrant0) (upd (\<lambda>q. q\<lparr>ready := job_id j # ready q\<rparr>) n)
          else
           (let new_seq = lease_seq j + 1; i = job_id j in
            if new_seq > max_attempts j then
             (let n = bump (\<lambda>k. k\<lparr>deadletters := deadletters k + 1\<rparr>) n;
                  n = quorum_commit E i (DeadLetterRec i (epoch j)) NoDone n
              in reply (LeaseReply t kNoJob LeaseGrant0) n)
            else
             (let n = upd (\<lambda>q. q\<lparr>not_before := AList.delete i (not_before q)\<rparr>) n
              in quorum_commit E i (LeaseRec i (epoch j) new_seq worker_id) (LeaseDone i t) n))))"

definition expire_one :: "'s env \<Rightarrow> nat \<Rightarrow> JobId \<Rightarrow> 's node \<Rightarrow> 's node" where
  "expire_one E t i n =
    (let n = upd (\<lambda>q. q\<lparr>lease_deadline := AList.delete i (lease_deadline q)\<rparr>) n in
     case find_job i n of
       None \<Rightarrow> n
     | Some j \<Rightarrow>
        if state j \<noteq> Leased \<or> \<not> owned_by_me (snd n) j then n
        else if lease_seq j \<ge> max_attempts j then
          quorum_commit E i (DeadLetterRec i (epoch j)) NoDone
            (bump (\<lambda>k. k\<lparr>deadletters := deadletters k + 1\<rparr>) n)
        else
          requeue_ready i t
            (quorum_commit E i (ExpireRec i (epoch j) (lease_seq j)) NoDone
              (bump (\<lambda>k. k\<lparr>expirations := expirations k + 1\<rparr>) n)))"

definition expiry_tick :: "'s env \<Rightarrow> nat \<Rightarrow> 's node \<Rightarrow> 's node" where
  "expiry_tick E t n =
    (let due = map fst (filter (\<lambda>(i, d). t \<ge> d) (lease_deadline (snd n)))
     in fold (expire_one E t) due n)"

definition owner_ack ::
  "'s env \<Rightarrow> JobId \<Rightarrow> u32 \<Rightarrow> u32 \<Rightarrow> bool \<Rightarrow> reply_cb \<Rightarrow> 's node \<Rightarrow> 's node" where
  "owner_ack E i ep sq success c n =
    (case find_job i n of
       None \<Rightarrow> ack_cb E c kUnknownJob n
     | Some j \<Rightarrow>
        if state j = Done then
          ack_cb E c (if map_of (repair (snd n)) i \<noteq> None then kNoQuorum else kCreated) n
        else
         (let current_lease = (state j = Leased \<and> ep \<le> epoch j \<and> lease_seq j = sq) in
          if \<not> success then
           (if \<not> current_lease then ack_cb E c kNotLeased n
            else
             (let n = bump (\<lambda>k. k\<lparr>completions_failed := completions_failed k + 1\<rparr>) n;
                  n = upd (\<lambda>q. q\<lparr>lease_deadline := AList.delete i (lease_deadline q)\<rparr>) n;
                  n = quorum_commit E i (ExpireRec i (epoch j) (lease_seq j)) NoDone n;
                  n = requeue_ready i (now (fst n) + nack_backoff (attempts j)) n
              in ack_cb E c kCreated n))
          else
           (let amnesty = (state j = Ready \<and> (ep < epoch j \<or> ep = epoch j \<and> sq \<le> lease_seq j));
                late_after_park = (state j = DeadLetter \<and> ep \<le> epoch j) in
            if \<not> current_lease \<and> \<not> amnesty \<and> \<not> late_after_park then ack_cb E c kNotLeased n
            else
             (let n = upd (\<lambda>q. q\<lparr>lease_deadline := AList.delete i (lease_deadline q),
                                not_before := AList.delete i (not_before q)\<rparr>) n
              in quorum_commit E i (DoneRec i (epoch j) (lease_seq j)) (AckDone i c) n))))"

definition ack :: "'s env \<Rightarrow> JobId \<Rightarrow> u32 \<Rightarrow> u32 \<Rightarrow> bool \<Rightarrow> token \<Rightarrow> 's node \<Rightarrow> 's node" where
  "ack E i ep sq success t n =
    (case find_job i n of
       None \<Rightarrow> reply (AckReply t kUnknownJob) n
     | Some j \<Rightarrow>
        if owned_by_me (snd n) j then owner_ack E i ep sq success (Client t) n
        else
         (let b = put_u8 (put_u32 (put_u32 (put_job_id [] i) ep) sq) (if success then 1 else 0);
              (s, n) = rpc_call E (owner j) FwdAck b (FwdAckCont t) n
          in case s of None \<Rightarrow> n | Some code \<Rightarrow> reply (AckReply t code) n))"

definition handle_fwd_ack :: "'s env \<Rightarrow> ReqCtx \<Rightarrow> bytes \<Rightarrow> 's node \<Rightarrow> 's node" where
  "handle_fwd_ack E ctx msg n =
    (if length msg < kJobIdSize + 9 then respond_to E ctx kInvalid [] n
     else
      (case (get_job_id msg 0, get_u32 msg kJobIdSize, get_u32 msg (kJobIdSize + 4), get_u8 msg (kJobIdSize + 8)) of
         (Some i, Some ep, Some sq, Some succ) \<Rightarrow>
          (case find_job i n of
             None \<Rightarrow> respond_to E ctx kUnknownJob [] n
           | Some j \<Rightarrow>
              if \<not> owned_by_me (snd n) j then respond_to E ctx kNotOwner [] n
              else owner_ack E i ep sq (succ \<noteq> 0) (Remote ctx) n)
       | _ \<Rightarrow> n))"

definition repair_tick :: "'s env \<Rightarrow> nat \<Rightarrow> 's node \<Rightarrow> 's node" where
  "repair_tick E t n =
    (if t < next_repair (snd n) then n
     else
      (let n = upd (\<lambda>q. q\<lparr>next_repair := t + repair_interval (cfg q)\<rparr>) n in
       fold (\<lambda>(i, mask) n.
           case find_job i n of
             None \<Rightarrow> n
           | Some j \<Rightarrow>
              if \<not> owned_by_me (snd n) j then n
              else fold (\<lambda>(s, m) n.
                if mask AND push_bit s 1 = 0 \<and> m_is_alive (e_mem E) m then send_replicate E i s n else n)
                (slots_of (snd n) j) n)
         (repair (snd n)) n))"



section \<open>Takeover\<close>

fun state_rank :: "JobState \<Rightarrow> int" where
  "state_rank Done = 3"
| "state_rank DeadLetter = 2"
| "state_rank Leased = 1"
| "state_rank Ready = 0"
| "state_rank (OtherState w) = 0"

definition set_deadline :: "JobId \<Rightarrow> nat \<Rightarrow> 's node \<Rightarrow> 's node" where
  "set_deadline i t = upd (\<lambda>q. q\<lparr>lease_deadline := AList.update i t (lease_deadline q)\<rparr>)"

text \<open>The record \<open>finalize_takeover\<close> commits for the merged knowledge, if any, and whether it arms the timer.\<close>

definition merged_record :: "JobId \<Rightarrow> ClaimState \<Rightarrow> Job \<Rightarrow> Record option \<times> bool" where
  "merged_record i c j =
    (let merged = state_of_u8 (best_state c) in
     if merged = Done \<and> state j \<noteq> Done then (Some (DoneRec i (epoch j) (best_seq c)), False)
     else if merged = DeadLetter \<and> state j \<noteq> Done \<and> state j \<noteq> DeadLetter
     then (Some (DeadLetterRec i (epoch j)), False)
     else if merged = Leased \<or> best_seq c > lease_seq j then
      (if state j \<noteq> Leased \<or> lease_seq j < best_seq c
       then Some (LeaseRec i (epoch j) (if best_seq c > lease_seq j then best_seq c else lease_seq j) 0)
       else None, True)
     else (None, False))"

definition finalize_takeover :: "'s env \<Rightarrow> JobId \<Rightarrow> 's node \<Rightarrow> 's node" where
  "finalize_takeover E i n =
    (case map_of (claims (snd n)) i of
       None \<Rightarrow> n
     | Some c \<Rightarrow>
        (let n = upd (\<lambda>q. q\<lparr>claims := AList.delete i (claims q)\<rparr>) n in
         case find_job i n of
           None \<Rightarrow> n
         | Some j \<Rightarrow>
            if \<not> owned_by_me (snd n) j then n
            else
             (let n = bump (\<lambda>k. k\<lparr>takeovers := takeovers k + 1\<rparr>) n;
                  window = now (fst n) + ms (unat (visibility_ms j));
                  (rec, arm) = merged_record i c j;
                  n = (case rec of None \<Rightarrow> n | Some r \<Rightarrow> snd (commit_rec E r n));
                  n = (if arm then set_deadline i window n else n);
                  n = (case find_job i n of
                         None \<Rightarrow> n
                       | Some j \<Rightarrow>
                          if state j = Ready then upd (\<lambda>q. q\<lparr>ready := ready q @ [i]\<rparr>) n
                          else if state j = Leased \<and> map_of (lease_deadline (snd n)) i = None
                          then set_deadline i window n
                          else n)
              in set_repair i n)))"

definition claim_bit :: "Job option \<Rightarrow> Endpoint \<Rightarrow> u64" where
  "claim_bit j to =
    (case j of None \<Rightarrow> 0
     | Some j \<Rightarrow> fold (\<lambda>s b. if replicas j ! s = to then push_bit s 1 else b) [0..<3] 0)"

text \<open>What a granted claim adds to the claim's state.\<close>

definition claim_granted :: "u64 \<Rightarrow> bytes \<Rightarrow> ClaimState \<Rightarrow> ClaimState" where
  "claim_granted slot_bit resp c =
    (let c = (if slot_bit = 0 \<or> acked_mask c AND slot_bit = 0
              then c\<lparr>acked_mask := acked_mask c OR slot_bit, acks := acks c + 1\<rparr> else c) in
     if length resp \<ge> 5 then
      (case (get_u8 resp 0, get_u32 resp 1) of
         (Some rs, Some rseq) \<Rightarrow>
          (let c = (if rseq > best_seq c then c\<lparr>best_seq := rseq\<rparr> else c)
           in if state_rank (state_of_u8 rs) > state_rank (state_of_u8 (best_state c))
              then c\<lparr>best_state := rs\<rparr> else c)
       | _ \<Rightarrow> c)
     else c)"

definition on_claim_resp :: "'s env \<Rightarrow> JobId \<Rightarrow> Endpoint \<Rightarrow> u32 \<Rightarrow> bytes \<Rightarrow> 's node \<Rightarrow> 's node" where
  "on_claim_resp E i to code resp n =
    (case map_of (claims (snd n)) i of
       None \<Rightarrow> n
     | Some c \<Rightarrow>
        if code = kCreated then
         (let c = claim_granted (claim_bit (find_job i n) to) resp c;
              n = upd (\<lambda>q. q\<lparr>claims := AList.update i c (claims q)\<rparr>) n
          in if acks c \<ge> needed c then finalize_takeover E i n else n)
        else if code = kStaleEpoch then
          resync_job E i (upd (\<lambda>q. q\<lparr>claims := AList.delete i (claims q)\<rparr>) n)
        else if code = kUnknownJob then
         (case find_job i n of
            None \<Rightarrow> n
          | Some j \<Rightarrow> fold (\<lambda>(s, m) n. if m = to then send_replicate E i s n else n) (slots_of (snd n) j) n)
        else n)"

definition claim_send :: "'s env \<Rightarrow> JobId \<Rightarrow> Endpoint \<Rightarrow> 's node \<Rightarrow> 's node" where
  "claim_send E i to n =
    (case map_of (claims (snd n)) i of
       None \<Rightarrow> n
     | Some c \<Rightarrow>
        (let b = put_endpoint (put_u32 (put_job_id [] i) (proposed c)) (self (cfg (snd n)));
             (s, n) = rpc_call E to Claim b (ClaimCont i to) n
         in case s of None \<Rightarrow> n | Some code \<Rightarrow> on_claim_resp E i to code [] n))"

definition start_takeover :: "'s env \<Rightarrow> JobId \<Rightarrow> 's node \<Rightarrow> 's node" where
  "start_takeover E i n =
    (if draining (snd n) \<or> map_of (claims (snd n)) i \<noteq> None then n
     else
      (case find_job i n of
         None \<Rightarrow> n
       | Some j \<Rightarrow>
          if owned_by_me (snd n) j \<or> state j = Done \<or> state j = DeadLetter then n
          else
           (let prop = epoch j + 1;
                (ok, n) = commit_rec E (TakeoverRec i prop (self (cfg (snd n)))) n in
            if \<not> ok then n
            else
             (case find_job i n of
                None \<Rightarrow> null n
              | Some j \<Rightarrow>
                 (let set_size = length (filter (\<lambda>r. r \<noteq> Endpoint0) (replicas j));
                      c = \<lparr>proposed = prop, acks = 0, needed = int (set_size div 2 + 1) - 1,
                           best_state = u8_of_state (state j), best_seq = lease_seq j, acked_mask = 0,
                           next_retry = now (fst n) + ms 1000\<rparr>;
                      n = cast_vote i prop (self (cfg (snd n))) n;
                      n = upd (\<lambda>q. q\<lparr>claims := AList.update i c (claims q)\<rparr>) n in
                  if needed c \<le> 0 then finalize_takeover E i n
                  else fold (\<lambda>(s, m) n. if m_is_alive (e_mem E) m then claim_send E i m n else n)
                         (slots_of (snd n) j) n)))))"

text \<open>The code and body a claim is answered with, and the node after it.\<close>

definition claim_reply :: "'s env \<Rightarrow> Endpoint \<Rightarrow> bytes \<Rightarrow> 's node \<Rightarrow> u32 \<times> bytes \<times> 's node" where
  "claim_reply E from msg n =
    (if length msg < kJobIdSize + 4 + kEndpointSize then (kInvalid, [], n)
     else
      (case (get_job_id msg 0, get_u32 msg kJobIdSize, get_endpoint msg (kJobIdSize + 4)) of
         (Some i, Some prop, Some new_owner) \<Rightarrow>
          if from \<noteq> new_owner then (kInvalid, [], n)
          else
           (case find_job i n of
              None \<Rightarrow> (kUnknownJob, [], n)
            | Some j \<Rightarrow>
               if new_owner \<notin> set (replicas j) then (kNotOwner, [], n)
               else
                (let resp = put_u32 (put_u8 [] (u8_of_state (state j))) (lease_seq j) in
                 if prop < epoch j \<or> prop = epoch j \<and> owner j \<noteq> new_owner then (kStaleEpoch, [], n)
                 else if prop = epoch j then (kCreated, resp, cast_vote i prop new_owner n)
                 else
                  (let (ok, n) = commit_rec E (TakeoverRec i prop new_owner) n in
                   if \<not> ok then (kNoQuorum, [], n)
                   else (kCreated, resp, after_ownership_change i (cast_vote i prop new_owner n)))))
       | _ \<Rightarrow> (kInvalid, [], n)))"

definition handle_claim :: "'s env \<Rightarrow> ReqCtx \<Rightarrow> bytes \<Rightarrow> 's node \<Rightarrow> 's node" where
  "handle_claim E ctx msg n =
    (let (code, resp, n) = claim_reply E (ctx_from ctx) msg n in respond_to E ctx code resp n)"

definition claim_retry :: "'s env \<Rightarrow> nat \<Rightarrow> JobId \<Rightarrow> 's node \<Rightarrow> 's node" where
  "claim_retry E t i n =
    (case map_of (claims (snd n)) i of
       None \<Rightarrow> n
     | Some c \<Rightarrow>
        (let n = upd (\<lambda>q. q\<lparr>claims := AList.update i (c\<lparr>next_retry := t + ms 1000\<rparr>) (claims q)\<rparr>) n in
         case find_job i n of
           None \<Rightarrow> n
         | Some j \<Rightarrow>
             fold (\<lambda>(s, m) n.
               if acked_mask c AND push_bit s 1 = 0 \<and> m_is_alive (e_mem E) m then claim_send E i m n else n)
               (slots_of (snd n) j) n))"

definition claim_tick :: "'s env \<Rightarrow> nat \<Rightarrow> 's node \<Rightarrow> 's node" where
  "claim_tick E t n =
    (if t < next_claim_tick (snd n) then n
     else
      (let n = upd (\<lambda>q. q\<lparr>next_claim_tick := t + ms 500\<rparr>) n;
           due = map fst (filter (\<lambda>(i, c). t \<ge> next_retry c) (claims (snd n)))
       in fold (claim_retry E t) due n))"


section \<open>Draining\<close>

definition drain :: "'s node \<Rightarrow> 's node" where
  "drain = upd (\<lambda>q. q\<lparr>draining := True, drain_cb := True, next_drain_tick := 0\<rparr>)"

definition drain_target :: "'s env \<Rightarrow> qnode \<Rightarrow> Job \<Rightarrow> Endpoint option" where
  "drain_target E q j =
     List.find (\<lambda>r. r \<noteq> Endpoint0 \<and> r \<noteq> self (cfg q) \<and> m_is_alive (e_mem E) r) (replicas j)"

definition drain_pending :: "qnode \<Rightarrow> Job \<Rightarrow> bool" where
  "drain_pending q j \<longleftrightarrow> owned_by_me q j \<and> state j \<noteq> Done \<and> state j \<noteq> DeadLetter"

definition drain_tick :: "'s env \<Rightarrow> nat \<Rightarrow> 's node \<Rightarrow> 's node" where
  "drain_tick E t n =
    (if \<not> draining (snd n) \<or> t < next_drain_tick (snd n) then n
     else
      (let n = upd (\<lambda>q. q\<lparr>next_drain_tick := t + ms 500\<rparr>) n;
           todo = filter (\<lambda>(i, j). drain_pending (snd n) j) (jobs (st (snd n)));
           n = fold (\<lambda>(i, j) n.
                 case drain_target E (snd n) j of
                   None \<Rightarrow> n
                 | Some r \<Rightarrow> snd (rpc_call E r DrainHandoff (put_job_id [] i) DrainCont n)) todo n
       in if todo = [] \<and> drain_cb (snd n)
          then reply DrainReply (upd (\<lambda>q. q\<lparr>drain_cb := False\<rparr>) n) else n))"

definition handle_drain_handoff :: "'s env \<Rightarrow> ReqCtx \<Rightarrow> bytes \<Rightarrow> 's node \<Rightarrow> 's node" where
  "handle_drain_handoff E ctx msg n =
    (if length msg < kJobIdSize then respond_to E ctx kInvalid [] n
     else
      (case get_job_id msg 0 of
         None \<Rightarrow> n
       | Some i \<Rightarrow>
          (case find_job i n of
             None \<Rightarrow> respond_to E ctx kUnknownJob [] n
           | Some j \<Rightarrow>
              respond_to E ctx kCreated []
                (if ctx_from ctx = owner j \<and> \<not> owned_by_me (snd n) j then start_takeover E i n else n))))"


section \<open>The node\<close>

text \<open>Running a response callback, and the handlers the constructor registers.\<close>

definition run_cont :: "'s env \<Rightarrow> cont \<Rightarrow> u32 \<Rightarrow> bytes \<Rightarrow> 's node \<Rightarrow> 's node" where
  "run_cont E k code resp n =
    (case k of
       FwdSubmitCont t \<Rightarrow> on_fwd_submit_resp t code resp n
     | StatusCont i targets index best t \<Rightarrow> on_status_resp E i targets index best t code resp n
     | ReplicateCont i slot \<Rightarrow> on_replicate_resp E i slot code n
     | ApplyCont i s x \<Rightarrow> on_apply_resp E i s x code n
     | FwdAckCont t \<Rightarrow> reply (AckReply t code) n
     | ClaimCont i to \<Rightarrow> on_claim_resp E i to code resp n
     | ResyncCont i \<Rightarrow> on_resync_resp E i code resp n
     | DrainCont \<Rightarrow> n)"

definition handler :: "'s env \<Rightarrow> Method \<Rightarrow> (ReqCtx \<Rightarrow> bytes \<Rightarrow> 's node \<Rightarrow> 's node) option" where
  "handler E m =
    (case m of
       FwdSubmit \<Rightarrow> Some (handle_fwd_submit E)
     | Replicate \<Rightarrow> Some (handle_replicate E)
     | Apply \<Rightarrow> Some (handle_apply E)
     | FwdAck \<Rightarrow> Some (handle_fwd_ack E)
     | FwdStatus \<Rightarrow> Some (handle_fwd_status E)
     | Claim \<Rightarrow> Some (handle_claim E)
     | Resync \<Rightarrow> Some (handle_resync E)
     | DrainHandoff \<Rightarrow> Some (handle_drain_handoff E)
     | _ \<Rightarrow> None)"

definition queue_app :: "'s env \<Rightarrow> ('s, cont, qnode) app" where
  "queue_app E = \<lparr>fire = run_cont E, serve = handler E\<rparr>"

definition open_job :: "'s env \<Rightarrow> JobId \<times> Job \<Rightarrow> 's node \<Rightarrow> 's node" where
  "open_job E ij n =
    (let (i, j) = ij in
     if \<not> owned_by_me (snd n) j then n
     else
      (let n = set_repair i n;
           n = (if state j = Ready then upd (\<lambda>q. q\<lparr>ready := ready q @ [i]\<rparr>) n
                else if state j = Leased then set_deadline i (now (fst n) + ms (unat (visibility_ms j))) n
                else n)
       in if state j = Ready \<or> state j = Leased then resync_job E i n else n))"

definition queue_open :: "'s env \<Rightarrow> 's node \<Rightarrow> (bool \<times> 's node) option" where
  "queue_open E n = do {
     (ok, s) \<leftarrow> store_open (e_crc E) (data_dir (cfg (snd n))) (st (snd n));
     let n = upd (\<lambda>q. q\<lparr>st := s\<rparr>) n;
     Some (if \<not> ok then (False, n) else (True, fold (open_job E) (jobs s) n))
   }"

definition queue_poll :: "'s env \<Rightarrow> 's node \<Rightarrow> 's node" where
  "queue_poll E n = rpc_poll (e_ops E) (queue_app E) n"

definition queue_tick :: "'s env \<Rightarrow> 's node \<Rightarrow> 's node" where
  "queue_tick E n =
    (let n = rpc_tick (e_ops E) (queue_app E) n; t = now (fst n);
         n = expiry_tick E t n;
         n = repair_tick E t n;
         n = claim_tick E t n
     in drain_tick E t n)"

definition successor_of :: "'s env \<Rightarrow> Job \<Rightarrow> Endpoint" where
  "successor_of E j =
    (case List.find (\<lambda>r. r \<noteq> Endpoint0 \<and> m_is_alive (e_mem E) r) (replicas j) of
       None \<Rightarrow> Endpoint0 | Some r \<Rightarrow> r)"

definition on_peer_dead :: "'s env \<Rightarrow> Endpoint \<Rightarrow> 's node \<Rightarrow> 's node" where
  "on_peer_dead E peer n =
    (let n = peer_dead (queue_app E) peer n;
         to_claim = map fst (filter (\<lambda>(i, j).
            \<not> (owned_by_me (snd n) j \<or> m_is_alive (e_mem E) (owner j) \<or> state j = Done \<or> state j = DeadLetter) \<and>
            successor_of E j = self (cfg (snd n))) (jobs (st (snd n))))
     in fold (start_takeover E) to_claim n)"

definition on_peer_alive :: "Endpoint \<Rightarrow> 's node \<Rightarrow> 's node" where
  "on_peer_alive peer n =
    (let to_repair = map fst (filter (\<lambda>(i, j). owned_by_me (snd n) j \<and> peer \<in> set (replicas j)) (jobs (st (snd n))))
     in fold set_repair to_repair n)"

end
