(* ===== verification/Queue_Params.thy ===== *)
theory Queue_Params
  imports Queue
begin

text \<open>
  The encoding of a forwarded submission: \<open>encode_params\<close> and \<open>decode_params\<close> of
  \<^verbatim>\<open>src/src/queue_node.cc\<close>, and the jobs made from submissions.
\<close>

section \<open>Bounds on submissions\<close>

definition params_ok :: "SubmitParams \<Rightarrow> bool" where
  "params_ok p \<longleftrightarrow> length (p_idem_key p) \<le> kMaxIdemKey \<and> length (p_url p) \<le> kMaxUrl \<and> length (p_body p) \<le> kMaxJobBody"

lemma encode_params_eq:
  "encode_params p = str_bytes (p_idem_key p) @ str_bytes (p_url p) @ u16_bytes (word_of_nat (length (p_body p))) @
     p_body p @ u32_bytes (p_visibility_ms p) @ u32_bytes (p_max_attempts p)"
  by (simp add: encode_params_def Let_def put_append str_bytes_def)

lemma decode_params_cases:
  assumes "decode_params b = Some (Some p)"
  obtains o1 k o2 u m bd v a where
    "get_str b 0 kMaxIdemKey = Some (Some (o1, k))" "get_str b o1 kMaxUrl = Some (Some (o2, u))"
    "get_u16 b o2 = Some m" "unat m \<le> kMaxJobBody" "o2 + 2 + unat m + 8 \<le> length b"
    "get_run b (o2 + 2) (unat m) = Some bd" "get_u32 b (o2 + 2 + unat m) = Some v" "get_u32 b (o2 + 2 + unat m + 4) = Some a"
    "p = \<lparr>p_idem_key = k, p_url = u, p_body = bd, p_visibility_ms = v, p_max_attempts = a\<rparr>"
  using assms unfolding decode_params_def Let_def
  by (elim decode_elims) (rule that, (assumption | simp)+)

lemma decode_params_SomeD:
  assumes "decode_params b = Some (Some p)"
  shows "params_ok p" "\<exists>rest. b = encode_params p @ rest"
proof -
  from assms obtain o1 k o2 u m bd v a where
    k: "get_str b 0 kMaxIdemKey = Some (Some (o1, k))" and u: "get_str b o1 kMaxUrl = Some (Some (o2, u))"
    and m: "get_u16 b o2 = Some m" "unat m \<le> kMaxJobBody" "o2 + 2 + unat m + 8 \<le> length b"
    and run: "get_run b (o2 + 2) (unat m) = Some bd"
    and va: "get_u32 b (o2 + 2 + unat m) = Some v" "get_u32 b (o2 + 2 + unat m + 4) = Some a"
    and p0: "p = \<lparr>p_idem_key = k, p_url = u, p_body = bd, p_visibility_ms = v, p_max_attempts = a\<rparr>"
    by (rule decode_params_cases)
  have p: "p = \<lparr>p_idem_key = k, p_url = u, p_body = take (unat m) (drop (o2 + 2) b), p_visibility_ms = v, p_max_attempts = a\<rparr>"
    using p0 run m(3) get_run_eq [of "o2 + 2" "unat m" b] by simp
  have bd: "length (p_body p) = unat m" using m p by simp
  show "params_ok p"
    using get_str_SomeD(1) [OF k] get_str_SomeD(1) [OF u] m(2) bd by (simp add: params_ok_def p)
  have "b = str_bytes k @ drop o1 b" using get_str_SomeD(4) [OF k] by (simp add: remaining_def)
  also have "drop o1 b = str_bytes u @ drop o2 b" using get_str_SomeD(4) [OF u] by (simp add: remaining_def)
  also have "drop o2 b = u16_bytes m @ drop (o2 + 2) b" by (rule u16x.drop_get [OF m(1)]) simp
  also have "drop (o2 + 2) b = p_body p @ drop (o2 + 2 + unat m) b"
    using append_take_drop_id [of "unat m" "drop (o2 + 2) b"] by (simp add: p add.commute [of "unat m"])
  also have "drop (o2 + 2 + unat m) b = u32_bytes v @ drop (o2 + 2 + unat m + 4) b"
    by (rule u32x.drop_get [OF va(1)]) simp
  also have "drop (o2 + 2 + unat m + 4) b = u32_bytes a @ drop (o2 + 2 + unat m + 8) b"
    by (rule u32x.drop_get [OF va(2)]) simp
  finally have "b = encode_params p @ drop (o2 + 2 + unat m + 8) b"
    using bd by (simp add: encode_params_eq p)
  then show "\<exists>rest. b = encode_params p @ rest" by blast
qed

lemma decode_params_read:
  assumes "params_ok p"
  shows "decode_params (encode_params p @ rest) = Some (Some p)"
proof -
  let ?b = "encode_params p @ rest" and ?k = "p_idem_key p" and ?u = "p_url p" and ?n = "length (p_body p)"
  note w = assms [unfolded params_ok_def kMaxIdemKey_def kMaxUrl_def kMaxJobBody_def]
  have p0: "remaining ?b 0 (str_bytes ?k @ str_bytes ?u @ u16_bytes (word_of_nat ?n) @ p_body p @
      u32_bytes (p_visibility_ms p) @ u32_bytes (p_max_attempts p) @ rest)"
    by (simp add: remaining_def encode_params_eq)
  let ?o1 = "2 + length ?k"
  have k: "get_str ?b 0 64 = Some (Some (?o1, ?k))"
    and p1: "remaining ?b ?o1 (str_bytes ?u @ u16_bytes (word_of_nat ?n) @ p_body p @
      u32_bytes (p_visibility_ms p) @ u32_bytes (p_max_attempts p) @ rest)"
    using get_str_read [OF p0, of 64] w by simp_all
  let ?o2 = "?o1 + 2 + length ?u"
  have u: "get_str ?b ?o1 256 = Some (Some (?o2, ?u))"
    and p2: "remaining ?b ?o2 (u16_bytes (word_of_nat ?n) @ p_body p @
      u32_bytes (p_visibility_ms p) @ u32_bytes (p_max_attempts p) @ rest)"
    using get_str_read [OF p1, of 256] w by simp_all
  note p3 = u16f.step [OF p2]
  note p4 = remaining_step [OF p3]
  note p5 = u32f.step [OF p4]
  have n: "get_u16 ?b ?o2 = Some (word_of_nat ?n)" "unat (word_of_nat ?n :: u16) = ?n"
    using u16f.get_enc [OF p2] unat_word_of_length [of ?n] w by simp_all
  have len: "?o2 + 2 + ?n + 8 \<le> length ?b"
    using remaining_length [OF p5] by (simp add: u32f.enc_length)
  have run: "get_run ?b (?o2 + 2) ?n = Some (p_body p)"
    using get_run_eq [of "?o2 + 2" ?n ?b] remaining_take [OF p3] len by simp
  show ?thesis
    using k u n u32f.get_enc [OF p4] u32f.get_enc [OF p5] run len w
    by (simp add: decode_params_def kMaxIdemKey_def kMaxUrl_def kMaxJobBody_def)
qed

lemma decode_params_safe: "safe (decode_params b)"
  unfolding decode_params_def Let_def by (intro safe_intros) simp_all

lemma encode_params_length:
  "params_ok p \<Longrightarrow> length (encode_params p) = 14 + length (p_idem_key p) + length (p_url p) + length (p_body p)"
  by (simp add: encode_params_eq str_bytes_def u16f.enc_length u32f.enc_length)


section \<open>Jobs made from submissions\<close>

lemma fill_slots_length [simp]: "length (fill_slots me xs s rs) = length rs"
  by (induction me xs s rs rule: fill_slots.induct) simp_all

lemma replica_set_length [simp]: "length (replica_set k alive) = 3"
  by (simp add: replica_set_walk)

lemma new_job_wf: "params_ok p \<Longrightarrow> wf_job (new_job E p q)"
  using wf_job_states(1) by (simp add: new_job_def params_ok_def wf_job_def Job0_def choose_replicas_def Let_def)


section \<open>Properties\<close>

text \<open>
  C27. Forwarded submissions: the owner decodes exactly the frames a gateway encodes from parameters
  within the limits, whatever follows them; no input makes the decoder read outside the frame; and
  an encoded submission fits the body of one RPC.
\<close>

theorem forwarded_params_roundtrip:
  "decode_params b \<noteq> None \<and>
   (decode_params b = Some (Some p) \<longleftrightarrow> params_ok p \<and> (\<exists>rest. b = encode_params p @ rest)) \<and>
   (params_ok p \<longrightarrow> length (encode_params p) \<le> kMaxRpcBody)"
proof (intro conjI impI)
  show "decode_params b \<noteq> None" using decode_params_safe by (simp add: safe_def)
  show "decode_params b = Some (Some p) \<longleftrightarrow> params_ok p \<and> (\<exists>rest. b = encode_params p @ rest)"
    using decode_params_SomeD [of b p] decode_params_read [of p] by blast
  assume "params_ok p"
  then show "length (encode_params p) \<le> kMaxRpcBody"
    using encode_params_length [of p]
    by (simp add: params_ok_def kMaxIdemKey_def kMaxUrl_def kMaxJobBody_def kMaxRpcBody_def)
qed

theorem forwarded_params_roundtrip_witness:
  "let p = \<lparr>p_idem_key = ''k'', p_url = ''http://u'', p_body = [1, 2, 3], p_visibility_ms = 7, p_max_attempts = 0\<rparr>
   in params_ok p \<and> decode_params (encode_params p @ [9]) = Some (Some p) \<and> length (encode_params p) \<le> kMaxRpcBody"
proof -
  let ?p = "\<lparr>p_idem_key = ''k'', p_url = ''http://u'', p_body = [1, 2, 3], p_visibility_ms = 7, p_max_attempts = 0\<rparr>"
  have "params_ok ?p" by (simp add: params_ok_def kMaxIdemKey_def kMaxUrl_def kMaxJobBody_def)
  then show ?thesis using forwarded_params_roundtrip [of "encode_params ?p @ [9]" ?p] by (auto simp: Let_def)
qed

end
