(* ===== verification/Queue_Steps.thy ===== *)
theory Queue_Steps
  imports Queue_Params
begin

text \<open>
  How the operations of a queue node are put together from a few primitive steps. A relation between
  nodes that holds of the primitives holds of every operation: this is proved once, in three locales,
  and interpreted for each relation of interest. The relation carries the requests that enter with the
  step, as a multiset of tokens.
\<close>

section \<open>Tokens\<close>

primrec cb_tokens :: "reply_cb \<Rightarrow> token multiset" where
  "cb_tokens (Client t) = {#t#}"
| "cb_tokens (Remote ctx) = {#}"

primrec qcb_tokens :: "quorum_cb \<Rightarrow> token multiset" where
  "qcb_tokens NoDone = {#}"
| "qcb_tokens (LeaseDone i t) = {#t#}"
| "qcb_tokens (AckDone i c) = cb_tokens c"

primrec cont_tokens :: "cont \<Rightarrow> token multiset" where
  "cont_tokens (FwdSubmitCont t) = {#t#}"
| "cont_tokens (StatusCont i targets index best t) = {#t#}"
| "cont_tokens (ReplicateCont i slot) = {#}"
| "cont_tokens (ApplyCont i s k) = {#}"
| "cont_tokens (FwdAckCont t) = {#t#}"
| "cont_tokens (ClaimCont i to) = {#}"
| "cont_tokens (ResyncCont i) = {#}"
| "cont_tokens DrainCont = {#}"

primrec reply_tokens :: "reply \<Rightarrow> token multiset" where
  "reply_tokens (SubmitReply t s i) = {#t#}"
| "reply_tokens (StatusReply t s j) = {#t#}"
| "reply_tokens (LeaseReply t s g) = {#t#}"
| "reply_tokens (AckReply t s) = {#t#}"
| "reply_tokens DrainReply = {#}"
| "reply_tokens (LatencySample x) = {#}"


section \<open>Well-formed nodes\<close>

definition minted :: "qnode \<Rightarrow> JobId \<Rightarrow> bool" where
  "minted q i \<longleftrightarrow> (\<exists>sq. sq < next_job_seq q \<and> i = mint_id (self (cfg q)) (qboot q) sq)"

definition future :: "qnode \<Rightarrow> JobId \<Rightarrow> bool" where
  "future q i \<longleftrightarrow> (\<exists>sq. next_job_seq q \<le> sq \<and> i = mint_id (self (cfg q)) (qboot q) sq)"

text \<open>One of the two counters has wrapped around.\<close>

definition wrapped :: "'s node \<Rightarrow> bool" where
  "wrapped n \<longleftrightarrow> req_wrapped (fst n) \<or> seq_wrapped (snd n)"

definition calls_ok :: "('s, 'k) rpc \<Rightarrow> bool" where
  "calls_ok r \<longleftrightarrow> dict (calls r) \<and> (req_wrapped r \<or> (\<forall>i \<in> fst ` set (calls r). i < next_req r))"

definition queue_ok :: "qnode \<Rightarrow> bool" where
  "queue_ok q \<longleftrightarrow> dict (pending_submits q) \<and> (seq_wrapped q \<or> (\<forall>i \<in> fst ` set (pending_submits q). minted q i)) \<and>
     dict (qstates q) \<and> (\<forall>k \<in> fst ` set (qstates q). k < next_q q) \<and>
     (\<forall>i j. find i (st q) = Some j \<longrightarrow> job_id j = i \<and> wf_job j)"

definition node_ok :: "'s node \<Rightarrow> bool" where
  "node_ok n \<longleftrightarrow> calls_ok (fst n) \<and> queue_ok (snd n)"


section \<open>Changes bookkeeping does not look at\<close>

lemma map_of_fst_None: "map_of xs k = None \<longleftrightarrow> k \<notin> fst ` set xs"
  by (auto simp: map_of_eq_None_iff)

lemma upd_simps [simp]: "fst (upd f n) = fst n" "snd (upd f n) = f (snd n)"
  by (simp_all add: upd_def)

text \<open>Changes to the fields that bookkeeping does not look at.\<close>

definition framed :: "qnode \<Rightarrow> qnode \<Rightarrow> bool" where
  "framed q q' \<longleftrightarrow> cfg q' = cfg q \<and> qboot q' = qboot q \<and> null_deref q' = null_deref q \<and> st q' = st q \<and>
     next_job_seq q' = next_job_seq q \<and> seq_wrapped q' = seq_wrapped q \<and> pending_submits q' = pending_submits q \<and>
     qstates q' = qstates q \<and> next_q q' = next_q q \<and> out q' = out q \<and> history q' = history q \<and>
     votes q' = votes q"

lemma framed_simps [simp]:
  "framed q (q\<lparr>repair := x\<rparr>)" "framed q (q\<lparr>next_repair := t\<rparr>)" "framed q (q\<lparr>ready := xs\<rparr>)"
  "framed q (q\<lparr>lease_deadline := d\<rparr>)" "framed q (q\<lparr>not_before := d\<rparr>)" "framed q (q\<lparr>counters := c\<rparr>)"
  "framed q (q\<lparr>submit_time := d\<rparr>)" "framed q (q\<lparr>claims := cl\<rparr>)" "framed q (q\<lparr>resync_inflight := ri\<rparr>)"
  "framed q (q\<lparr>next_claim_tick := t\<rparr>)" "framed q (q\<lparr>next_drain_tick := t\<rparr>)" "framed q (q\<lparr>drain_cb := b\<rparr>)"
  "framed q (q\<lparr>draining := b\<rparr>)"
  "framed q (q\<lparr>ready := xs, not_before := d\<rparr>)" "framed q (q\<lparr>lease_deadline := d, not_before := d'\<rparr>)"
  "framed q (q\<lparr>lease_deadline := d, not_before := d', repair := x, claims := cl\<rparr>)"
  "framed q (q\<lparr>draining := b, drain_cb := b', next_drain_tick := t\<rparr>)"
  by (simp_all add: framed_def)

text \<open>A record whose effect on epochs is confined to identifiers not minted yet.\<close>

definition tame :: "qnode \<Rightarrow> Record \<Rightarrow> bool" where
  "tame q r \<longleftrightarrow> (\<forall>j. r = SubmitRec j \<longrightarrow> future q (job_id j))"

lemma tame_other [simp]: "\<not> (\<exists>j. r = SubmitRec j) \<Longrightarrow> tame q r"
  by (simp add: tame_def)

lemma transition_simps [simp]: "\<not> full_copy r \<Longrightarrow> tame q r" "\<not> full_copy r \<Longrightarrow> wf_rec r"
  by (cases r; simp add: tame_def)+

lemma commit_find:
  assumes "commit_rec E r n = (ok, n')"
  shows "find_job i n' = (if ok then find i (apply_rec r (st (snd n))) else find_job i n)"
    "fst n' = fst n"
    "snd n' = (snd n)\<lparr>st := snd (commit (e_crc E) r True (st (snd n))), history := history (snd n) @ [r]\<rparr>"
proof -
  obtain s' where c: "commit (e_crc E) r True (st (snd n)) = (ok, s')"
      and n': "n' = upd (\<lambda>q. q\<lparr>st := s', history := history q @ [r]\<rparr>) n"
    using assms by (cases "commit (e_crc E) r True (st (snd n))") (auto simp: commit_rec_def)
  obtain w where "s' = (if ok then apply_rec r (st (snd n)) else st (snd n))\<lparr>swal := w\<rparr>"
    using commit_st [OF c] by blast
  then show "find_job i n' = (if ok then find i (apply_rec r (st (snd n))) else find_job i n)"
    using n' by (simp add: find_job_def)
  show "fst n' = fst n"
    "snd n' = (snd n)\<lparr>st := snd (commit (e_crc E) r True (st (snd n))), history := history (snd n) @ [r]\<rparr>"
    using n' c by simp_all
qed

lemma commit_keeps_job: "commit_rec E r n = (ok, n') \<Longrightarrow> find_job i n \<noteq> None \<Longrightarrow> find_job i n' \<noteq> None"
  using commit_find(1) [of E r n ok n' i] job_step_None [of r "find_job i n"]
  by (auto simp: find_apply_rec find_job_def split: if_splits)

lemma rpc_call_snd: "rpc_call E to m b k n = (s, n') \<Longrightarrow> snd n' = snd n"
  by (auto simp: rpc_call_def split: prod.splits)



lemma mint_id_seq: "(ucast (nonce (mint_id me b sq)) :: u32) = sq"
  by (rule bit_word_eqI) (auto simp: mint_id_def bit_simps)

lemma mint_id_inj: "mint_id me b sq = mint_id me b sq' \<longleftrightarrow> sq = sq'"
  using mint_id_seq [of me b sq] mint_id_seq [of me b sq'] by metis

lemma minted_update [simp]: "minted (q\<lparr>seq_wrapped := b\<rparr>) = minted q" "minted (q\<lparr>st := s\<rparr>) = minted q"
  "minted (q\<lparr>history := h\<rparr>) = minted q"
  by (simp_all add: minted_def fun_eq_iff)

lemma new_job_id [simp]: "job_id (new_job E p q) = mint_id (self (cfg q)) (qboot q) (next_job_seq q)"
  by (simp add: new_job_def)

lemma lease_scan_framed: "framed q (snd (lease_scan m t q))"
proof (induction m arbitrary: q)
  case (Suc m)
  have "framed q q'" if "framed (q\<lparr>ready := xs\<rparr>) q'" for xs q' using that by (simp add: framed_def)
  note tr = this [OF Suc]
  show ?case
    using tr by (simp add: Let_def framed_def split: list.split option.split)
qed (simp add: framed_def)

lemma lease_scan_found:
  "lease_scan m t q = (Some j, q') \<Longrightarrow> \<exists>i. find i (st q) = Some j \<and> state j = Ready \<and> owner j = self (cfg q)"
proof (induction m arbitrary: q)
  case (Suc m)
  have IH: "\<exists>i. find i (st q) = Some j \<and> state j = Ready \<and> owner j = self (cfg q)"
    if "lease_scan m t (q\<lparr>ready := xs\<rparr>) = (Some j, q')" for xs
    using Suc.IH [OF that] by simp
  show ?case
    using Suc.prems IH by (auto simp: Let_def owned_by_me_def split: list.splits option.splits if_splits)
qed simp

lemma find_job_upd [simp]: "(\<And>q. st (f q) = st q) \<Longrightarrow> find_job i (upd f n) = find_job i n"
  by (simp add: find_job_def)

lemma find_job_bump [simp]: "find_job i (bump f n) = find_job i n"
  by (simp add: bump_def)

lemma merged_record_transition: "merged_record i c j = (Some r, arm) \<Longrightarrow> \<not> full_copy r"
  by (auto simp: merged_record_def Let_def split: if_splits)

lemma rec_meta_transition: "rec_meta r = Some x \<Longrightarrow> \<not> full_copy r"
  by (cases r) (simp_all add: rec_meta_def)


section \<open>Primitive steps and what is built from them\<close>

text \<open>A vote is for the owner of the job in its epoch; epoch zero is only reached by wrapping around.\<close>

definition may_vote :: "JobId \<Rightarrow> u32 \<Rightarrow> Endpoint \<Rightarrow> 's node \<Rightarrow> bool" where
  "may_vote i p a n \<longleftrightarrow> p = 0 \<or> (\<exists>j. find_job i n = Some j \<and> epoch j = p \<and> owner j = a)"

lemma find_job_cast_vote [simp]: "find_job l (cast_vote i p a n) = find_job l n"
  by (simp add: cast_vote_def)

lemma cfg_cast_vote [simp]: "cfg (snd (cast_vote i p a n)) = cfg (snd n)"
  by (simp add: cast_vote_def)

text \<open>After a takeover of a higher epoch is logged, its owner may be voted for.\<close>

lemma takeover_may_vote:
  assumes "find_job i n = Some j" "p = 0 \<or> epoch j < p" "commit_rec E (TakeoverRec i p a) n = (True, m)"
  shows "may_vote i p a m"
  using assms commit_find(1) [OF assms(3), of i] by (auto simp: may_vote_def find_apply_rec find_job_def)

text \<open>
  The laws of a relation on steps.
\<close>

locale node_steps =
  fixes E :: "'s env" and R :: "token multiset \<Rightarrow> 's node \<Rightarrow> 's node \<Rightarrow> bool"
  assumes R_refl [simp]: "R {#} n n"
    and R_trans: "R X n m \<Longrightarrow> R Y m k \<Longrightarrow> R (X + Y) n k"
    and R_framed: "framed q q' \<Longrightarrow> R {#} (r, q) (r, q')"
    and R_reply [simp]: "R (reply_tokens x) n (reply x n)"
    and R_quiet: "quiet r r' \<Longrightarrow> R {#} (r, q) (r', q)"
    and R_commit: "tame (snd n) c \<Longrightarrow> wf_rec c \<Longrightarrow> commit_rec E c n = (ok, n') \<Longrightarrow> R {#} n n'"
    and R_call: "rpc_call E to meth b kt n = (s, n') \<Longrightarrow> R (if s = None then cont_tokens kt else {#}) n n'"
    and R_vote: "may_vote i p a n \<Longrightarrow> R {#} n (cast_vote i p a n)"
begin

lemma step_then [trans]: "R X n m \<Longrightarrow> R {#} m k \<Longrightarrow> R X n k"
  using R_trans [of X n m "{#}" k] by simp

lemma step_before: "R {#} n m \<Longrightarrow> R X m k \<Longrightarrow> R X n k"
  using R_trans [of "{#}" n m X k] by simp

lemma step_fold: "(\<And>x n. x \<in> set xs \<Longrightarrow> R {#} n (f x n)) \<Longrightarrow> R {#} n (fold f xs n)"
proof (induction xs arbitrary: n)
  case (Cons x xs)
  have "R {#} (f x n) (fold f xs (f x n))" by (rule Cons.IH) (simp add: Cons.prems)
  then show ?case using step_then [OF Cons.prems [of x n]] by simp
qed simp


lemma step_upd [simp]: "(\<And>q. framed q (f q)) \<Longrightarrow> R {#} n (upd f n)"
  unfolding upd_def using R_framed [of "snd n" "f (snd n)" "fst n"] by simp

lemma step_bump [simp]: "R {#} n (bump f n)"
  by (simp add: bump_def)

lemma step_set_repair [simp]: "R {#} n (set_repair i n)"
  by (simp add: set_repair_def)

lemma step_requeue_ready [simp]: "R {#} n (requeue_ready i t n)"
  by (simp add: requeue_ready_def)

lemma step_set_deadline [simp]: "R {#} n (set_deadline i t n)"
  by (simp add: set_deadline_def)

lemma step_mark_replica_ok [simp]: "R {#} n (mark_replica_ok i s n)"
  by (auto simp: mark_replica_ok_def Let_def split: option.split)

lemma step_after_ownership_change [simp]: "R {#} n (after_ownership_change i n)"
  by (auto simp: after_ownership_change_def split: option.split)

lemma step_respond_to [simp]: "R {#} n (respond_to E ctx s b n)"
  using R_quiet [OF quiet_respond, of "fst n" "snd n"] by (simp add: respond_to_def)

lemma step_submit_cb [simp]: "R (cb_tokens c) n (submit_cb E c s i n)"
  using R_reply [of "SubmitReply _ s i" n] by (simp add: submit_cb_def split: reply_cb.split)

lemma step_ack_cb [simp]: "R (cb_tokens c) n (ack_cb E c s n)"
  using R_reply [of "AckReply _ s" n] by (simp add: ack_cb_def split: reply_cb.split)



lemma step_commit [simp]: "tame (snd n) r \<Longrightarrow> wf_rec r \<Longrightarrow> R {#} n (snd (commit_rec E r n))"
  by (rule R_commit [where ok = "fst (commit_rec E r n)"]) simp_all

lemma step_on_resync_resp [simp]: "R {#} n (on_resync_resp E i code resp n)"
proof -
  let ?m = "case map_of (resync_inflight (snd n)) i of None \<Rightarrow> n
    | Some c \<Rightarrow> upd (\<lambda>q. q\<lparr>resync_inflight := (if c - 1 \<le> 0 then AList.delete i (resync_inflight q)
        else AList.update i (c - 1) (resync_inflight q))\<rparr>) n"
  have m: "R {#} n ?m" by (auto split: option.split)
  have "R {#} ?m (after_ownership_change i (snd (commit_rec E (ReplicateRec remote) ?m)))" if "wf_job remote" for remote
    by (rule step_then [OF step_commit step_after_ownership_change]) (simp_all add: that)
  from step_then [OF m this] m show ?thesis
    by (auto simp: on_resync_resp_def Let_def dest: get_job_SomeD(1) split: option.split prod.split)
qed

lemma step_send:
  assumes "cont_tokens k = {#}" "\<And>code n'. R {#} n' (f code n')"
  shows "R {#} n (let (s, n') = rpc_call E to m b k n in case s of None \<Rightarrow> n' | Some code \<Rightarrow> f code n')"
proof -
  obtain s n' where c: "rpc_call E to m b k n = (s, n')" by (meson surj_pair)
  have "R {#} n n'" using R_call [OF c] assms(1) by (simp split: if_splits)
  then show ?thesis using c step_then [OF _ assms(2)] by (auto split: option.split)
qed

lemma step_resync_send [simp]: "R {#} n (resync_send E i m n)"
  unfolding resync_send_def by (rule step_send) simp_all

lemma step_resync_job [simp]: "R {#} n (resync_job E i n)"
proof -
  have f: "R {#} n (fold (resync_send E i) ms n)" for ms by (rule step_fold) simp
  have "R {#} n (upd (\<lambda>q. q\<lparr>resync_inflight := F q\<rparr>) (fold (resync_send E i) ms n))" for F ms
    by (rule step_then [OF f [of ms]]) simp
  then show ?thesis using f by (auto simp: resync_job_def Let_def split: option.split)
qed

text \<open>A call whose callback answers the request it holds.\<close>

lemma step_ask:
  assumes "\<And>code n'. R (cont_tokens k) n' (f code n')"
  shows "R (cont_tokens k) n (let (s, n') = rpc_call E to m b k n in case s of None \<Rightarrow> n' | Some code \<Rightarrow> f code n')"
proof -
  obtain s n' where c: "rpc_call E to m b k n = (s, n')" by (meson surj_pair)
  show ?thesis
    using R_call [OF c] c step_before [OF _ assms, of n n'] by (cases s) simp_all
qed

lemma step_lease_done [simp]: "R {#t#} n (lease_done E i t ok n)"
proof -
  have r: "R {#t#} m (reply (LeaseReply t s g) m)" for m :: "'s node" and s g
    using R_reply [of "LeaseReply t s g" m] by simp
  have 1: "R {#} n (requeue_ready i u (snd (commit_rec E (ExpireRec i ep sq) n)))" for u ep sq
    by (rule step_then [OF step_commit step_requeue_ready]) simp_all
  have 2: "R {#} n (upd (\<lambda>q. q\<lparr>lease_deadline := F q\<rparr>) (bump f n))" for F f
    by (rule step_then [OF step_bump step_upd]) simp
  show ?thesis
    by (auto simp: lease_done_def Let_def r intro: step_before [OF 1 r] step_before [OF 2 r] split: option.split)
qed

lemma step_ack_done [simp]: "R (cb_tokens c) n (ack_done E i c ok n)"
proof -
  let ?m = "case map_of (submit_time (snd n)) i of None \<Rightarrow> n
    | Some ts \<Rightarrow> upd (\<lambda>q. q\<lparr>submit_time := AList.delete i (submit_time q)\<rparr>) (reply (LatencySample (now (fst n) - ts)) n)"
  have "R {#} n (upd (\<lambda>q. q\<lparr>submit_time := F q\<rparr>) (reply (LatencySample x) n))" for F x
    by (rule step_then [OF _ step_upd]) (use R_reply [of "LatencySample x" n] in simp_all)
  then have m: "R {#} n ?m" by (simp split: option.split)
  let ?k = "if ok then bump (\<lambda>k. k\<lparr>completions_ok := completions_ok k + 1\<rparr>) ?m else ?m"
  have "R {#} ?m ?k" by simp
  from step_before [OF step_then [OF m this] step_ack_cb] show ?thesis
    unfolding ack_done_def Let_def .
qed

lemma step_run_done [simp]: "R (qcb_tokens d) n (run_done E d ok n)"
  by (simp add: run_done_def split: quorum_cb.split)

end


section \<open>Submissions and quorum commits\<close>

text \<open>A job just minted has no pending submission.\<close>

lemma submit_fresh:
  fixes n :: "'s node" and E :: "'s env" and p :: SubmitParams
  defines "m \<equiv> bump (\<lambda>k. k\<lparr>submits := submits k + 1\<rparr>) n"
  defines "j \<equiv> new_job E p (snd m)"
  assumes ok: "node_ok n"
    and c: "commit_rec E (SubmitRec j) (upd (\<lambda>q. q\<lparr>next_job_seq := next_job_seq q + 1,
      seq_wrapped := seq_wrapped q \<or> next_job_seq q + 1 = 0\<rparr>) m) = (b, m2)"
  shows "wrapped m2 \<or> map_of (pending_submits (snd m2)) (job_id j) = None"
    "seq_wrapped (snd m2) \<or> minted (snd m2) (job_id j)"
proof -
  let ?q = "snd n"
  note s = commit_find(3) [OF c]
  have i: "job_id j = mint_id (self (cfg ?q)) (qboot ?q) (next_job_seq ?q)" by (simp add: j_def m_def bump_def)
  have "seq_wrapped ?q \<or> job_id j \<notin> fst ` set (pending_submits ?q)"
    using ok unfolding i by (auto simp: node_ok_def queue_ok_def minted_def mint_id_inj)
  then show "wrapped m2 \<or> map_of (pending_submits (snd m2)) (job_id j) = None"
    unfolding map_of_fst_None by (auto simp: s m_def bump_def wrapped_def)
  show "seq_wrapped (snd m2) \<or> minted (snd m2) (job_id j)"
    using word_less_succ [of "next_job_seq ?q" "next_job_seq ?q"] unfolding i
    by (auto simp: s m_def bump_def minted_def)
qed

lemma wrapped_upd [simp]: "wrapped (upd f n) \<longleftrightarrow> req_wrapped (fst n) \<or> seq_wrapped (f (snd n))"
  by (simp add: wrapped_def)

lemma minted_fields [simp]: "minted (q\<lparr>ready := xs\<rparr>) = minted q" "minted (q\<lparr>submit_time := ys\<rparr>) = minted q"
  by (simp_all add: minted_def fun_eq_iff)

text \<open>
  Laws for the operations that open or settle a pending submission or a quorum commit. \<open>R_I\<close> says that the
  relation only concerns well-formed nodes.
\<close>

locale queue_steps = node_steps E R
  for E :: "'s env" and R :: "token multiset \<Rightarrow> 's node \<Rightarrow> 's node \<Rightarrow> bool" +
  assumes R_I: "(node_ok n \<Longrightarrow> R X n n') \<Longrightarrow> R X n n'"
    and R_submit_commit: "job_id j = mint_id (self (cfg (snd n))) (qboot (snd n)) (next_job_seq (snd n)) \<Longrightarrow> wf_job j \<Longrightarrow>
      commit_rec E (SubmitRec j) (upd (\<lambda>q. q\<lparr>next_job_seq := next_job_seq q + 1,
        seq_wrapped := seq_wrapped q \<or> next_job_seq q + 1 = 0\<rparr>) n) = (ok, n') \<Longrightarrow> R {#} n n'"
    and R_start_replication: "find_job i n \<noteq> None \<Longrightarrow>
      (node_ok n \<Longrightarrow> wrapped n \<or> map_of (pending_submits (snd n)) i = None) \<Longrightarrow>
      seq_wrapped (snd n) \<or> minted (snd n) i \<Longrightarrow> R (cb_tokens rcb) n (start_replication E i (Some rcb) n)"
    and R_on_replicate_resp [simp]: "R {#} n (on_replicate_resp E i slot code n)"
    and R_on_apply_resp [simp]: "R {#} n (on_apply_resp E i s k code n)"
    and R_quorum_commit: "find_job i n \<noteq> None \<Longrightarrow> tame (snd n) c \<Longrightarrow> wf_rec c \<Longrightarrow>
      R (qcb_tokens d) n (quorum_commit E i c d n)"
begin

lemma step_send_replicate [simp]: "R {#} n (send_replicate E i slot n)"
  using step_send [of "ReplicateCont i slot" "\<lambda>code. on_replicate_resp E i slot code"]
  by (auto simp: send_replicate_def split: option.split)



lemma step_owner_submit:
  assumes p: "params_ok p"
  shows "R (cb_tokens c) n (owner_submit E p c n)"
proof (cases "find_by_idem (p_idem_key p) (st (snd n)) = None \<and> \<not> draining (snd n)")
  case False
  then show ?thesis
    by (auto simp: owner_submit_def step_before [OF step_bump step_submit_cb] split: option.split)
next
  case True
  show ?thesis
  proof (rule R_I)
    assume okn: "node_ok n"
    let ?m = "bump (\<lambda>k. k\<lparr>submits := submits k + 1\<rparr>) n"
    let ?j = "new_job E p (snd ?m)" and ?q = "snd n"
    let ?m1 = "upd (\<lambda>q. q\<lparr>next_job_seq := next_job_seq q + 1, seq_wrapped := seq_wrapped q \<or> next_job_seq q + 1 = 0\<rparr>) ?m"
    obtain ok m2 where c: "commit_rec E (SubmitRec ?j) ?m1 = (ok, m2)" by (meson surj_pair)
    have e2: "R {#} n m2"
      by (rule step_then [OF step_bump R_submit_commit [OF _ new_job_wf [OF p] c]]) simp
    let ?i = "job_id ?j"
    let ?m3 = "upd (\<lambda>q. q\<lparr>ready := ready q @ [?i]\<rparr>) m2"
    let ?m4 = "upd (\<lambda>q. q\<lparr>submit_time := AList.update ?i (now (fst ?m3)) (submit_time q)\<rparr>) ?m3"
    have "R {#} n ?m3" by (rule step_then [OF e2]) simp
    then have e4: "R {#} n ?m4" by (rule step_then) simp
    have st: "R (cb_tokens c) ?m4 (start_replication E ?i (Some c) ?m4)" if ok
    proof (rule R_start_replication)
      show "find_job ?i ?m4 \<noteq> None"
        using that commit_find(1) [OF c, of ?i] by (simp add: find_job_def find_apply_rec)
    qed (use submit_fresh [OF okn c] in \<open>auto simp: wrapped_def\<close>)
    have "owner_submit E p c n =
      (if ok then start_replication E ?i (Some c) ?m4 else submit_cb E c kNoQuorum JobId0 m2)"
      using True c by (simp add: owner_submit_def Let_def bump_def)
    then show "R (cb_tokens c) n (owner_submit E p c n)"
      using step_before [OF e4 st] step_before [OF e2 step_submit_cb] by (cases ok) simp_all
  qed
qed

lemma step_on_fwd_submit_resp [simp]: "R {#t#} n (on_fwd_submit_resp t code resp n)"
  using R_reply [of "SubmitReply t _ _" n] by (auto simp: on_fwd_submit_resp_def)

lemma step_submit [simp]: "R {#t#} n (submit E p t n)"
  using R_reply [of "SubmitReply t _ _" n] step_owner_submit [of p "Client t" n]
    step_ask [of "FwdSubmitCont t" "\<lambda>code. on_fwd_submit_resp t code []" n]
  by (auto simp: submit_def Let_def params_ok_def)

lemma step_query_status_target [simp]: "R {#t#} n (query_status_target E i targets index best t n)"
proof (induction "length targets - index" arbitrary: index best n rule: less_induct)
  case less
  have IH: "R {#t#} m (query_status_target E i targets (index + 1) b t m)" if "index < length targets" for m b
    by (rule less) (use that in simp)
  show ?case
  proof (cases "index \<ge> length targets \<or> targets ! index = self (cfg (snd n))")
    case True
    then show ?thesis
      using IH R_reply [of "StatusReply t _ _" n]
      by (auto simp: query_status_target.simps [of E i targets index best t n])
  next
    case False
    obtain s n' where c: "rpc_call E (targets ! index) FwdStatus (put_job_id [] i) (StatusCont i targets index best t) n = (s, n')"
      by (meson surj_pair)
    show ?thesis
    proof (cases s)
      case None
      then show ?thesis
        using False c R_call [OF c] by (simp add: query_status_target.simps [of E i targets index best t n])
    next
      case (Some code)
      have "R {#} n n'" using R_call [OF c] Some by simp
      moreover have "R {#t#} n' (query_status_target E i targets (index + 1) (status_merge i best code []) t n')"
        by (rule IH) (use False in simp)
      ultimately show ?thesis
        using False c Some step_before by (simp add: query_status_target.simps [of E i targets index best t n])
    qed
  qed
qed

lemma step_status [simp]: "R {#t#} n (status E i t n)"
  by (simp add: status_def Let_def)


lemma step_pass [simp]: "R {#t#} n (reply (LeaseReply t s g) n)" "R {#t#} n (reply (AckReply t s) n)"
  using R_reply [of "LeaseReply t s g" n] R_reply [of "AckReply t s" n] by simp_all

lemma step_lease [simp]: "R {#t#} n (lease E w t n)"
proof (rule R_I)
  assume okn: "node_ok n"
  obtain pick q where sc: "lease_scan (length (ready (snd n))) (now (fst n)) (snd n) = (pick, q)" by fastforce
  let ?m = "(fst n, q)"
  have fr: "framed (snd n) q" using lease_scan_framed [of "snd n" "length (ready (snd n))" "now (fst n)"] sc by simp
  have m: "R {#} n ?m" using R_framed [OF fr, of "fst n"] by simp
  show "R {#t#} n (lease E w t n)"
  proof (cases pick)
    case None
    then show ?thesis using sc step_before [OF m step_pass(1)] by (simp add: lease_def)
  next
    case (Some j)
    obtain i where "find i (st (snd n)) = Some j" using lease_scan_found sc Some by blast
    then have j: "find_job (job_id j) n = Some j" using okn by (auto simp: node_ok_def queue_ok_def find_job_def)
    let ?i = "job_id j"
    have f: "find_job ?i ?m \<noteq> None" using j fr by (simp add: find_job_def framed_def)
    let ?b = "bump (\<lambda>k. k\<lparr>deadletters := deadletters k + 1\<rparr>) ?m"
    have "R (qcb_tokens NoDone) ?b (quorum_commit E ?i (DeadLetterRec ?i (epoch j)) NoDone ?b)"
      by (rule R_quorum_commit) (use f in \<open>simp_all add: find_job_def bump_def\<close>)
    then have b: "R {#} n (quorum_commit E ?i (DeadLetterRec ?i (epoch j)) NoDone ?b)"
      using step_then [OF step_then [OF m step_bump]] by fastforce
    let ?c = "upd (\<lambda>q. q\<lparr>not_before := AList.delete ?i (not_before q)\<rparr>) ?m"
    have "R (qcb_tokens (LeaseDone ?i t)) ?c (quorum_commit E ?i (LeaseRec ?i (epoch j) (lease_seq j + 1) w) (LeaseDone ?i t) ?c)"
      by (rule R_quorum_commit) (use f in \<open>simp_all add: find_job_def\<close>)
    moreover have "R {#} n ?c" by (rule step_then [OF m]) simp
    ultimately have c: "R {#t#} n (quorum_commit E ?i (LeaseRec ?i (epoch j) (lease_seq j + 1) w) (LeaseDone ?i t) ?c)"
      using step_before by fastforce
    let ?p = "upd (\<lambda>q. q\<lparr>ready := ?i # ready q\<rparr>) ?m"
    have p: "R {#} n ?p" by (rule step_then [OF m]) simp
    have "lease E w t n =
      (if draining (snd n) then reply (LeaseReply t kNoJob LeaseGrant0) n
       else if \<not> replicas_reachable E q j then reply (LeaseReply t kNoQuorum LeaseGrant0) ?p
       else if lease_seq j + 1 > max_attempts j
       then reply (LeaseReply t kNoJob LeaseGrant0) (quorum_commit E ?i (DeadLetterRec ?i (epoch j)) NoDone ?b)
       else quorum_commit E ?i (LeaseRec ?i (epoch j) (lease_seq j + 1) w) (LeaseDone ?i t) ?c)"
      unfolding lease_def using sc Some by (simp only: Let_def prod.case option.case)
    then show ?thesis
      using step_before [OF p step_pass(1) [of t _ kNoQuorum LeaseGrant0]]
        step_before [OF b step_pass(1) [of t _ kNoJob LeaseGrant0]] c step_pass(1) [of t n kNoJob LeaseGrant0]
      by presburger
  qed
qed

lemma step_quiet_commit:
  assumes "find_job i n \<noteq> None" "\<not> full_copy r" "R {#} m n"
  shows "R {#} m (quorum_commit E i r NoDone n)"
  using step_then [OF assms(3)] R_quorum_commit [OF assms(1), of r NoDone] assms(2) by simp

lemma step_expire_one [simp]: "R {#} n (expire_one E t i n)"
proof -
  let ?m = "upd (\<lambda>q. q\<lparr>lease_deadline := AList.delete i (lease_deadline q)\<rparr>) n"
  have m: "R {#} n (bump f ?m)" for f by (rule step_then [OF step_upd step_bump]) simp
  have q: "R {#} n (quorum_commit E i r NoDone (bump f ?m))"
    if "find_job i ?m = Some j" "\<not> full_copy r" for f r j
    by (rule step_quiet_commit [OF _ _ m]) (use that in simp_all)
  have "R {#} n ?m" by simp
  then show ?thesis
    using q step_then [OF q step_requeue_ready]
    by (auto simp: expire_one_def Let_def split: option.split)
qed

lemma step_expiry_tick [simp]: "R {#} n (expiry_tick E t n)"
  by (simp add: expiry_tick_def Let_def step_fold)

lemma step_owner_ack [simp]: "R (cb_tokens c) n (owner_ack E i ep sq success c n)"
proof (cases "find_job i n")
  case (Some j)
  let ?m = "upd (\<lambda>q. q\<lparr>lease_deadline := AList.delete i (lease_deadline q)\<rparr>)
    (bump (\<lambda>k. k\<lparr>completions_failed := completions_failed k + 1\<rparr>) n)"
  have m: "R {#} n ?m" by (rule step_then [OF step_bump step_upd]) simp
  have e: "R {#} n (quorum_commit E i (ExpireRec i (epoch j) l) NoDone ?m)" for l
    by (rule step_quiet_commit [OF _ _ m]) (use Some in simp_all)
  have 1: "R (cb_tokens c) n (ack_cb E c s (requeue_ready i u (quorum_commit E i (ExpireRec i (epoch j) l) NoDone ?m)))" for s u l
    by (rule step_before [OF step_then [OF e step_requeue_ready] step_ack_cb])
  let ?d = "upd (\<lambda>q. q\<lparr>lease_deadline := AList.delete i (lease_deadline q), not_before := AList.delete i (not_before q)\<rparr>) n"
  have "R (qcb_tokens (AckDone i c)) ?d (quorum_commit E i (DoneRec i (epoch j) (lease_seq j)) (AckDone i c) ?d)"
    by (rule R_quorum_commit) (use Some in simp_all)
  moreover have "R {#} n ?d" by simp
  ultimately have 2: "R (cb_tokens c) n (quorum_commit E i (DoneRec i (epoch j) (lease_seq j)) (AckDone i c) ?d)"
    using step_before [of n ?d "cb_tokens c"] by simp
  show ?thesis
    by (simp add: owner_ack_def Some Let_def 1 2)
qed (simp add: owner_ack_def)

lemma step_ack [simp]: "R {#t#} n (ack E i ep sq success t n)"
  using step_owner_ack [of "Client t" n i ep sq success]
    step_ask [of "FwdAckCont t" "\<lambda>code n. reply (AckReply t code) n" n]
  by (auto simp: ack_def Let_def split: option.split)

lemma step_repair_tick [simp]: "R {#} n (repair_tick E t n)"
proof -
  let ?f = "\<lambda>(i, mask) n. case find_job i n of None \<Rightarrow> n
    | Some j \<Rightarrow> if \<not> owned_by_me (snd n) j then n
        else fold (\<lambda>(s, m) n. if mask AND push_bit s 1 = 0 \<and> m_is_alive (e_mem E) m then send_replicate E i s n else n)
          (slots_of (snd n) j) n"
  have f: "R {#} m (?f x m)" for x and m :: "'s node"
    by (auto split: prod.split option.split intro!: step_fold)
  let ?m = "upd (\<lambda>q. q\<lparr>next_repair := t + repair_interval (cfg q)\<rparr>) n"
  have "R {#} ?m (fold ?f (repair (snd ?m)) ?m)" by (rule step_fold) (rule f)
  from step_then [OF step_upd this] show ?thesis
    unfolding repair_tick_def Let_def by simp
qed



lemma step_finalize_takeover [simp]: "R {#} n (finalize_takeover E i n)"
proof (cases "map_of (claims (snd n)) i")
  case (Some c)
  let ?m = "upd (\<lambda>q. q\<lparr>claims := AList.delete i (claims q)\<rparr>) n"
  have m: "R {#} n ?m" by simp
  show ?thesis
  proof (cases "find_job i ?m")
    case (Some j)
    let ?b = "bump (\<lambda>k. k\<lparr>takeovers := takeovers k + 1\<rparr>) ?m"
    let ?w = "now (fst ?b) + ms (unat (visibility_ms j))"
    obtain rec arm where mr: "merged_record i c j = (rec, arm)" by fastforce
    let ?c = "case rec of None \<Rightarrow> ?b | Some r \<Rightarrow> snd (commit_rec E r ?b)"
    let ?d = "if arm then set_deadline i ?w ?c else ?c"
    let ?e = "case find_job i ?d of None \<Rightarrow> ?d
      | Some j \<Rightarrow> if state j = Ready then upd (\<lambda>q. q\<lparr>ready := ready q @ [i]\<rparr>) ?d
          else if state j = Leased \<and> map_of (lease_deadline (snd ?d)) i = None then set_deadline i ?w ?d else ?d"
    have "R {#} n ?b" by (rule step_then [OF m]) simp
    moreover have "R {#} ?b ?c"
      using mr by (auto split: option.split dest: merged_record_transition intro!: step_commit tame_other)
    ultimately have "R {#} n ?c" by (rule step_then)
    then have "R {#} n ?d" by (rule step_then) simp
    then have "R {#} n ?e" by (rule step_then) (auto split: option.split)
    then have "R {#} n (set_repair i ?e)" by (rule step_then) simp
    moreover have "finalize_takeover E i n = (if \<not> owned_by_me (snd ?m) j then ?m else set_repair i ?e)"
      unfolding finalize_takeover_def \<open>map_of (claims (snd n)) i = Some c\<close> option.case Let_def Some mr prod.case ..
    ultimately show ?thesis using m by presburger
  qed (use Some m in \<open>simp add: finalize_takeover_def\<close>)
qed (simp add: finalize_takeover_def)

lemma step_on_claim_resp [simp]: "R {#} n (on_claim_resp E i to code resp n)"
proof -
  have u: "R {#} n (upd (\<lambda>q. q\<lparr>claims := F q\<rparr>) n)" for F by simp
  have f: "R {#} n (fold (\<lambda>(s, m) n. if m = to then send_replicate E i s n else n) xs n)" for xs
    by (rule step_fold) (auto split: prod.split)
  show ?thesis
    using u f step_then [OF u step_finalize_takeover] step_then [OF u step_resync_job]
    by (auto simp: on_claim_resp_def Let_def split: option.split)
qed

lemma step_claim_send [simp]: "R {#} n (claim_send E i to n)"
  using step_send [of "ClaimCont i to" "\<lambda>code. on_claim_resp E i to code []" n]
  by (auto simp: claim_send_def Let_def split: option.split)

lemma step_claim_sends:
  "R {#} n (fold (\<lambda>(s, m) n. if P s m then claim_send E i m n else n) xs n)"
  by (rule step_fold) (auto split: prod.split)

lemma step_start_takeover [simp]: "R {#} n (start_takeover E i n)"
proof (cases "draining (snd n) \<or> map_of (claims (snd n)) i \<noteq> None \<or> find_job i n = None")
  case False
  then obtain j where j: "find_job i n = Some j" by blast
  let ?r = "TakeoverRec i (epoch j + 1) (self (cfg (snd n)))"
  obtain ok m where c: "commit_rec E ?r n = (ok, m)" by (meson surj_pair)
  have m: "R {#} n m" by (rule R_commit [OF _ _ c]) simp_all
  obtain j' where j': "find_job i m = Some j'" using commit_keeps_job [OF c, of i] j by auto
  let ?v = "cast_vote i (epoch j + 1) (self (cfg (snd m))) m"
  have "cfg (snd m) = cfg (snd n)" by (simp add: commit_find(3) [OF c])
  moreover have "epoch j + 1 = 0 \<or> epoch j < epoch j + 1" using word_less_succ [of "epoch j" "epoch j"] by auto
  ultimately have v: "R {#} n ?v" if ok
    using step_then [OF m R_vote [OF takeover_may_vote [OF j _ c [unfolded eqTrueI [OF that]]]]] by simp
  have u: "R {#} n (upd (\<lambda>q. q\<lparr>claims := F q\<rparr>) ?v)" if ok for F by (rule step_then [OF v [OF that]]) simp
  show ?thesis
    using False j c j' m step_then [OF u step_finalize_takeover] step_then [OF u step_claim_sends]
    by (auto simp: start_takeover_def Let_def)
qed (auto simp: start_takeover_def split: option.split)

lemma step_claim_retry [simp]: "R {#} n (claim_retry E t i n)"
proof -
  have u: "R {#} n (upd (\<lambda>q. q\<lparr>claims := F q\<rparr>) n)" for F by simp
  show ?thesis
    using u step_then [OF u step_claim_sends]
    by (auto simp: claim_retry_def Let_def split: option.split)
qed

lemma step_claim_tick [simp]: "R {#} n (claim_tick E t n)"
proof -
  have u: "R {#} n (upd (\<lambda>q. q\<lparr>next_claim_tick := x\<rparr>) n)" for x by simp
  have "R {#} m (fold (claim_retry E t) xs m)" for xs and m :: "'s node" by (rule step_fold) simp
  from step_then [OF u this] show ?thesis by (auto simp: claim_tick_def Let_def)
qed

lemma step_drain [simp]: "R {#} n (drain n)"
  by (simp add: drain_def)

lemma step_drain_tick [simp]: "R {#} n (drain_tick E t n)"
proof -
  let ?m = "upd (\<lambda>q. q\<lparr>next_drain_tick := t + ms 500\<rparr>) n"
  let ?f = "\<lambda>(i, j) n. case drain_target E (snd n) j of None \<Rightarrow> n
    | Some r \<Rightarrow> snd (rpc_call E r DrainHandoff (put_job_id [] i) DrainCont n)"
  have c: "R {#} m (snd (rpc_call E r DrainHandoff b DrainCont m))" for r b and m :: "'s node"
    using R_call [of r DrainHandoff b DrainCont m] by (cases "rpc_call E r DrainHandoff b DrainCont m") (auto split: if_splits)
  have "R {#} ?m (fold ?f xs ?m)" for xs
    by (rule step_fold) (auto split: prod.split option.split intro: c)
  from step_then [OF step_upd this] have f: "R {#} n (fold ?f xs ?m)" for xs by simp
  have "R {#} m (reply DrainReply (upd (\<lambda>q. q\<lparr>drain_cb := False\<rparr>) m))" for m :: "'s node"
    by (rule step_then [OF step_upd R_reply [of DrainReply, simplified]]) simp
  from f step_then [OF f this] show ?thesis
    unfolding drain_tick_def Let_def by (simp only: R_refl split: if_split) blast
qed


lemma step_handle_replicate [simp]: "R {#} n (handle_replicate E ctx msg n)"
proof -
  have "R {#} n (respond_to E ctx s [] m)" if "get_job msg 0 = Some (Some (sz, j))" "commit_rec E (ReplicateRec j) n = (ok, m)"
    for s j sz ok m
    by (rule step_then [OF R_commit [OF _ _ that(2)] step_respond_to]) (simp_all add: get_job_SomeD(1) [OF that(1)])
  then show ?thesis
    by (auto simp: handle_replicate_def Let_def split: option.split prod.split)
qed

lemma step_apply_reply: "R {#} n (snd (apply_reply E from msg n))"
proof -
  have "R {#} n m" if "rec_meta r = Some x" "commit_rec E r n = (ok, m)" for r x ok m
    by (rule R_commit [OF _ _ that(2)]) (use rec_meta_transition [OF that(1)] in simp_all)
  then show ?thesis
    by (auto simp: apply_reply_def Let_def split: option.split prod.split)
qed

lemma step_handle_apply [simp]: "R {#} n (handle_apply E ctx msg n)"
  by (simp add: handle_apply_def case_prod_beta Let_def step_then [OF step_apply_reply step_respond_to])

lemma step_handle_resync [simp]: "R {#} n (handle_resync E ctx msg n)"
  by (auto simp: handle_resync_def split: option.split)

lemma step_handle_fwd_status [simp]: "R {#} n (handle_fwd_status E ctx msg n)"
  by (auto simp: handle_fwd_status_def split: option.split)

lemma step_handle_fwd_submit [simp]: "R {#} n (handle_fwd_submit E ctx msg n)"
  using step_owner_submit [of _ "Remote ctx" n] decode_params_SomeD(1)
  by (auto simp: handle_fwd_submit_def split: option.split)

lemma step_handle_fwd_ack [simp]: "R {#} n (handle_fwd_ack E ctx msg n)"
  using step_owner_ack [of "Remote ctx" n]
  by (auto simp: handle_fwd_ack_def split: option.split)

lemma step_claim_reply: "R {#} n (snd (snd (claim_reply E from msg n)))"
proof -
  have 1: "R {#} n m" if "commit_rec E (TakeoverRec i p e) n = (ok, m)" for i p e ok m
    by (rule R_commit [OF _ _ that]) simp_all
  have 2: "R {#} n (after_ownership_change i (cast_vote i p e m))"
    if "commit_rec E (TakeoverRec i p e) n = (True, m)" "find_job i n = Some j" "epoch j < p" for i p e m j
    by (rule step_then [OF step_then [OF 1 [OF that(1)] R_vote] step_after_ownership_change])
      (rule takeover_may_vote [OF that(2) _ that(1)], simp add: that(3))
  have 3: "R {#} n (cast_vote i (epoch j) (owner j) n)" if "find_job i n = Some j" for i j
    by (rule R_vote) (simp add: may_vote_def that)
  show ?thesis
    using 1 2 3 by (auto simp: claim_reply_def Let_def not_less le_less split: option.split prod.split)
qed

lemma step_handle_claim [simp]: "R {#} n (handle_claim E ctx msg n)"
  by (simp add: handle_claim_def case_prod_beta Let_def step_then [OF step_claim_reply step_respond_to])

lemma step_handle_drain_handoff [simp]: "R {#} n (handle_drain_handoff E ctx msg n)"
  using step_then [OF step_start_takeover step_respond_to, of n]
  by (auto simp: handle_drain_handoff_def split: option.split)

lemma step_handler: "handler E m = Some h \<Longrightarrow> R {#} n (h ctx b n)"
  by (auto simp: handler_def split: Method.splits)

lemma step_run_cont: "R (cont_tokens k) n (run_cont E k code resp n)"
  by (cases k) (simp_all add: run_cont_def on_status_resp_def)

end


section \<open>The whole node\<close>

text \<open>
  What happens to a node: a client's request, a turn of the event loop, a change of membership, the
  start of a drain, or anything that happens to the socket, datagrams arriving and time passing.
\<close>

datatype event =
    OnSubmit SubmitParams token
  | OnStatus JobId token
  | OnLease u64 token
  | OnAck JobId u32 u32 bool token
  | OnPoll
  | OnTick
  | OnPeerDead Endpoint
  | OnPeerAlive Endpoint
  | OnDrain
  | OnSocket socket

primrec queue_event :: "'s env \<Rightarrow> event \<Rightarrow> 's node \<Rightarrow> 's node" where
  "queue_event E (OnSubmit p t) n = submit E p t n"
| "queue_event E (OnStatus i t) n = status E i t n"
| "queue_event E (OnLease w t) n = lease E w t n"
| "queue_event E (OnAck i ep sq success t) n = ack E i ep sq success t n"
| "queue_event E OnPoll n = queue_poll E n"
| "queue_event E OnTick n = queue_tick E n"
| "queue_event E (OnPeerDead p) n = on_peer_dead E p n"
| "queue_event E (OnPeerAlive p) n = on_peer_alive p n"
| "queue_event E OnDrain n = drain n"
| "queue_event E (OnSocket sk) n = ((fst n)\<lparr>demux := (demux (fst n))\<lparr>inner := sk\<rparr>\<rparr>, snd n)"

primrec event_tokens :: "event \<Rightarrow> token multiset" where
  "event_tokens (OnSubmit p t) = {#t#}"
| "event_tokens (OnStatus i t) = {#t#}"
| "event_tokens (OnLease w t) = {#t#}"
| "event_tokens (OnAck i ep sq success t) = {#t#}"
| "event_tokens OnPoll = {#}"
| "event_tokens OnTick = {#}"
| "event_tokens (OnPeerDead p) = {#}"
| "event_tokens (OnPeerAlive p) = {#}"
| "event_tokens OnDrain = {#}"
| "event_tokens (OnSocket sk) = {#}"

text \<open>
  With a law for finishing a call, that removes it and runs its callback, the relation holds of polling,
  ticking and membership changes.
\<close>

locale node_client = queue_steps E R
  for E :: "'s env" and R :: "token multiset \<Rightarrow> 's node \<Rightarrow> 's node \<Rightarrow> bool" +
  assumes R_finish: "map_of (calls r) i = Some c \<Longrightarrow>
    R {#} (r, q) (run_cont E (cb c) s b (r\<lparr>calls := AList.delete i (calls r)\<rparr>, q))"
begin

sublocale layer: rpc_client "e_ops E" "queue_app E" "R {#}"
  by unfold_locales
    (auto simp: queue_app_def intro: step_then R_quiet R_finish step_handler)

lemma step_queue_poll [simp]: "R {#} n (queue_poll E n)"
  unfolding queue_poll_def by (rule layer.rpc_poll_R)

lemma step_queue_tick [simp]: "R {#} n (queue_tick E n)"
  unfolding queue_tick_def Let_def
  by (rule step_then [OF step_then [OF step_then [OF step_then [OF layer.rpc_tick_R
      step_expiry_tick] step_repair_tick] step_claim_tick] step_drain_tick])

lemma step_on_peer_dead [simp]: "R {#} n (on_peer_dead E peer n)"
  unfolding on_peer_dead_def Let_def
  by (rule step_then [OF layer.peer_dead_R step_fold]) simp

lemma step_open_job [simp]: "R {#} n (open_job E ij n)"
proof -
  have s: "R {#} n (set_repair i n)" for i by simp
  have "R {#} n (upd (\<lambda>q. q\<lparr>ready := F q\<rparr>) (set_repair i n))" "R {#} n (set_deadline i t (set_repair i n))" for F i t
    by (rule step_then [OF s [of i]], simp)+
  then show ?thesis
    using s step_then [OF _ step_resync_job] by (auto simp: open_job_def Let_def split: prod.split)
qed

lemma step_on_peer_alive [simp]: "R {#} n (on_peer_alive peer n)"
  unfolding on_peer_alive_def Let_def by (rule step_fold) simp

end

text \<open>With a law for what the network and the clock do, it holds of every event.\<close>

locale node_events = node_client E R
  for E :: "'s env" and R :: "token multiset \<Rightarrow> 's node \<Rightarrow> 's node \<Rightarrow> bool" +
  assumes R_socket: "R {#} (r, q) (r\<lparr>demux := (demux r)\<lparr>inner := sk\<rparr>\<rparr>, q)"
begin

lemma step_event: "R (event_tokens e) n (queue_event E e n)"
  using R_socket [of "fst n" "snd n"] by (cases e) simp_all

end

end
