(* ===== verification/Queue_Tokens.thy ===== *)
theory Queue_Tokens
  imports Queue_Steps
begin

text \<open>
  The bookkeeping of a queue node: \<open>evolves crc X n n'\<close> says that a step keeps the node well formed,
  loses and duplicates no request but adds those of \<open>X\<close>, uses no null pointer, forgets no job, lowers
  no epoch, and changes the job table only by committing well-formed records. A request is held by an
  in-flight call, a pending submit or an unfinished quorum commit, or it has been answered.
\<close>

section \<open>Sums over tables\<close>

definition table_sum :: "('v \<Rightarrow> 'm :: comm_monoid_add) \<Rightarrow> ('k \<times> 'v) list \<Rightarrow> 'm" where
  "table_sum f xs = sum_list (map (\<lambda>x. f (snd x)) xs)"

lemma table_sum_simps [simp]: "table_sum f [] = 0" "table_sum f (x # xs) = f (snd x) + table_sum f xs"
  by (simp_all add: table_sum_def)

lemma table_sum_update_new:
  "map_of xs k = None \<Longrightarrow> table_sum f (AList.update k v xs) = table_sum f xs + f v"
  by (induction xs) (auto simp: add_ac split: if_splits)

lemma table_sum_delete:
  "dict xs \<Longrightarrow> map_of xs k = Some v \<Longrightarrow> table_sum f xs = f v + table_sum f (AList.delete k xs)"
proof (induction xs)
  case (Cons x xs)
  show ?case
  proof (cases "fst x = k")
    case True
    then have "AList.delete k xs = xs" using Cons.prems by (simp add: delete_id)
    then show ?thesis using Cons.prems True by (cases x) simp
  next
    case False
    then show ?thesis using Cons by (cases x) (simp add: add_ac)
  qed
qed simp

lemma table_sum_update:
  "dict xs \<Longrightarrow> map_of xs k = Some v0 \<Longrightarrow> f v = f v0 \<Longrightarrow> table_sum f (AList.update k v xs) = table_sum f xs"
  by (induction xs) (auto split: if_splits)


section \<open>Where requests are\<close>

definition q_tokens :: "QState \<Rightarrow> token multiset" where
  "q_tokens x = (if q_fired x then {#} else qcb_tokens (q_done x))"

definition answered :: "'s node \<Rightarrow> token multiset" where
  "answered n = sum_list (map reply_tokens (out (snd n)))"

definition in_flight :: "'s node \<Rightarrow> token multiset" where
  "in_flight n = table_sum (\<lambda>c. cont_tokens (cb c)) (calls (fst n)) +
     table_sum (\<lambda>ps. cb_tokens (ps_cb ps)) (pending_submits (snd n)) + table_sum q_tokens (qstates (snd n))"

abbreviation total :: "'s node \<Rightarrow> token multiset" where
  "total n \<equiv> answered n + in_flight n"


section \<open>Steps\<close>

definition same_node :: "'s node \<Rightarrow> 's node \<Rightarrow> bool" where
  "same_node n n' \<longleftrightarrow> cfg (snd n') = cfg (snd n) \<and> qboot (snd n') = qboot (snd n) \<and>
     null_deref (snd n') = null_deref (snd n) \<and>
     (wrapped n \<longrightarrow> wrapped n') \<and> (wrapped n' \<or> next_job_seq (snd n) \<le> next_job_seq (snd n'))"

definition keeps_jobs :: "'s node \<Rightarrow> 's node \<Rightarrow> bool" where
  "keeps_jobs n n' \<longleftrightarrow> (\<forall>i j. find_job i n = Some j \<longrightarrow>
     (\<exists>j'. find_job i n' = Some j' \<and> (wrapped n' \<or> future (snd n) i \<or> epoch j \<le> epoch j')))"

definition commits :: "(bytes \<Rightarrow> u32) \<Rightarrow> Record list \<Rightarrow> store \<Rightarrow> store" where
  "commits crc rs s = fold (\<lambda>r s. snd (commit crc r True s)) rs s"

definition logged :: "(bytes \<Rightarrow> u32) \<Rightarrow> qnode \<Rightarrow> qnode \<Rightarrow> bool" where
  "logged crc q q' \<longleftrightarrow> (\<exists>rs. list_all wf_rec rs \<and> history q' = history q @ rs \<and> st q' = commits crc rs (st q))"

definition evolves :: "(bytes \<Rightarrow> u32) \<Rightarrow> token multiset \<Rightarrow> 's node \<Rightarrow> 's node \<Rightarrow> bool" where
  "evolves crc X n n' \<longleftrightarrow> (node_ok n \<longrightarrow> node_ok n' \<and> same_node n n' \<and> keeps_jobs n n' \<and>
     logged crc (snd n) (snd n') \<and> (wrapped n' \<or> total n' = total n + X))"

lemma logged_same: "st q' = st q \<Longrightarrow> history q' = history q \<Longrightarrow> logged crc q q'"
  unfolding logged_def by (intro exI [of _ "[]"]) (simp add: commits_def)

lemma logged_refl [simp]: "logged crc q q"
  by (simp add: logged_same)

lemma logged_trans: "logged crc q q' \<Longrightarrow> logged crc q' q'' \<Longrightarrow> logged crc q q''"
  unfolding logged_def
proof (elim exE conjE)
  fix rs rs' assume "list_all wf_rec rs" "list_all wf_rec rs'" "history q' = history q @ rs" "history q'' = history q' @ rs'"
    "st q' = commits crc rs (st q)" "st q'' = commits crc rs' (st q')"
  then show "\<exists>rs. list_all wf_rec rs \<and> history q'' = history q @ rs \<and> st q'' = commits crc rs (st q)"
    by (intro exI [of _ "rs @ rs'"]) (simp add: commits_def)
qed

lemma evolvesI: "(node_ok n \<Longrightarrow> evolves crc X n n') \<Longrightarrow> evolves crc X n n'"
  by (simp add: evolves_def)

lemma evolves_refl: "evolves crc {#} n n"
  by (auto simp: evolves_def same_node_def keeps_jobs_def)

lemma future_antimono:
  "cfg q' = cfg q \<Longrightarrow> qboot q' = qboot q \<Longrightarrow> next_job_seq q \<le> next_job_seq q' \<Longrightarrow> future q' i \<Longrightarrow> future q i"
  unfolding future_def by (metis order_trans)

lemma evolves_trans:
  assumes "evolves crc X n m" "evolves crc Y m k"
  shows "evolves crc (X + Y) n k"
  unfolding evolves_def
proof (intro impI conjI)
  assume n: "node_ok n"
  have m: "node_ok m" "same_node n m" "keeps_jobs n m" "logged crc (snd n) (snd m)" "wrapped m \<or> total m = total n + X"
    using assms(1) n by (simp_all add: evolves_def)
  have k: "node_ok k" "same_node m k" "keeps_jobs m k" "logged crc (snd m) (snd k)" "wrapped k \<or> total k = total m + Y"
    using assms(2) m(1) by (simp_all add: evolves_def)
  show "node_ok k" by (rule k(1))
  show "same_node n k" using m(2) k(2) by (auto simp: same_node_def)
  show "wrapped k \<or> total k = total n + (X + Y)"
    using m(5) k(2,5) by (auto simp: same_node_def add_ac)
  show "logged crc (snd n) (snd k)" using m(4) k(4) by (rule logged_trans)
  show "keeps_jobs n k"
    unfolding keeps_jobs_def
  proof (intro allI impI)
    fix i j assume "find_job i n = Some j"
    then obtain j' where j': "find_job i m = Some j'" "wrapped m \<or> future (snd n) i \<or> epoch j \<le> epoch j'"
      using m(3) unfolding keeps_jobs_def by blast
    then obtain j'' where j'': "find_job i k = Some j''" "wrapped k \<or> future (snd m) i \<or> epoch j' \<le> epoch j''"
      using k(3) unfolding keeps_jobs_def by blast
    have "wrapped k \<or> (future (snd m) i \<longrightarrow> future (snd n) i)"
      using m(2) k(2) future_antimono [of "snd m" "snd n" i] by (auto simp: same_node_def)
    moreover have "wrapped m \<longrightarrow> wrapped k" using k(2) by (simp add: same_node_def)
    ultimately show "\<exists>j'. find_job i k = Some j' \<and> (wrapped k \<or> future (snd n) i \<or> epoch j \<le> epoch j')"
      using j' j'' by (metis order_trans)
  qed
qed


section \<open>The primitive steps\<close>

lemma framed_queue_ok: "framed q q' \<Longrightarrow> queue_ok q' = queue_ok q"
  by (simp add: framed_def queue_ok_def minted_def)

lemma evolves_framed: "framed q q' \<Longrightarrow> evolves crc {#} (r, q) (r, q')"
  unfolding evolves_def
  by (auto simp: node_ok_def framed_queue_ok same_node_def keeps_jobs_def wrapped_def find_job_def
      answered_def in_flight_def intro: logged_same) (auto simp: framed_def intro!: logged_same)

lemma evolves_reply: "evolves crc (reply_tokens x) n (reply x n)"
  by (auto simp: evolves_def reply_def node_ok_def queue_ok_def minted_def same_node_def keeps_jobs_def wrapped_def
      find_job_def answered_def in_flight_def add_ac intro: logged_same)

lemma evolves_vote: "evolves crc {#} n (cast_vote i p a n)"
  by (auto simp: evolves_def cast_vote_def node_ok_def queue_ok_def minted_def same_node_def keeps_jobs_def wrapped_def
      find_job_def answered_def in_flight_def intro: logged_same)

lemma evolves_quiet: "quiet r r' \<Longrightarrow> evolves crc {#} (r, q) (r', q)"
  by (auto simp: evolves_def quiet_def node_ok_def calls_ok_def same_node_def keeps_jobs_def wrapped_def
      find_job_def answered_def in_flight_def)

lemma evolves_socket: "evolves crc {#} (r, q) (r\<lparr>demux := (demux r)\<lparr>inner := sk\<rparr>\<rparr>, q)"
  by (auto simp: evolves_def node_ok_def calls_ok_def same_node_def keeps_jobs_def wrapped_def
      find_job_def answered_def in_flight_def)

lemma job_step_ok_id:
  assumes "job_step r x = Some j" "wf_rec r" "x = None \<or> (\<exists>l. x = Some l \<and> job_id l = rec_job r \<and> wf_job l)"
  shows "job_id j = rec_job r \<and> wf_job j"
  using assms by (cases r; cases x) (auto split: if_splits)

lemma evolves_apply:
  assumes t: "tame (snd n) r" and w: "wf_rec r"
    and f: "\<And>i. find_job i n' = (if ok then find i (apply_rec r (st (snd n))) else find_job i n)"
    and q: "node_ok n \<Longrightarrow> (queue_ok ((snd n')\<lparr>st := st (snd n)\<rparr>))" "node_ok n \<Longrightarrow> calls_ok (fst n')"
    and s: "node_ok n \<Longrightarrow> same_node n n'" "logged crc (snd n) (snd n')" "total n' = total n + X"
  shows "evolves crc X n n'"
  unfolding evolves_def
proof (intro impI conjI)
  assume n: "node_ok n"
  have k: "job_id j = i \<and> wf_job j" if "find_job i n = Some j" for i j
    using n that by (auto simp: node_ok_def queue_ok_def find_job_def)
  have "job_id j = i \<and> wf_job j" if "find_job i n' = Some j" for i j
    using that [unfolded f] k [of i] job_step_ok_id [of r "find_job i n" j] w
    by (cases "find_job i n") (auto simp: find_apply_rec find_job_def split: if_splits)
  then show "node_ok n'" using q n by (auto simp: node_ok_def queue_ok_def find_job_def minted_def)
  show "keeps_jobs n n'"
    unfolding keeps_jobs_def
  proof (intro allI impI)
    fix i j assume j: "find_job i n = Some j"
    show "\<exists>j'. find_job i n' = Some j' \<and> (wrapped n' \<or> future (snd n) i \<or> epoch j \<le> epoch j')"
    proof (cases "ok \<and> i = rec_job r")
      case True
      then obtain j' where j': "job_step r (Some j) = Some j'" using job_step_None [of r "Some j"] by fastforce
      have "future (snd n) i \<or> epoch j \<le> epoch j'"
        using t True job_step_epoch [OF _ j'] by (cases "\<exists>j. r = SubmitRec j") (auto simp: tame_def)
      then show ?thesis using True j j' unfolding f by (simp add: find_apply_rec find_job_def)
    next
      case False
      then show ?thesis using j unfolding f by (auto simp: find_apply_rec find_job_def)
    qed
  qed
qed (use s in simp_all)

lemma logged_commit: "wf_rec r \<Longrightarrow> logged crc q (q\<lparr>st := snd (commit crc r True (st q)), history := history q @ [r]\<rparr>)"
  unfolding logged_def by (intro exI [of _ "[r]"]) (simp add: commits_def)

lemma evolves_commit_rec:
  assumes "tame (snd n) r" "wf_rec r" "commit_rec E r n = (ok, n')"
  shows "evolves (e_crc E) {#} n n'"
proof -
  note c = commit_find [OF assms(3)]
  have n': "n' = (fst n, (snd n)\<lparr>st := snd (commit (e_crc E) r True (st (snd n))), history := history (snd n) @ [r]\<rparr>)"
    using c(2,3) by (cases n') simp
  show ?thesis
    by (rule evolves_apply [OF assms(1,2) c(1)])
      (use logged_commit [OF assms(2), of "e_crc E" "snd n"] in
        \<open>auto simp: n' same_node_def wrapped_def node_ok_def queue_ok_def minted_def answered_def in_flight_def\<close>)
qed

text \<open>A call holds the tokens of its callback unless it runs the callback at once.\<close>

lemma call_effect:
  assumes "call ops to m b t k r = (s, r')"
  shows "now r' = now r \<and> boot r' = boot r \<and>
    (r' = r \<and> s = Some kTooLarge \<or>
     next_req r' = next_req r + 1 \<and> req_wrapped r' = (req_wrapped r \<or> next_req r + 1 = 0) \<and>
      (s = Some kBusy \<and> calls r' = calls r \<or>
       s = None \<and> calls r' = AList.update (next_req r) \<lparr>peer_key = ekey to, deadline = now r + t, cb = k\<rparr> (calls r)))"
proof (cases "length b > kMaxRpcBody")
  case True
  then show ?thesis using assms by (simp add: call_def)
next
  case False
  let ?r0 = "r\<lparr>next_req := next_req r + 1, req_wrapped := req_wrapped r \<or> next_req r + 1 = 0\<rparr>"
  let ?r1 = "touch_peer to ?r0"
  let ?f = "encode_rpc Request m (next_req r) 0 b"
  let ?p = "get_peer (ekey to) ?r1"
  have q1: "quiet ?r0 ?r1" by simp
  obtain ok r2 where ss: "session_send ops (ekey to) ?f ?r1 = (ok, r2)" by fastforce
  then have q2: "quiet ?r1 r2" using quiet_session_send [of ?r1 ops "ekey to" ?f] by simp
  let ?r3 = "upd_peer (ekey to) (\<lambda>p. p\<lparr>pending := pending p @ [?f]\<rparr>) ?r1"
  have q3: "quiet ?r1 (if c then send_hello (ekey to) (now ?r1) ?r3 else ?r3)" for c
    by (simp add: quiet_trans [OF quiet_peers(2) quiet_send_hello])
  let ?c = "\<lparr>peer_key = ekey to, deadline = now ?r1 + t, cb = k\<rparr>"
  let ?r4 = "if now ?r1 \<ge> next_hello ?p then send_hello (ekey to) (now ?r1) ?r3 else ?r3"
  have ev: "call ops to m b t k r =
    (if is_established ?p then (if \<not> ok then (Some kBusy, r2) else (None, r2\<lparr>calls := AList.update (next_req r) ?c (calls r2)\<rparr>))
     else (None, ?r4\<lparr>calls := AList.update (next_req r) ?c (calls ?r4)\<rparr>))"
    using False ss by (simp add: call_def Let_def)
  have n1: "now ?r1 = now r" using q1 by (simp add: quiet_def now_def)
  have q: "quiet ?r0 r2" "quiet ?r0 ?r4" using quiet_trans [OF q1 q2] quiet_trans [OF q1 q3] by blast+
  have n0: "now ?r0 = now r" by (simp add: now_def)
  have f: "now r3 = now r \<and> boot r3 = boot r \<and> next_req r3 = next_req r + 1 \<and>
      req_wrapped r3 = (req_wrapped r \<or> next_req r + 1 = 0) \<and> calls r3 = calls r" if "quiet ?r0 r3" for r3
    using that n0 by (simp add: quiet_def)
  have nc: "now (r3\<lparr>calls := x\<rparr>) = now r3" for r3 :: "('a, 'b) rpc" and x by (simp add: now_def)
  show ?thesis
  proof (cases "is_established ?p")
    case True
    show ?thesis
      using assms unfolding ev using True f [OF q(1)] n1 by (cases ok) (auto simp: nc)
  next
    case False
    then have "s = None" "r' = ?r4\<lparr>calls := AList.update (next_req r) ?c (calls ?r4)\<rparr>"
      using assms unfolding ev by simp_all
    then show ?thesis using f [OF q(2)] n1 by (simp only: nc) auto
  qed
qed

lemma calls_ok_fresh: "calls_ok r \<Longrightarrow> \<not> req_wrapped r \<Longrightarrow> map_of (calls r) (next_req r) = None"
  by (auto simp: calls_ok_def map_of_fst_None)

lemma set_update_fst: "fst ` set (AList.update k v xs) = insert k (fst ` set xs)"
  by (simp add: dom_update)

lemma evolves_call:
  assumes c: "rpc_call E to m b k n = (s, n')"
  shows "evolves crc (if s = None then cont_tokens k else {#}) n n'"
  unfolding evolves_def
proof (intro impI)
  assume ok: "node_ok n"
  obtain r' where r': "call (e_ops E) to m b (rpc_timeout (cfg (snd n))) k (fst n) = (s, r')" and n': "n' = (r', snd n)"
    using c by (auto simp: rpc_call_def split: prod.splits)
  note e = call_effect [OF r']
  show "node_ok n' \<and> same_node n n' \<and> keeps_jobs n n' \<and> logged crc (snd n) (snd n') \<and>
    (wrapped n' \<or> total n' = total n + (if s = None then cont_tokens k else {#}))"
  proof (cases "s = None")
    case True
    let ?c = "\<lparr>peer_key = ekey to, deadline = now (fst n) + rpc_timeout (cfg (snd n)), cb = k\<rparr>"
    have r: "next_req r' = next_req (fst n) + 1" "req_wrapped r' = (req_wrapped (fst n) \<or> next_req (fst n) + 1 = 0)"
      "calls r' = AList.update (next_req (fst n)) ?c (calls (fst n))" "now r' = now (fst n)"
      using e True by (auto simp: kTooLarge_def kBusy_def)
    have co: "calls_ok (fst n)" using ok by (simp add: node_ok_def)
    have lt: "i < next_req (fst n) + 1" if "next_req (fst n) + 1 \<noteq> 0" "i \<le> next_req (fst n)" for i
      using that by (rule word_less_succ)
    have "calls_ok r'"
      using co lt by (auto simp: calls_ok_def r set_update_fst less_imp_le)
    moreover have "wrapped n' \<or> total n' = total n + cont_tokens k"
      using calls_ok_fresh [OF co] r
      by (auto simp: n' wrapped_def answered_def in_flight_def table_sum_update_new add_ac)
    ultimately show ?thesis
      using ok True r by (auto simp: n' node_ok_def same_node_def keeps_jobs_def wrapped_def find_job_def)
  next
    case False
    then have r: "calls r' = calls (fst n)" "now r' = now (fst n)"
      "next_req r' = next_req (fst n) \<and> req_wrapped r' = req_wrapped (fst n) \<or>
       next_req r' = next_req (fst n) + 1 \<and> req_wrapped r' = (req_wrapped (fst n) \<or> next_req (fst n) + 1 = 0)"
      using e by auto
    have "calls_ok r'"
      using ok r word_less_succ [of "next_req (fst n)"]
      by (auto simp: node_ok_def calls_ok_def less_imp_le)
    then show ?thesis
      using ok False r
      by (auto simp: n' node_ok_def same_node_def keeps_jobs_def wrapped_def find_job_def answered_def in_flight_def)
  qed
qed





interpretation evo_base: node_steps E "evolves (e_crc E)" for E :: "'s env"
  by unfold_locales
    (rule evolves_refl evolves_trans evolves_framed evolves_reply evolves_quiet evolves_commit_rec evolves_call evolves_vote;
      assumption)+



section \<open>Pending submissions\<close>

lemma set_delete_fst: "fst ` set (AList.delete k xs) = fst ` set xs - {k}"
  by (induction xs) auto

lemma delete_absent: "map_of xs k = None \<Longrightarrow> AList.delete k xs = xs"
  by (simp add: map_of_fst_None delete_id)

lemma queue_ok_pending_delete: "queue_ok q \<Longrightarrow> queue_ok (q\<lparr>pending_submits := AList.delete i (pending_submits q)\<rparr>)"
  by (auto simp: queue_ok_def set_delete_fst minted_def)

lemma evolves_submit_result [simp]: "evolves (e_crc E) {#} n (submit_result E i s n)"
proof (cases "map_of (pending_submits (snd n)) i")
  case None
  then show ?thesis by (simp add: submit_result_def evolves_refl)
next
  case (Some ps)
  let ?n = "upd (\<lambda>q. q\<lparr>pending_submits := AList.delete i (pending_submits q)\<rparr>) n"
  let ?n' = "submit_cb E (ps_cb ps) s i ?n"
  have "node_ok ?n' \<and> same_node n ?n' \<and> keeps_jobs n ?n' \<and> logged (e_crc E) (snd n) (snd ?n') \<and> (wrapped ?n' \<or> total ?n' = total n)" if ok: "node_ok n"
  proof -
    have d: "dict (pending_submits (snd n))" using ok by (simp add: node_ok_def queue_ok_def)
    have n1: "node_ok ?n" using ok by (simp add: node_ok_def queue_ok_pending_delete)
    have e: "node_ok ?n'" "same_node ?n ?n'" "keeps_jobs ?n ?n'" "logged (e_crc E) (snd ?n) (snd ?n')" "wrapped ?n' \<or> total ?n' = total ?n + cb_tokens (ps_cb ps)"
      using evo_base.step_submit_cb [of E "ps_cb ps" ?n s i] n1 by (simp_all add: evolves_def)
    have "total ?n + cb_tokens (ps_cb ps) = total n"
      using table_sum_delete [OF d Some, of "\<lambda>ps. cb_tokens (ps_cb ps)"] by (simp add: answered_def in_flight_def add_ac)
    then show ?thesis
      using e by (auto simp: same_node_def keeps_jobs_def wrapped_def find_job_def future_def logged_def)
  qed
  then show ?thesis using Some by (simp add: submit_result_def evolves_def)
qed

lemma evolves_set_pending:
  assumes "map_of (pending_submits (snd n)) i = Some ps0" "ps_cb ps = ps_cb ps0"
  shows "evolves crc {#} n (upd (\<lambda>q. q\<lparr>pending_submits := AList.update i ps (pending_submits q)\<rparr>) n)"
proof -
  have "i \<in> fst ` set (pending_submits (snd n))" using assms(1) by (metis map_of_fst_None option.distinct(1))
  then have s: "fst ` set (AList.update i ps (pending_submits (snd n))) = fst ` set (pending_submits (snd n))"
    by (auto simp: set_update_fst)
  show ?thesis
    using assms table_sum_update [OF _ assms(1), of "\<lambda>ps. cb_tokens (ps_cb ps)" ps]
    by (auto simp: evolves_def node_ok_def queue_ok_def minted_def same_node_def keeps_jobs_def wrapped_def find_job_def
        answered_def in_flight_def s intro: logged_same)
qed

lemma evolves_on_replicate_resp [simp]: "evolves (e_crc E) {#} n (on_replicate_resp E i slot code n)"
proof -
  let ?m = "if code = kCreated \<or> code = kDuplicate then mark_replica_ok i slot n
    else if code = kStaleEpoch then resync_job E i n else n"
  have m: "evolves (e_crc E) {#} n ?m" by simp
  show ?thesis
  proof (cases "map_of (pending_submits (snd ?m)) i")
    case None
    then show ?thesis using m by (simp add: on_replicate_resp_def Let_def)
  next
    case (Some ps)
    let ?ps = "ps\<lparr>ps_outstanding := ps_outstanding ps - 1,
       ps_needed := (if code = kCreated \<or> code = kDuplicate then ps_needed ps - 1 else ps_needed ps)\<rparr>"
    let ?k = "upd (\<lambda>q. q\<lparr>pending_submits := AList.update i ?ps (pending_submits q)\<rparr>) ?m"
    have "evolves (e_crc E) {#} ?m ?k" by (rule evolves_set_pending [OF Some]) simp
    then have k: "evolves (e_crc E) {#} n ?k" by (rule evo_base.step_then [OF m])
    have "on_replicate_resp E i slot code n =
      (if ps_needed ?ps \<le> 0 then submit_result E i kCreated ?k
       else if ps_outstanding ?ps = 0 then submit_result E i kNoQuorum ?k else ?k)"
      using Some by (simp add: on_replicate_resp_def Let_def)
    then show ?thesis using k evo_base.step_then [OF k] by simp
  qed
qed

lemma evolves_send_replicate: "evolves (e_crc E) {#} n (send_replicate E i slot n)"
  using evo_base.step_send [of "ReplicateCont i slot" E "\<lambda>code. on_replicate_resp E i slot code"]
  by (auto simp: send_replicate_def split: option.split)

lemma evolves_add_pending:
  assumes "node_ok n \<Longrightarrow> wrapped n \<or> map_of (pending_submits (snd n)) i = None"
    and "seq_wrapped (snd n) \<or> minted (snd n) i"
  shows "evolves crc (cb_tokens (ps_cb ps)) n (upd (\<lambda>q. q\<lparr>pending_submits := AList.update i ps (pending_submits q)\<rparr>) n)"
  using assms table_sum_update_new [of "pending_submits (snd n)" i "\<lambda>ps. cb_tokens (ps_cb ps)" ps]
  by (auto simp: evolves_def node_ok_def queue_ok_def minted_def same_node_def keeps_jobs_def wrapped_def find_job_def
      answered_def in_flight_def set_update_fst add_ac intro: logged_same)

lemma evolves_open_pending:
  fixes n :: "'s node" and E :: "'s env"
  assumes "node_ok n \<Longrightarrow> wrapped n \<or> map_of (pending_submits (snd n)) i = None"
    and "seq_wrapped (snd n) \<or> minted (snd n) i"
  shows "evolves (e_crc E) (cb_tokens (ps_cb ps)) n
    (upd (\<lambda>q. q\<lparr>pending_submits := AList.update i ps (pending_submits q)\<rparr>) (set_repair i n))"
proof (rule evo_base.step_before [OF evo_base.step_set_repair evolves_add_pending])
  show "wrapped (set_repair i n) \<or> map_of (pending_submits (snd (set_repair i n))) i = None"
    if "node_ok (set_repair i n)"
    using assms(1) that framed_queue_ok [OF framed_simps(1)]
    by (simp add: set_repair_def wrapped_def node_ok_def)
  show "seq_wrapped (snd (set_repair i n)) \<or> minted (snd (set_repair i n)) i"
    using assms(2) by (simp add: set_repair_def minted_def)
qed

lemma evolves_start_replication:
  assumes "find_job i n \<noteq> None" "node_ok n \<Longrightarrow> wrapped n \<or> map_of (pending_submits (snd n)) i = None"
    and "seq_wrapped (snd n) \<or> minted (snd n) i"
  shows "evolves (e_crc E) (cb_tokens c) n (start_replication E i (Some c) n)"
proof -
  obtain j where j: "find_job i n = Some j" using assms(1) by blast
  let ?slots = "slots_of (snd n) j"
  let ?ps = "\<lparr>ps_cb = c, ps_needed = (if length ?slots > 0 then 1 else 0), ps_outstanding = int (length ?slots)\<rparr>"
  let ?a = "upd (\<lambda>q. q\<lparr>pending_submits := AList.update i ?ps (pending_submits q)\<rparr>) (set_repair i n)"
  let ?b = "if length ?slots = 0 then submit_result E i kCreated ?a else ?a"
  have a: "evolves (e_crc E) (cb_tokens c) n ?a" using evolves_open_pending [OF assms(2,3), of E ?ps] by simp
  have "evolves (e_crc E) {#} ?a ?b" by simp
  then have b: "evolves (e_crc E) (cb_tokens c) n ?b" by (rule evo_base.step_then [OF a])
  have "evolves (e_crc E) {#} ?b (fold (\<lambda>(s, e). send_replicate E i s) ?slots ?b)"
    by (rule evo_base.step_fold) (simp add: evolves_send_replicate split: prod.split)
  from evo_base.step_then [OF b this] show ?thesis
    using j by (simp add: start_replication_def Let_def)
qed

lemma evolves_submit_commit:
  fixes n :: "'s node" and E :: "'s env"
  defines "q \<equiv> snd n"
  defines "n1 \<equiv> upd (\<lambda>q. q\<lparr>next_job_seq := next_job_seq q + 1, seq_wrapped := seq_wrapped q \<or> next_job_seq q + 1 = 0\<rparr>) n"
  assumes j: "job_id j = mint_id (self (cfg q)) (qboot q) (next_job_seq q)"
    and w: "wf_job j" and c: "commit_rec E (SubmitRec j) n1 = (ok, n2)"
  shows "evolves (e_crc E) {#} n n2"
proof -
  note f = commit_find [OF c]
  have n2: "n2 = (fst n, (snd n1)\<lparr>st := snd (commit (e_crc E) (SubmitRec j) True (st q)), history := history q @ [SubmitRec j]\<rparr>)"
    using f(2,3) by (cases n2) (simp add: n1_def q_def)
  have lt: "next_job_seq q + 1 \<noteq> 0 \<Longrightarrow> x \<le> next_job_seq q \<Longrightarrow> x < next_job_seq q + 1" for x by (rule word_less_succ)
  show ?thesis
  proof (rule evolves_apply)
    show "tame (snd n) (SubmitRec j)" using j by (auto simp: tame_def future_def q_def)
    show "find_job i n2 = (if ok then find i (apply_rec (SubmitRec j) (st (snd n))) else find_job i n)" for i
      using f(1) [of i] by (simp add: n1_def find_job_def)
    show "queue_ok ((snd n2)\<lparr>st := st (snd n)\<rparr>)" if "node_ok n"
    proof -
      have "minted ((snd n2)\<lparr>st := st (snd n)\<rparr>) i" if "minted q i" "next_job_seq q + 1 \<noteq> 0" for i
        using that(1) lt [OF that(2)] unfolding minted_def by (auto simp: n2 n1_def q_def intro: less_imp_le)
      then show ?thesis using that by (auto simp: n2 n1_def node_ok_def queue_ok_def q_def)
    qed
    show "wf_rec (SubmitRec j)" using w by simp
    show "logged (e_crc E) (snd n) (snd n2)"
      using w unfolding logged_def by (intro exI [of _ "[SubmitRec j]"]) (simp add: commits_def n2 n1_def q_def)
    show "calls_ok (fst n2)" if "node_ok n" using that by (simp add: n2 node_ok_def)
    show "same_node n n2"
      using lt [of "next_job_seq q"] less_imp_le [of "next_job_seq q" "next_job_seq q + 1"]
      by (auto simp: n2 n1_def same_node_def wrapped_def q_def)
    show "total n2 = total n + {#}" by (simp add: n2 n1_def answered_def in_flight_def)
  qed
qed


section \<open>Quorum commits\<close>

lemma evolves_set_q:
  assumes "map_of (qstates (snd n)) k = Some x0" "q_done x = q_done x0" "q_fired x = q_fired x0"
  shows "evolves crc {#} n (set_q k x n)"
proof -
  have "k \<in> fst ` set (qstates (snd n))" using assms(1) by (metis map_of_fst_None option.distinct(1))
  then have s: "fst ` set (AList.update k x (qstates (snd n))) = fst ` set (qstates (snd n))"
    by (auto simp: set_update_fst)
  show ?thesis
    using assms table_sum_update [OF _ assms(1), of q_tokens x]
    by (auto simp: evolves_def set_q_def node_ok_def queue_ok_def minted_def same_node_def keeps_jobs_def wrapped_def
        find_job_def answered_def in_flight_def s q_tokens_def intro: logged_same)
qed

lemma evolves_fire:
  assumes "map_of (qstates (snd n)) k = Some x" "\<not> q_fired x"
  shows "evolves (e_crc E) {#} n (run_done E (q_done x) b (set_q k (x\<lparr>q_fired := True\<rparr>) n))"
proof (rule evolvesI)
  assume ok: "node_ok n"
  let ?x = "x\<lparr>q_fired := True\<rparr>"
  let ?m = "set_q k ?x n"
  let ?n' = "run_done E (q_done x) b ?m"
  have d: "dict (qstates (snd n))" using ok by (simp add: node_ok_def queue_ok_def)
  have "k \<in> fst ` set (qstates (snd n))" using assms(1) by (metis map_of_fst_None option.distinct(1))
  then have s: "fst ` set (AList.update k ?x (qstates (snd n))) = fst ` set (qstates (snd n))"
    by (auto simp: set_update_fst)
  have m: "node_ok ?m" using ok by (auto simp: set_q_def node_ok_def queue_ok_def minted_def s)
  have del: "AList.delete k (AList.update k ?x xs) = AList.delete k xs" for xs :: "(nat \<times> QState) list"
    by (induction xs) auto
  have "map_of (AList.update k ?x (qstates (snd n))) k = Some ?x" by simp
  from table_sum_delete [OF _ this, of q_tokens] table_sum_delete [OF d assms(1), of q_tokens] d
  have t: "total ?m + qcb_tokens (q_done x) = total n"
    using assms(2) by (simp add: set_q_def answered_def in_flight_def q_tokens_def del add_ac)
  have e: "node_ok ?n'" "same_node ?m ?n'" "keeps_jobs ?m ?n'" "logged (e_crc E) (snd ?m) (snd ?n')" "wrapped ?n' \<or> total ?n' = total ?m + qcb_tokens (q_done x)"
    using evo_base.step_run_done [of E "q_done x" ?m b] m by (simp_all add: evolves_def)
  then show "evolves (e_crc E) {#} n ?n'"
    using t by (auto simp: evolves_def set_q_def same_node_def keeps_jobs_def wrapped_def find_job_def future_def logged_def)
qed

lemma qstates_keep [simp]:
  "qstates (snd (mark_replica_ok i s n)) = qstates (snd n)"
  "qstates (snd (after_ownership_change i n)) = qstates (snd n)"
  "qstates (snd (snd (commit_rec E r n))) = qstates (snd n)"
  by (auto simp: mark_replica_ok_def after_ownership_change_def commit_rec_def Let_def
      split: option.split prod.split)

lemma qstates_resync_send [simp]: "qstates (snd (resync_send E i m n)) = qstates (snd n)"
proof -
  have "qstates (snd (on_resync_resp E i code resp n)) = qstates (snd n)" for code resp n
    by (auto simp: on_resync_resp_def Let_def split: option.split prod.split)
  moreover obtain s n' where c: "rpc_call E m Resync (put_job_id [] i) (ResyncCont i) n = (s, n')" by (meson surj_pair)
  moreover have "snd n' = snd n" using rpc_call_snd [OF c] .
  ultimately show ?thesis by (simp add: resync_send_def split: option.split)
qed

lemma qstates_resync_job [simp]: "qstates (snd (resync_job E i n)) = qstates (snd n)"
proof -
  have "qstates (snd (fold (resync_send E i) ms n)) = qstates (snd n)" for ms
    by (induction ms arbitrary: n) simp_all
  then show ?thesis by (auto simp: resync_job_def Let_def split: option.split)
qed

lemma evolves_on_apply_resp [simp]: "evolves (e_crc E) {#} n (on_apply_resp E i s k code n)"
proof (cases "map_of (qstates (snd n)) k")
  case (Some x0)
  let ?x = "x0\<lparr>q_outstanding := q_outstanding x0 - 1, q_needed := (if code = kCreated then q_needed x0 - 1 else q_needed x0)\<rparr>"
  let ?m = "set_q k ?x n"
  let ?m2 = "if code = kCreated then mark_replica_ok i s ?m else if code = kStaleEpoch then resync_job E i ?m else ?m"
  have "evolves (e_crc E) {#} n ?m" by (rule evolves_set_q [OF Some]) simp_all
  then have e: "evolves (e_crc E) {#} n ?m2" by (rule evo_base.step_then) simp
  have q: "map_of (qstates (snd ?m2)) k = Some ?x" by (simp add: set_q_def)
  have ev: "on_apply_resp E i s k code n =
    (if \<not> q_fired ?x \<and> q_needed ?x \<le> 0 then run_done E (q_done ?x) True (set_q k (?x\<lparr>q_fired := True\<rparr>) ?m2)
     else if \<not> q_fired ?x \<and> q_outstanding ?x = 0 then run_done E (q_done ?x) False (set_q k (?x\<lparr>q_fired := True\<rparr>) ?m2)
     else ?m2)"
    using Some unfolding on_apply_resp_def by (simp only: option.case Let_def)
  have f: "evolves (e_crc E) {#} n (run_done E (q_done ?x) b (set_q k (?x\<lparr>q_fired := True\<rparr>) ?m2))" if "\<not> q_fired ?x" for b
    by (rule evo_base.step_then [OF e evolves_fire [OF q that]])
  show ?thesis
    unfolding ev using e f by presburger
qed (simp add: on_apply_resp_def evolves_refl)

lemma evolves_apply_send [simp]: "evolves (e_crc E) {#} n (apply_send E i k msg se n)"
  unfolding apply_send_def by (rule evo_base.step_send) simp_all

lemma evolves_new_q:
  assumes "k = next_q (snd n)" "\<not> q_fired x"
  shows "evolves crc (qcb_tokens (q_done x)) n (upd (\<lambda>q. q\<lparr>next_q := k + 1\<rparr>) (set_q k x n))"
proof (rule evolvesI)
  assume "node_ok n"
  then have "map_of (qstates (snd n)) k = None" using assms(1) by (auto simp: node_ok_def queue_ok_def map_of_fst_None)
  then show "evolves crc (qcb_tokens (q_done x)) n (upd (\<lambda>q. q\<lparr>next_q := k + 1\<rparr>) (set_q k x n))"
    using assms table_sum_update_new [of "qstates (snd n)" k q_tokens x]
    by (auto simp: evolves_def set_q_def node_ok_def queue_ok_def minted_def same_node_def keeps_jobs_def wrapped_def
        find_job_def answered_def in_flight_def set_update_fst q_tokens_def add_ac intro: logged_same)
qed

lemma evolves_quorum_commit:
  assumes i: "find_job i n \<noteq> None" and t: "tame (snd n) r" "wf_rec r"
  shows "evolves (e_crc E) (qcb_tokens d) n (quorum_commit E i r d n)"
proof -
  obtain ok m where c: "commit_rec E r n = (ok, m)" by (meson surj_pair)
  have e: "evolves (e_crc E) {#} n m" by (rule evolves_commit_rec [OF t c])
  obtain j where j: "find_job i m = Some j" using commit_keeps_job [OF c i] by blast
  let ?m1 = "set_repair i m"
  let ?slots = "slots_of (snd ?m1) j" and ?k = "next_q (snd ?m1)"
  let ?x = "\<lparr>q_done = d, q_needed = 1, q_outstanding = int (length ?slots), q_fired = False\<rparr>"
  let ?m2 = "upd (\<lambda>q. q\<lparr>next_q := ?k + 1\<rparr>) (set_q ?k ?x ?m1)"
  have e1: "evolves (e_crc E) {#} n ?m1" by (rule evo_base.step_then [OF e]) simp
  have e2: "evolves (e_crc E) (qcb_tokens d) n ?m2"
    using evo_base.step_before [OF e1 evolves_new_q [of ?k ?m1 ?x]] by simp
  have f: "evolves (e_crc E) {#} ?m2 (fold (apply_send E i ?k (encode_record r 0)) ?slots ?m2)"
    by (rule evo_base.step_fold) simp
  have "quorum_commit E i r d n =
    (if \<not> ok then run_done E d False m else if ?slots = [] then run_done E d True ?m1
     else fold (apply_send E i ?k (encode_record r 0)) ?slots ?m2)"
    using c j unfolding quorum_commit_def by (simp only: Let_def prod.case option.case)
  then show ?thesis
    using evo_base.step_before [OF e evo_base.step_run_done] evo_base.step_before [OF e1 evo_base.step_run_done] evo_base.step_then [OF e2 f] by simp
qed




section \<open>The whole node\<close>

interpretation evo_queue: queue_steps E "evolves (e_crc E)" for E :: "'s env"
  by unfold_locales
    (rule evolvesI evolves_submit_commit evolves_start_replication evolves_on_replicate_resp evolves_on_apply_resp evolves_quorum_commit;
      assumption)+

lemma evolves_finish:
  assumes "map_of (calls r) i = Some c"
  shows "evolves (e_crc E) {#} (r, q) (run_cont E (cb c) s b (r\<lparr>calls := AList.delete i (calls r)\<rparr>, q))"
proof (rule evolvesI)
  assume ok: "node_ok (r, q)"
  let ?m = "(r\<lparr>calls := AList.delete i (calls r)\<rparr>, q)"
  have d: "dict (calls r)" using ok by (simp add: node_ok_def calls_ok_def)
  have m: "node_ok ?m" using ok by (auto simp: node_ok_def calls_ok_def set_delete_fst)
  have t: "total ?m + cont_tokens (cb c) = total (r, q)"
    using table_sum_delete [OF d assms, of "\<lambda>c. cont_tokens (cb c)"] by (simp add: answered_def in_flight_def add_ac)
  let ?n' = "run_cont E (cb c) s b ?m"
  have "node_ok ?n'" "same_node ?m ?n'" "keeps_jobs ?m ?n'" "logged (e_crc E) (snd ?m) (snd ?n')"
    "wrapped ?n' \<or> total ?n' = total ?m + cont_tokens (cb c)"
    using evo_queue.step_run_cont [of E "cb c" ?m s b] m by (simp_all add: evolves_def)
  then show "evolves (e_crc E) {#} (r, q) ?n'"
    using t by (auto simp: evolves_def same_node_def keeps_jobs_def wrapped_def find_job_def now_def)
qed



interpretation evo: node_events E "evolves (e_crc E)" for E :: "'s env"
  by unfold_locales (rule evolves_finish evolves_socket; assumption)+

end
