(* ===== verification/Queue_Backing.thy ===== *)
theory Queue_Backing
  imports Queue_Tokens
begin

text \<open>
  No request waits for nothing: a pending submission waits for replication calls in flight and an
  unfinished quorum commit for record calls in flight, never for more than there are. A step may
  be handed callbacks that are due, as credits, and must leave that accounting intact.
\<close>

section \<open>Counting calls\<close>

definition conts :: "('s, 'k) rpc \<Rightarrow> 'k multiset" where
  "conts r = image_mset (\<lambda>x. cb (snd x)) (mset (calls r))"

definition rep_for :: "JobId \<Rightarrow> cont \<Rightarrow> bool" where
  "rep_for i k \<longleftrightarrow> (\<exists>s. k = ReplicateCont i s)"

definition app_for :: "nat \<Rightarrow> cont \<Rightarrow> bool" where
  "app_for q k \<longleftrightarrow> (\<exists>i s. k = ApplyCont i s q)"

definition waits :: "(cont \<Rightarrow> bool) \<Rightarrow> cont multiset \<Rightarrow> int" where
  "waits P M = int (size (filter_mset P M))"

text \<open>The calls of \<open>M\<close> are enough for what waits; the commits of \<open>D\<close> may have run out of them.\<close>

definition feeds :: "nat set \<Rightarrow> cont multiset \<Rightarrow> qnode \<Rightarrow> bool" where
  "feeds D M q \<longleftrightarrow>
     (\<forall>i ps. map_of (pending_submits q) i = Some ps \<longrightarrow>
        1 \<le> ps_outstanding ps \<and> ps_outstanding ps \<le> waits (rep_for i) M) \<and>
     (\<forall>k x. map_of (qstates q) k = Some x \<and> \<not> q_fired x \<longrightarrow>
        (k \<in> D \<or> 1 \<le> q_outstanding x) \<and> q_outstanding x \<le> waits (app_for k) M)"

definition backed :: "nat set \<Rightarrow> cont multiset \<Rightarrow> 's node \<Rightarrow> bool" where
  "backed D C n \<longleftrightarrow> feeds D (C + conts (fst n)) (snd n)"

lemma waits_simps [simp]:
  "waits P {#} = 0" "waits P (add_mset k M) = (if P k then 1 else 0) + waits P M" "waits P (M + N) = waits P M + waits P N"
  by (simp_all add: waits_def)

lemma waits_more: "waits P M \<le> waits P (add_mset k M)"
  by simp

lemma waits_nonneg [simp]: "0 \<le> waits P M"
  by (simp add: waits_def)

lemma for_simps [simp]:
  "rep_for i (ReplicateCont j s) \<longleftrightarrow> j = i" "\<not> app_for k (ReplicateCont j s)"
  "app_for k (ApplyCont i s l) \<longleftrightarrow> l = k" "\<not> rep_for j (ApplyCont i s l)"
  by (auto simp: rep_for_def app_for_def)

lemma feeds_cong:
  "pending_submits q' = pending_submits q \<Longrightarrow> qstates q' = qstates q \<Longrightarrow> feeds D M q' = feeds D M q"
  by (simp add: feeds_def)

lemma feeds_more: "feeds D M q \<Longrightarrow> feeds D (add_mset k M) q"
  unfolding feeds_def using order_trans [OF _ waits_more] by blast

lemma feeds_idle: "\<not> (\<exists>i. rep_for i k) \<Longrightarrow> \<not> (\<exists>l. app_for l k) \<Longrightarrow> feeds D (add_mset k M) q = feeds D M q"
  by (simp add: feeds_def)

lemma backed_cong:
  "calls (fst n') = calls (fst n) \<Longrightarrow> pending_submits (snd n') = pending_submits (snd n) \<Longrightarrow>
   qstates (snd n') = qstates (snd n) \<Longrightarrow> backed D C n' = backed D C n"
  using feeds_cong [of "snd n'" "snd n"] by (simp add: backed_def conts_def)

lemma backed_more: "backed D C n \<Longrightarrow> backed D (add_mset k C) n"
  by (simp add: backed_def feeds_more)


section \<open>Backed steps\<close>

definition backs :: "(bytes \<Rightarrow> u32) \<Rightarrow> token multiset \<Rightarrow> 's node \<Rightarrow> 's node \<Rightarrow> bool" where
  "backs crc X n n' \<longleftrightarrow> evolves crc X n n' \<and> (node_ok n \<longrightarrow> (\<forall>D C. backed D C n \<longrightarrow> wrapped n' \<or> backed D C n'))"

text \<open>A step that also uses up a credit.\<close>

definition spends :: "(bytes \<Rightarrow> u32) \<Rightarrow> cont \<Rightarrow> 's node \<Rightarrow> 's node \<Rightarrow> bool" where
  "spends crc k n n' \<longleftrightarrow> evolves crc {#} n n' \<and>
     (node_ok n \<longrightarrow> (\<forall>D C. backed D (add_mset k C) n \<longrightarrow> wrapped n' \<or> backed D C n'))"

lemma evolves_wrapped: "evolves crc X n n' \<Longrightarrow> node_ok n \<Longrightarrow> wrapped n \<Longrightarrow> wrapped n'"
  by (simp add: evolves_def same_node_def)

lemma evolves_ok: "evolves crc X n n' \<Longrightarrow> node_ok n \<Longrightarrow> node_ok n'"
  by (simp add: evolves_def)

lemma backs_trans:
  assumes "backs crc X n m" "backs crc Y m k"
  shows "backs crc (X + Y) n k"
  using assms evolves_trans [of crc X n m Y k] evolves_ok [of crc X n m] evolves_wrapped [of crc Y m k]
  unfolding backs_def by blast

lemma backs_same:
  assumes "evolves crc X n n'" "calls (fst n') = calls (fst n)" "pending_submits (snd n') = pending_submits (snd n)"
    "qstates (snd n') = qstates (snd n)"
  shows "backs crc X n n'"
  using assms backed_cong [OF assms(2-4)] by (simp add: backs_def)

lemma spends_backs: "spends crc k n n' \<Longrightarrow> backs crc {#} n n'"
  unfolding spends_def backs_def by (meson backed_more)

lemma spends_after: "backs crc {#} n m \<Longrightarrow> spends crc k m n' \<Longrightarrow> spends crc k n n'"
  using evolves_trans [of crc "{#}" n m "{#}" n'] evolves_ok [of crc "{#}" n m]
    evolves_wrapped [of crc "{#}" m n']
  unfolding spends_def backs_def by (simp; blast)

lemma mset_update_new: "map_of xs k = None \<Longrightarrow> mset (AList.update k v xs) = add_mset (k, v) (mset xs)"
  by (induction xs) (auto split: if_splits)

text \<open>A call that is made becomes a credit in flight.\<close>

lemma call_conts:
  assumes "rpc_call E to m b k n = (s, n')" "node_ok n"
  shows "wrapped n' \<or> conts (fst n') = (if s = None then add_mset k (conts (fst n)) else conts (fst n))"
proof -
  obtain r' where r': "call (e_ops E) to m b (rpc_timeout (cfg (snd n))) k (fst n) = (s, r')" and n': "n' = (r', snd n)"
    using assms(1) by (auto simp: rpc_call_def split: prod.splits)
  have co: "calls_ok (fst n)" using assms(2) by (simp add: node_ok_def)
  show ?thesis
    using call_effect [OF r'] calls_ok_fresh [OF co]
    by (auto simp: n' wrapped_def conts_def kTooLarge_def kBusy_def mset_update_new)
qed

lemma backs_call:
  assumes c: "rpc_call E to m b k n = (s, n')"
  shows "backs crc (if s = None then cont_tokens k else {#}) n n'"
  using evolves_call [OF c, of crc] call_conts [OF c] rpc_call_snd [OF c]
  by (cases "s = None") (auto simp: backs_def backed_def feeds_more)

lemma call_spends: "rpc_call E to m b k n = (None, n') \<Longrightarrow> node_ok n \<Longrightarrow> backed D (add_mset k C) n \<Longrightarrow>
    wrapped n' \<or> backed D C n'"
  using call_conts [of E to m b k n None n'] rpc_call_snd [of E to m b k n None n'] by (auto simp: backed_def)

lemma backs_refl: "backs crc {#} n n"
  by (rule backs_same [OF evolves_refl]) simp_all

lemma backs_framed: "framed q q' \<Longrightarrow> backs crc {#} (r, q) (r, q')"
  by (rule backs_same [OF evolves_framed]) (simp_all add: framed_def)

lemma backs_quiet: "quiet r r' \<Longrightarrow> backs crc {#} (r, q) (r', q)"
  by (rule backs_same [OF evolves_quiet]) (simp_all add: quiet_def)

lemma backs_reply: "backs crc (reply_tokens x) n (reply x n)"
  by (rule backs_same [OF evolves_reply]) (simp_all add: reply_def)

lemma backs_vote: "backs crc {#} n (cast_vote i p a n)"
  by (rule backs_same [OF evolves_vote]) (simp_all add: cast_vote_def)

lemma backs_commit: "tame (snd n) c \<Longrightarrow> wf_rec c \<Longrightarrow> commit_rec E c n = (ok, n') \<Longrightarrow> backs (e_crc E) {#} n n'"
  by (rule backs_same [OF evolves_commit_rec]) (simp_all add: commit_find(2,3))

lemma backsI: "(node_ok n \<Longrightarrow> backs crc X n n') \<Longrightarrow> backs crc X n n'"
  using evolvesI [of n crc X n'] by (auto simp: backs_def)

interpretation bak_base: node_steps E "backs (e_crc E)" for E :: "'s env"
  by unfold_locales
    (rule backs_refl backs_trans backs_framed backs_reply backs_quiet backs_commit backs_call backs_vote; assumption)+

section \<open>Pending submissions\<close>

text \<open>What the callback of a replication does to the pending submission.\<close>

definition settle :: "'s env \<Rightarrow> JobId \<Rightarrow> bool \<Rightarrow> 's node \<Rightarrow> 's node" where
  "settle E i ok n =
    (case map_of (pending_submits (snd n)) i of
       None \<Rightarrow> n
     | Some ps \<Rightarrow>
        (let ps = ps\<lparr>ps_outstanding := ps_outstanding ps - 1, ps_needed := (if ok then ps_needed ps - 1 else ps_needed ps)\<rparr>;
             n = upd (\<lambda>q. q\<lparr>pending_submits := AList.update i ps (pending_submits q)\<rparr>) n in
         if ps_needed ps \<le> 0 then submit_result E i kCreated n
         else if ps_outstanding ps = 0 then submit_result E i kNoQuorum n
         else n))"

lemma on_replicate_resp_settle:
  "on_replicate_resp E i slot code n =
    (let ok = (code = kCreated \<or> code = kDuplicate)
     in settle E i ok (if ok then mark_replica_ok i slot n else if code = kStaleEpoch then resync_job E i n else n))"
  by (simp add: on_replicate_resp_def settle_def Let_def)

lemma submit_cb_keeps [simp]:
  "calls (fst (submit_cb E c s i n)) = calls (fst n)"
  "pending_submits (snd (submit_cb E c s i n)) = pending_submits (snd n)"
  "qstates (snd (submit_cb E c s i n)) = qstates (snd n)"
  using quiet_respond [of "fst n" "e_ops E" _ s "put_job_id [] i"]
  by (auto simp: submit_cb_def reply_def respond_to_def quiet_def split: reply_cb.split)

lemma submit_result_keeps [simp]:
  "calls (fst (submit_result E i s n)) = calls (fst n)"
  "pending_submits (snd (submit_result E i s n)) = AList.delete i (pending_submits (snd n))"
  "qstates (snd (submit_result E i s n)) = qstates (snd n)"
  by (auto simp: submit_result_def delete_absent split: option.split)

lemma evolves_settle: "evolves (e_crc E) {#} n (settle E i ok n)"
proof (cases "map_of (pending_submits (snd n)) i")
  case (Some ps)
  have "evolves (e_crc E) {#} n (upd (\<lambda>q. q\<lparr>pending_submits := AList.update i ps' (pending_submits q)\<rparr>) n)"
    if "ps_cb ps' = ps_cb ps" for ps' by (rule evolves_set_pending [OF Some that])
  from this evo_base.step_then [OF this evolves_submit_result] show ?thesis
    by (simp add: settle_def Some Let_def)
qed (simp add: settle_def evolves_refl)

lemma settle_keeps [simp]:
  "calls (fst (settle E i ok n)) = calls (fst n)" "qstates (snd (settle E i ok n)) = qstates (snd n)"
  by (auto simp: settle_def Let_def split: option.split)

lemma settle_pending:
  "map_of (pending_submits (snd (settle E i ok n))) l =
    (case map_of (pending_submits (snd n)) l of
       None \<Rightarrow> None
     | Some ps \<Rightarrow>
        if l \<noteq> i then Some ps
        else if (if ok then ps_needed ps - 1 else ps_needed ps) \<le> 0 \<or> ps_outstanding ps = 1 then None
        else Some (ps\<lparr>ps_outstanding := ps_outstanding ps - 1, ps_needed := (if ok then ps_needed ps - 1 else ps_needed ps)\<rparr>))"
proof (cases "map_of (pending_submits (snd n)) i")
  case None
  then show ?thesis by (auto simp: settle_def split: option.split)
next
  case (Some ps)
  then show ?thesis
    by (cases "l = i") (simp_all add: settle_def Let_def update_conv' delete_conv' split: option.split)
qed

lemma spends_settle: "spends (e_crc E) (ReplicateCont i s) n (settle E i ok n)"
proof -
  have "backed D C (settle E i ok n)" if b: "backed D (add_mset (ReplicateCont i s) C) n" for D C
  proof -
    let ?M = "C + conts (fst n)"
    have f: "feeds D (add_mset (ReplicateCont i s) ?M) (snd n)" using b by (simp add: backed_def)
    have "1 \<le> ps_outstanding ps \<and> ps_outstanding ps \<le> waits (rep_for l) ?M"
      if "map_of (pending_submits (snd (settle E i ok n))) l = Some ps" for l ps
      using that f unfolding settle_pending feeds_def by (fastforce split: option.splits if_splits)
    then show ?thesis
      using f unfolding backed_def feeds_def by (simp add: conts_def)
  qed
  then show ?thesis by (simp add: spends_def evolves_settle)
qed

lemma spends_on_replicate_resp: "spends (e_crc E) (ReplicateCont i s) n (on_replicate_resp E i slot code n)"
  unfolding on_replicate_resp_settle Let_def by (rule spends_after [OF _ spends_settle]) simp


lemma backs_on_replicate_resp: "backs (e_crc E) {#} n (on_replicate_resp E i slot code n)"
  by (rule spends_backs [OF spends_on_replicate_resp])

lemma spends_send:
  assumes k: "cont_tokens k = {#}" and f: "\<And>code n'. spends (e_crc E) k n' (f code n')"
  shows "spends (e_crc E) k n (let (s, n') = rpc_call E to m b k n in case s of None \<Rightarrow> n' | Some code \<Rightarrow> f code n')"
proof -
  obtain s n' where c: "rpc_call E to m b k n = (s, n')" by (meson surj_pair)
  have e: "backs (e_crc E) {#} n n'" using backs_call [OF c, of "e_crc E"] k by (simp split: if_splits)
  show ?thesis
  proof (cases s)
    case None
    then show ?thesis using c e call_spends [of E to m b k n n'] by (auto simp: spends_def backs_def)
  next
    case (Some code)
    then show ?thesis using c spends_after [OF e f] by simp
  qed
qed

lemma spends_send_replicate:
  "find_job i n \<noteq> None \<Longrightarrow> spends (e_crc E) (ReplicateCont i slot) n (send_replicate E i slot n)"
  using spends_send [of "ReplicateCont i slot" E "\<lambda>code. on_replicate_resp E i slot code" n]
  by (auto simp: send_replicate_def spends_on_replicate_resp)

lemma evolves_keeps: "evolves crc X n n' \<Longrightarrow> node_ok n \<Longrightarrow> find_job i n \<noteq> None \<Longrightarrow> find_job i n' \<noteq> None"
  by (fastforce simp: evolves_def keeps_jobs_def)

text \<open>A loop of sends uses up the credits of its callbacks.\<close>

lemma spends_fold:
  assumes "\<And>x n. find_job i n \<noteq> None \<Longrightarrow> spends crc (g x) n (f x n)"
  shows "node_ok n \<Longrightarrow> find_job i n \<noteq> None \<Longrightarrow> backed D (image_mset g (mset xs) + C) n \<Longrightarrow>
    wrapped (fold f xs n) \<or> backed D C (fold f xs n)"
proof (induction xs arbitrary: n)
  case (Cons x xs)
  have s: "spends crc (g x) n (f x n)" by (rule assms [OF Cons.prems(2)])
  then have e: "evolves crc {#} n (f x n)" by (simp add: spends_def)
  have n1: "node_ok (f x n)" "find_job i (f x n) \<noteq> None"
    using evolves_ok [OF e Cons.prems(1)] evolves_keeps [OF e Cons.prems(1,2)] by simp_all
  have w: "wrapped (fold f xs m)" if "wrapped m" "node_ok m" "find_job i m \<noteq> None" for m
    using that
  proof (induction xs arbitrary: m)
    case (Cons y ys)
    have e: "evolves crc {#} m (f y m)" using assms [OF Cons.prems(3)] by (simp add: spends_def)
    show ?case
      using Cons.IH [of "f y m"] evolves_ok [OF e Cons.prems(2)] evolves_keeps [OF e Cons.prems(2,3)]
        evolves_wrapped [OF e Cons.prems(2,1)] by simp
  qed simp
  have "wrapped (f x n) \<or> backed D (image_mset g (mset xs) + C) (f x n)"
    using s Cons.prems(1,3) by (simp add: spends_def)
  then show ?case using Cons.IH [OF n1] w [OF _ n1] by auto
qed simp

lemma feeds_add_pending:
  assumes "feeds D M q" "1 \<le> ps_outstanding ps" "ps_outstanding ps \<le> waits (rep_for i) N"
  shows "feeds D (N + M) (q\<lparr>pending_submits := AList.update i ps (pending_submits q)\<rparr>)"
proof -
  have "0 \<le> waits P N" for P by simp
  then show ?thesis
    using assms unfolding feeds_def
    by (auto simp: update_conv' add_increasing add_increasing2 intro: order_trans split: if_splits)
qed

lemma waits_slots: "waits (rep_for i) (image_mset (\<lambda>(s, e). ReplicateCont i s) (mset xs)) = int (length xs)"
  "waits (app_for k) (image_mset (\<lambda>(s, e). ApplyCont i s k) (mset xs)) = int (length xs)"
  by (induction xs) (auto split: prod.split)

lemma backs_start_replication:
  assumes "find_job i n \<noteq> None" "node_ok n \<Longrightarrow> wrapped n \<or> map_of (pending_submits (snd n)) i = None"
    and "seq_wrapped (snd n) \<or> minted (snd n) i"
  shows "backs (e_crc E) (cb_tokens c) n (start_replication E i (Some c) n)"
proof -
  obtain j where j: "find_job i n = Some j" using assms(1) by blast
  let ?slots = "slots_of (snd n) j" and ?g = "\<lambda>(s, e). ReplicateCont i s"
  let ?ps = "\<lparr>ps_cb = c, ps_needed = (if length ?slots > 0 then 1 else 0), ps_outstanding = int (length ?slots)\<rparr>"
  let ?r = "set_repair i n"
  let ?a = "upd (\<lambda>q. q\<lparr>pending_submits := AList.update i ?ps (pending_submits q)\<rparr>) ?r"
  let ?z = "fold (\<lambda>(s, e). send_replicate E i s) ?slots ?a"
  have ev: "start_replication E i (Some c) n = (if ?slots = [] then submit_result E i kCreated ?a else ?z)"
    using j by (simp add: start_replication_def Let_def)
  have e: "evolves (e_crc E) (cb_tokens c) n (start_replication E i (Some c) n)"
    by (rule evolves_start_replication [OF assms])
  have "wrapped (start_replication E i (Some c) n) \<or> backed D C (start_replication E i (Some c) n)"
    if ok: "node_ok n" and b: "backed D C n" for D C
  proof (cases "?slots = []")
    case True
    have "AList.delete i (AList.update i ?ps xs) = AList.delete i xs" for xs :: "(JobId \<times> PendingSubmit) list"
      by (induction xs) auto
    then have "backed D C (submit_result E i kCreated ?a)"
      using b unfolding backed_def feeds_def by (simp add: set_repair_def conts_def delete_conv' split: if_splits)
    then show ?thesis using True ev by simp
  next
    case False
    have r: "backed D C ?r" using b backed_cong [of ?r n D C] by (simp add: set_repair_def)
    then have "backed D (image_mset ?g (mset ?slots) + C) ?a"
      using feeds_add_pending [of D "C + conts (fst ?r)" "snd ?r" ?ps i "image_mset ?g (mset ?slots)"] False
      by (simp add: backed_def waits_slots add.assoc Suc_leI)
    moreover have "node_ok ?a" by (rule evolves_ok [OF evolves_open_pending [OF assms(2,3), of E ?ps] ok])
    moreover have "find_job i ?a \<noteq> None" using j by (simp add: find_job_def set_repair_def)
    ultimately have "wrapped ?z \<or> backed D C ?z"
      using spends_fold [of i "e_crc E" ?g "\<lambda>(s, e). send_replicate E i s" ?a D ?slots C]
      by (simp add: spends_send_replicate split: prod.split)
    then show ?thesis using False ev by simp
  qed
  with e show ?thesis by (simp add: backs_def)
qed


section \<open>Quorum commits\<close>

lemma feeds_elims:
  assumes "feeds D (add_mset (ApplyCont j s k) M) q"
  shows "map_of (pending_submits q) i = Some ps \<Longrightarrow> 1 \<le> ps_outstanding ps \<and> ps_outstanding ps \<le> waits (rep_for i) M"
    and "map_of (qstates q) l = Some x \<Longrightarrow> \<not> q_fired x \<Longrightarrow> l \<noteq> k \<Longrightarrow>
      (l \<in> D \<or> 1 \<le> q_outstanding x) \<and> q_outstanding x \<le> waits (app_for l) M"
    and "map_of (qstates q) k = Some x \<Longrightarrow> \<not> q_fired x \<Longrightarrow>
      (k \<in> D \<or> 1 \<le> q_outstanding x) \<and> q_outstanding x \<le> 1 + waits (app_for k) M"
proof -
  have "(l \<in> D \<or> 1 \<le> q_outstanding x) \<and> q_outstanding x \<le> (if k = l then 1 else 0) + waits (app_for l) M"
    if "map_of (qstates q) l = Some x" "\<not> q_fired x" for l x using assms that by (simp add: feeds_def)
  from this [of l] this [of k] assms show
    "map_of (pending_submits q) i = Some ps \<Longrightarrow> 1 \<le> ps_outstanding ps \<and> ps_outstanding ps \<le> waits (rep_for i) M"
    "map_of (qstates q) l = Some x \<Longrightarrow> \<not> q_fired x \<Longrightarrow> l \<noteq> k \<Longrightarrow>
      (l \<in> D \<or> 1 \<le> q_outstanding x) \<and> q_outstanding x \<le> waits (app_for l) M"
    "map_of (qstates q) k = Some x \<Longrightarrow> \<not> q_fired x \<Longrightarrow>
      (k \<in> D \<or> 1 \<le> q_outstanding x) \<and> q_outstanding x \<le> 1 + waits (app_for k) M"
    by (simp_all add: feeds_def)
qed

lemma feeds_absent:
  assumes "feeds D (add_mset (ApplyCont j s k) M) q" "map_of (qstates q) k = None"
  shows "feeds D M q"
  unfolding feeds_def using feeds_elims [OF assms(1)] assms(2) by (metis option.distinct(1))

lemma feeds_spend:
  assumes "feeds D (add_mset (ApplyCont j s k) M) q"
    "\<not> q_fired x \<Longrightarrow> q_outstanding x \<le> waits (app_for k) M"
  shows "feeds (insert k D) M (q\<lparr>qstates := AList.update k x (qstates q)\<rparr>)"
  unfolding feeds_def using feeds_elims(1,2) [OF assms(1)] assms(2) by (simp add: update_conv')

lemma feeds_new_q:
  assumes "feeds D M q" "1 \<le> q_outstanding x" "q_outstanding x \<le> waits (app_for k) N"
  shows "feeds D (N + M) (q\<lparr>qstates := AList.update k x (qstates q), next_q := l\<rparr>)"
  using assms unfolding feeds_def by (auto simp: update_conv' add_increasing add_increasing2 intro: order_trans split: if_splits)

lemma feeds_settled:
  assumes "feeds (insert k D) M q"
    "\<And>x. map_of (qstates q) k = Some x \<Longrightarrow> \<not> q_fired x \<Longrightarrow> k \<in> D \<or> 1 \<le> q_outstanding x"
  shows "feeds D M q"
  using assms unfolding feeds_def by blast

lemma reply_keeps [simp]:
  "calls (fst (reply x n)) = calls (fst n)" "pending_submits (snd (reply x n)) = pending_submits (snd n)"
  "qstates (snd (reply x n)) = qstates (snd n)"
  by (simp_all add: reply_def)

lemma respond_to_keeps [simp]: "calls (fst (respond_to E ctx s b n)) = calls (fst n)" "snd (respond_to E ctx s b n) = snd n"
  using quiet_respond [of "fst n" "e_ops E" ctx s b] by (simp_all add: respond_to_def quiet_def)

lemma commit_rec_keeps [simp]:
  "calls (fst (snd (commit_rec E r n))) = calls (fst n)"
  "pending_submits (snd (snd (commit_rec E r n))) = pending_submits (snd n)"
  by (auto simp: commit_rec_def split: prod.split)

lemma run_done_keeps [simp]:
  "calls (fst (run_done E d ok n)) = calls (fst n)" "pending_submits (snd (run_done E d ok n)) = pending_submits (snd n)"
  "qstates (snd (run_done E d ok n)) = qstates (snd n)"
  by (auto simp: run_done_def lease_done_def ack_done_def ack_cb_def Let_def requeue_ready_def bump_def
      split: quorum_cb.split option.split reply_cb.split)

lemma feeds_fired:
  assumes "feeds (insert k D) M q" "q_fired x"
  shows "feeds D M (q\<lparr>qstates := AList.update k x (qstates q)\<rparr>)"
  using assms unfolding feeds_def by (auto simp: update_conv')

lemma backed_fired:
  assumes "backed (insert k D) C m" "q_fired x"
  shows "backed D C (run_done E d ok (set_q k x m))"
  using feeds_fired [of k D "C + conts (fst m)" "snd m" x] assms
    feeds_cong [of "snd (run_done E d ok (set_q k x m))" "snd (set_q k x m)"]
  by (simp add: backed_def set_q_def conts_def)

lemma backed_kept:
  assumes "backed (insert k D) C m" "map_of (qstates (snd m)) k = Some x" "q_fired x \<or> k \<in> D \<or> 1 \<le> q_outstanding x"
  shows "backed D C m"
  using feeds_settled [of k D "C + conts (fst m)" "snd m"] assms by (auto simp: backed_def)

lemma spends_on_apply_resp: "spends (e_crc E) (ApplyCont j s k) n (on_apply_resp E i s' k code n)"
proof -
  let ?z = "on_apply_resp E i s' k code n"
  have "wrapped ?z \<or> backed D C ?z" if ok: "node_ok n" and b: "backed D (add_mset (ApplyCont j s k) C) n" for D C
  proof (cases "map_of (qstates (snd n)) k")
    case None
    then show ?thesis using b feeds_absent [of D j s k "C + conts (fst n)" "snd n"] by (simp add: on_apply_resp_def backed_def)
  next
    case (Some x0)
    let ?x = "x0\<lparr>q_outstanding := q_outstanding x0 - 1, q_needed := (if code = kCreated then q_needed x0 - 1 else q_needed x0)\<rparr>"
    let ?m = "set_q k ?x n"
    let ?m2 = "if code = kCreated then mark_replica_ok i s' ?m else if code = kStaleEpoch then resync_job E i ?m else ?m"
    let ?y = "set_q k (?x\<lparr>q_fired := True\<rparr>) ?m2"
    have f: "feeds D (add_mset (ApplyCont j s k) (C + conts (fst n))) (snd n)" using b by (simp add: backed_def)
    note x0 = feeds_elims(3) [OF f Some]
    have "q_outstanding ?x \<le> waits (app_for k) (C + conts (fst n))" if "\<not> q_fired ?x" using x0 that by simp
    from feeds_spend [OF f this] have "backed (insert k D) C ?m"
      unfolding backed_def set_q_def upd_simps .
    moreover have "node_ok ?m" by (rule evolves_ok [OF evolves_set_q [OF Some, of _ "e_crc E"] ok]) simp_all
    moreover have "backs (e_crc E) {#} ?m ?m2" by simp
    ultimately have m2: "wrapped ?m2 \<or> backed (insert k D) C ?m2" "node_ok ?m2"
      using evolves_ok [of "e_crc E" "{#}" ?m ?m2] unfolding backs_def by blast+
    have q: "map_of (qstates (snd ?m2)) k = Some ?x" by (simp add: set_q_def)
    have ev: "?z = (if \<not> q_fired ?x \<and> q_needed ?x \<le> 0 then run_done E (q_done ?x) True ?y
       else if \<not> q_fired ?x \<and> q_outstanding ?x = 0 then run_done E (q_done ?x) False ?y else ?m2)"
      using Some unfolding on_apply_resp_def by (simp only: option.case Let_def)
    have "evolves (e_crc E) {#} ?m2 (run_done E (q_done ?x) ok ?y)" if "\<not> q_fired ?x" for ok
      by (rule evolves_fire [OF q that])
    from evolves_wrapped [OF this m2(2)]
    have w: "wrapped (run_done E (q_done ?x) ok ?y)" if "\<not> q_fired ?x" "wrapped ?m2" for ok using that by blast
    have fired: "backed D C (run_done E (q_done ?x) ok ?y)" if "backed (insert k D) C ?m2" for ok
      by (rule backed_fired [OF that]) simp
    have kept: "backed D C ?m2" if "backed (insert k D) C ?m2" "q_fired ?x \<or> q_outstanding ?x \<noteq> 0"
      by (rule backed_kept [OF that(1) q]) (use that(2) x0 in auto)
    show ?thesis
      unfolding ev using m2(1) w fired kept by presburger
  qed
  moreover have "evolves (e_crc E) {#} n ?z" by simp
  ultimately show ?thesis by (simp add: spends_def)
qed


lemma backs_on_apply_resp: "backs (e_crc E) {#} n (on_apply_resp E i s k code n)"
  by (rule spends_backs [OF spends_on_apply_resp])

lemma spends_apply_send: "spends (e_crc E) (ApplyCont i (fst se) k) n (apply_send E i k msg se n)"
  unfolding apply_send_def by (rule spends_send) (simp_all add: spends_on_apply_resp)

lemma backs_quorum_commit:
  assumes i: "find_job i n \<noteq> None" and t: "tame (snd n) r" "wf_rec r"
  shows "backs (e_crc E) (qcb_tokens d) n (quorum_commit E i r d n)"
proof -
  obtain ok m where c: "commit_rec E r n = (ok, m)" by (meson surj_pair)
  have e: "backs (e_crc E) {#} n m" by (rule backs_commit [OF t c])
  obtain j where j: "find_job i m = Some j" using commit_keeps_job [OF c i] by blast
  let ?m1 = "set_repair i m"
  let ?slots = "slots_of (snd ?m1) j" and ?k = "next_q (snd ?m1)" and ?g = "\<lambda>(s, e). ApplyCont i s (next_q (snd ?m1))"
  let ?x = "\<lparr>q_done = d, q_needed = 1, q_outstanding = int (length ?slots), q_fired = False\<rparr>"
  let ?m2 = "upd (\<lambda>q. q\<lparr>next_q := ?k + 1\<rparr>) (set_q ?k ?x ?m1)"
  let ?z = "fold (apply_send E i ?k (encode_record r 0)) ?slots ?m2"
  have e1: "backs (e_crc E) {#} n ?m1" by (rule bak_base.step_then [OF e]) simp
  have ev: "quorum_commit E i r d n =
    (if \<not> ok then run_done E d False m else if ?slots = [] then run_done E d True ?m1 else ?z)"
    using c j unfolding quorum_commit_def by (simp only: Let_def prod.case option.case)
  have "wrapped ?z \<or> backed D C ?z" if sl: "?slots \<noteq> []" and okn: "node_ok n" and b: "backed D C n" for D C
  proof -
    have m1: "wrapped ?m1 \<or> backed D C ?m1" "node_ok ?m1"
      using e1 b okn evolves_ok [of "e_crc E" "{#}" n ?m1] by (auto simp: backs_def)
    have e2: "evolves (e_crc E) (qcb_tokens d) ?m1 ?m2" using evolves_new_q [of ?k ?m1 ?x "e_crc E"] by simp
    have f: "find_job i ?m2 \<noteq> None" using j by (simp add: find_job_def set_repair_def set_q_def)
    have b2: "backed D (image_mset ?g (mset ?slots) + C) ?m2" if "backed D C ?m1"
      using feeds_new_q [of D "C + conts (fst ?m1)" "snd ?m1" ?x ?k "image_mset ?g (mset ?slots)" "?k + 1"] that sl
      by (simp add: backed_def set_q_def waits_slots add.assoc Suc_leI)
    have sp: "spends (e_crc E) (?g x) l (apply_send E i ?k (encode_record r 0) x l)" for x l
      using spends_apply_send [of E i x] by (cases x) simp
    have ez: "evolves (e_crc E) {#} ?m2 ?z" by (rule evo_base.step_fold) simp
    show ?thesis
      using m1(1) spends_fold [OF sp evolves_ok [OF e2 m1(2)] f b2]
        evolves_wrapped [OF ez evolves_ok [OF e2 m1(2)] evolves_wrapped [OF e2 m1(2)]] by blast
  qed
  moreover have "evolves (e_crc E) (qcb_tokens d) n (quorum_commit E i r d n)" by (rule evolves_quorum_commit [OF i t])
  ultimately have "backs (e_crc E) (qcb_tokens d) n ?z" if "ok" "?slots \<noteq> []" using that ev by (simp add: backs_def)
  then show ?thesis
    unfolding ev using bak_base.step_before [OF e bak_base.step_run_done] bak_base.step_before [OF e1 bak_base.step_run_done]
    by simp
qed

lemma backs_submit_commit:
  assumes "job_id j = mint_id (self (cfg (snd n))) (qboot (snd n)) (next_job_seq (snd n))" "wf_job j"
    and c: "commit_rec E (SubmitRec j) (upd (\<lambda>q. q\<lparr>next_job_seq := next_job_seq q + 1,
      seq_wrapped := seq_wrapped q \<or> next_job_seq q + 1 = 0\<rparr>) n) = (ok, n')"
  shows "backs (e_crc E) {#} n n'"
  by (rule backs_same [OF evolves_submit_commit [OF assms]]) (simp_all add: commit_find(2,3) [OF c])

interpretation bak_queue: queue_steps E "backs (e_crc E)" for E :: "'s env"
  by unfold_locales
    (rule backsI backs_submit_commit backs_start_replication backs_on_replicate_resp backs_on_apply_resp backs_quorum_commit;
      assumption)+


section \<open>The whole node\<close>

lemma mset_delete:
  "dict xs \<Longrightarrow> map_of xs k = Some v \<Longrightarrow> mset xs = add_mset (k, v) (mset (AList.delete k xs))"
proof (induction xs)
  case (Cons x xs)
  show ?case
  proof (cases "fst x = k")
    case True
    then have "AList.delete k xs = xs" using Cons.prems by (simp add: delete_id)
    then show ?thesis using Cons.prems True by (cases x) simp
  next
    case False
    then show ?thesis using Cons by (cases x) simp
  qed
qed simp

lemma backed_run_cont:
  assumes "node_ok n" "backed D (add_mset k C) n"
  shows "wrapped (run_cont E k s b n) \<or> backed D C (run_cont E k s b n)"
proof (cases "(\<exists>i. rep_for i k) \<or> (\<exists>l. app_for l k)")
  case True
  then show ?thesis
    unfolding rep_for_def app_for_def
  proof (elim disjE exE)
    show ?thesis if "k = ReplicateCont i t" for i t
      using assms spends_on_replicate_resp [of E i t n t s] that by (simp add: run_cont_def spends_def)
    show ?thesis if "k = ApplyCont i t l" for i t l
      using assms spends_on_apply_resp [of E i t l n i t s] that by (simp add: run_cont_def spends_def)
  qed
next
  case False
  then have "backed D C n" using assms(2) feeds_idle [of k D "C + conts (fst n)" "snd n"] by (simp add: backed_def)
  then show ?thesis using bak_queue.step_run_cont [of E k n s b] assms(1) by (simp add: backs_def)
qed

lemma backs_finish:
  assumes "map_of (calls r) i = Some c"
  shows "backs (e_crc E) {#} (r, q) (run_cont E (cb c) s b (r\<lparr>calls := AList.delete i (calls r)\<rparr>, q))"
proof -
  let ?m = "(r\<lparr>calls := AList.delete i (calls r)\<rparr>, q)"
  have "wrapped (run_cont E (cb c) s b ?m) \<or> backed D C (run_cont E (cb c) s b ?m)"
    if ok: "node_ok (r, q)" and b: "backed D C (r, q)" for D C
  proof (rule backed_run_cont)
    have d: "dict (calls r)" using ok by (simp add: node_ok_def calls_ok_def)
    show "node_ok ?m" using ok by (auto simp: node_ok_def calls_ok_def set_delete_fst)
    show "backed D (add_mset (cb c) C) ?m"
      using b mset_delete [OF d assms] by (simp add: backed_def conts_def)
  qed
  then show ?thesis using evolves_finish [OF assms, of E q s b] by (simp add: backs_def)
qed

lemma backs_socket: "backs crc {#} (r, q) (r\<lparr>demux := (demux r)\<lparr>inner := sk\<rparr>\<rparr>, q)"
  by (rule backs_same [OF evolves_socket]) simp_all

interpretation bak: node_events E "backs (e_crc E)" for E :: "'s env"
  by unfold_locales (rule backs_finish backs_socket; assumption)+

end
