(* ===== verification/Queue_Runs.thy ===== *)
theory Queue_Runs
  imports Queue_Backing
begin

text \<open>
  Whole runs of a queue node, from opening its store through any sequence of requests, event loop
  turns, membership changes and whatever the network does, and what holds at the end of every run.
\<close>

section \<open>Runs\<close>

definition node_new :: "NodeConfig \<Rightarrow> u64 \<Rightarrow> socket \<Rightarrow> disk \<Rightarrow> nat \<Rightarrow> 's node" where
  "node_new c b sk d sb = (rpc_new sk b, qnode_new c b d sb)"

text \<open>Each event meets the liveness view of its time.\<close>

definition queue_run :: "'s env \<Rightarrow> (membership \<times> event) list \<Rightarrow> 's node \<Rightarrow> 's node" where
  "queue_run E xs n = fold (\<lambda>(m, e). queue_event (E\<lparr>e_mem := m\<rparr>) e) xs n"

definition run_tokens :: "(membership \<times> event) list \<Rightarrow> token multiset" where
  "run_tokens xs = sum_list (map (\<lambda>x. event_tokens (snd x)) xs)"

lemma backs_run: "backs (e_crc E) (run_tokens xs) n (queue_run E xs n)"
proof (induction xs arbitrary: n)
  case Nil
  then show ?case by (simp add: run_tokens_def queue_run_def backs_refl)
next
  case (Cons x xs)
  obtain m e where x: "x = (m, e)" by fastforce
  let ?n = "queue_event (E\<lparr>e_mem := m\<rparr>) e n"
  have "backs (e_crc E) (event_tokens e) n ?n" using bak.step_event [of "E\<lparr>e_mem := m\<rparr>" e n] by simp
  from backs_trans [OF this Cons [of ?n]] show ?case by (simp add: run_tokens_def queue_run_def x)
qed

lemma wf_replay:
  assumes "replay bs s = Some s'" "\<And>i j. find i s = Some j \<Longrightarrow> job_id j = i \<and> wf_job j" "find i s' = Some j"
  shows "job_id j = i \<and> wf_job j"
  using assms
proof (induction bs arbitrary: s i j)
  case (Cons b bs)
  from Cons.prems(1) obtain r where r: "decode_record b = Some r"
      and s': "replay bs (case r of None \<Rightarrow> s | Some (rec, lsn) \<Rightarrow> apply_rec rec s) = Some s'"
    by (auto elim: bind_SomeE)
  show ?case
  proof (rule Cons.IH [OF s' _ Cons.prems(3)])
    fix i j assume f: "find i (case r of None \<Rightarrow> s | Some (rec, lsn) \<Rightarrow> apply_rec rec s) = Some j"
    show "job_id j = i \<and> wf_job j"
    proof (cases r)
      case (Some p)
      then obtain rec lsn where p: "r = Some (rec, lsn)" by (cases p) simp
      have "wf_rec rec" using decode_record_SomeD [of b rec lsn] r p by simp
      then show ?thesis
        using f p Cons.prems(2) [of i] job_step_ok_id [of rec "find i s" j]
        by (cases "find i s") (auto simp: find_apply_rec split: if_splits)
    qed (use f Cons.prems(2) in simp)
  qed
qed simp

text \<open>A node that has just opened its store: nothing is asked, nothing is owed.\<close>

lemma opened:
  fixes E :: "'s env"
  assumes "queue_open E (node_new c b sk d sb) = Some (True, n)"
  obtains s where "store_open (e_crc E) (data_dir c) (empty_store (wal_new sb d)) = Some (True, s)"
    "node_ok (upd (\<lambda>q. q\<lparr>st := s\<rparr>) (node_new c b sk d sb) :: 's node)"
    "backs (e_crc E) {#} (upd (\<lambda>q. q\<lparr>st := s\<rparr>) (node_new c b sk d sb)) n"
proof -
  let ?n = "node_new c b sk d sb :: 's node"
  from assms obtain s where s: "store_open (e_crc E) (data_dir c) (empty_store (wal_new sb d)) = Some (True, s)"
      and n: "n = fold (open_job E) (jobs s) (upd (\<lambda>q. q\<lparr>st := s\<rparr>) ?n)"
    by (auto simp: queue_open_def node_new_def qnode_new_def Let_def elim!: bind_SomeE split: if_splits)
  have "job_id j = i \<and> wf_job j" if j: "find i s = Some j" for i j
  proof -
    from s obtain bs s' w where "replay bs (empty_store (wal_new sb d)) = Some s'" "s = s'\<lparr>swal := w\<rparr>"
      by (auto simp: store_open_def elim!: bind_SomeE)
    then show ?thesis using wf_replay [of bs "empty_store (wal_new sb d)" s' i j] j by (simp add: find_def empty_store_def)
  qed
  then have "node_ok (upd (\<lambda>q. q\<lparr>st := s\<rparr>) ?n)"
    by (simp add: node_ok_def calls_ok_def queue_ok_def node_new_def rpc_new_def qnode_new_def)
  moreover have "backs (e_crc E) {#} (upd (\<lambda>q. q\<lparr>st := s\<rparr>) ?n) n"
    unfolding n by (rule bak_base.step_fold) simp
  ultimately show ?thesis using s that by blast
qed

lemma run_facts:
  fixes E :: "'s env" and xs :: "(membership \<times> event) list"
  assumes "queue_open E (node_new c b sk d sb) = Some (True, n0)"
  defines "n \<equiv> queue_run E xs n0"
  shows "node_ok n" "wrapped n \<or> total n = run_tokens xs"
    "wrapped n \<or> backed {} {#} n" "\<not> null_deref (snd n)" "cfg (snd n) = c"
proof -
  obtain s where ok: "node_ok (upd (\<lambda>q. q\<lparr>st := s\<rparr>) (node_new c b sk d sb) :: 's node)"
      and e: "backs (e_crc E) {#} (upd (\<lambda>q. q\<lparr>st := s\<rparr>) (node_new c b sk d sb)) n0"
    using opened [OF assms(1)] by metis
  let ?m = "upd (\<lambda>q. q\<lparr>st := s\<rparr>) (node_new c b sk d sb) :: 's node"
  have r: "backs (e_crc E) (run_tokens xs) n0 n" unfolding n_def by (rule backs_run)
  from backs_trans [OF e r] have t: "backs (e_crc E) (run_tokens xs) ?m n" by simp
  have m: "total ?m = {#}" "backed {} {#} ?m" "\<not> null_deref (snd ?m)" "cfg (snd ?m) = c"
    by (simp_all add: answered_def in_flight_def backed_def feeds_def node_new_def rpc_new_def qnode_new_def)
  from t ok m show "node_ok n" "wrapped n \<or> total n = run_tokens xs" "wrapped n \<or> backed {} {#} n" "\<not> null_deref (snd n)"
    "cfg (snd n) = c"
    by (simp_all add: backs_def evolves_def same_node_def)
qed



section \<open>The log behind the table\<close>

lemma tracks_commits:
  assumes "swah.tracks crc dir A n (swal s) s" "n + length rs < 2 ^ 64" "list_all wf_rec rs"
  shows "swah.tracks crc dir (A \<union> set rs) (n + length rs) (swal (commits crc rs s)) (commits crc rs s)"
  using assms
proof (induction rs arbitrary: A n s)
  case (Cons r rs)
  obtain ok s' where c: "commit crc r True s = (ok, s')" by fastforce
  have "if ok then swah.tracks crc dir A (Suc n) (swal s') s' \<and> same_table s' (apply_rec r s)
    else swah.tracks crc dir (insert r A) n (swal s') s' \<and> same_table s' s"
    by (rule table_tracks_commit [OF Cons.prems(1) _ _ c]) (use Cons.prems in simp_all)
  then have "swah.tracks crc dir (insert r A) (Suc n) (swal s') s'"
    using swah.tracks_mono [of crc dir A "Suc n" "swal s'" s' "insert r A" "Suc n"]
      swah.tracks_mono [of crc dir "insert r A" n "swal s'" s' "insert r A" "Suc n"] by (auto split: if_splits)
  from Cons.IH [OF this] Cons.prems show ?case using c by (simp add: commits_def)
qed (simp add: commits_def)

lemma apply_keeps: "find i s \<noteq> None \<Longrightarrow> find i (apply_rec r s) \<noteq> None"
  by (metis find_apply_rec job_step_None)


lemma table_sum_zero: "(\<And>y. y \<in> set xs \<Longrightarrow> f (snd y) = 0) \<Longrightarrow> table_sum f xs = 0"
  by (induction xs) simp_all

lemma idle_answered:
  assumes "queue_open E (node_new c b sk d sb) = Some (True, n0)" "\<not> wrapped (queue_run E xs n0)"
    and "calls (fst (queue_run E xs n0)) = []"
  shows "answered (queue_run E xs n0) = run_tokens xs"
proof -
  let ?n = "queue_run E xs n0"
  have ok: "node_ok ?n" and t: "total ?n = run_tokens xs" and b: "backed {} {#} ?n"
    using run_facts [OF assms(1), of xs] assms(2) by simp_all
  have "waits P {#} < 1" for P by simp
  with b assms(3) have p: "map_of (pending_submits (snd ?n)) i = None"
    and q: "map_of (qstates (snd ?n)) k = Some x \<Longrightarrow> q_fired x" for i k x
    by (fastforce simp: backed_def feeds_def conts_def)+
  have "pending_submits (snd ?n) = []"
    using p [of "fst (hd (pending_submits (snd ?n)))"] by (cases "pending_submits (snd ?n)") (auto split: if_splits)
  moreover have "table_sum q_tokens (qstates (snd ?n)) = {#}"
  proof -
    have "dict (qstates (snd ?n))" using ok by (simp add: node_ok_def queue_ok_def)
    then have "q_fired (snd y)" if "y \<in> set (qstates (snd ?n))" for y
      using q [of "fst y" "snd y"] that by (metis map_of_eq_Some_iff prod.collapse)
    then show ?thesis by (intro table_sum_zero) (auto simp: q_tokens_def)
  qed
  ultimately show ?thesis using t assms(3) by (simp add: in_flight_def)
qed


section \<open>A sample node\<close>

definition sample_env :: "unit env" where
  "sample_env = \<lparr>e_crc = \<lambda>b. 7,
     e_ops = \<lparr>s_new = \<lambda>p. (), s_send = \<lambda>t b s. (True, [b], ()), s_poll = \<lambda>t ds s. ([], [], ()),
       s_tick = \<lambda>t s. ([], [], ()), s_buf = 2048\<rparr>,
     e_mem = \<lparr>m_alive = [], m_members = [], m_is_alive = \<lambda>e. False\<rparr>\<rparr>"

definition sample_cfg :: NodeConfig where
  "sample_cfg = \<lparr>self = \<lparr>addr_be = 1, port_be = 1\<rparr>, data_dir = [''d''], default_visibility_ms = 30000,
     default_max_attempts = 5, rpc_timeout = ms 1000, repair_interval = ms 2000\<rparr>"

definition sample_log :: "bytes list" where
  "sample_log = [encode_record (SubmitRec sample_job) 0]"

definition sample_disk :: disk where
  "sample_disk = small_disk (\<lambda>b. 7) sample_log []"

abbreviation sample_node :: "unit node" where
  "sample_node \<equiv> node_new sample_cfg 1 \<lparr>rx = [], tx = [], clock = 0\<rparr> sample_disk 100"

lemma sample_on_disk: "on_disk (\<lambda>b. 7) sample_disk [''d''] sample_log" "encodes sample_log [SubmitRec sample_job]"
  "current_readable sample_disk [''d'']" "script sample_disk = []"
proof -
  have "valid_body (encode_record (SubmitRec sample_job) 0)" by (rule valid_encoded) simp
  then have "list_all valid_body sample_log" unfolding sample_log_def by (simp del: encode_record.simps)
  then show "on_disk (\<lambda>b. 7) sample_disk [''d''] sample_log"
    unfolding sample_disk_def by (rule small_disk_on_disk) (simp add: sample_log_def)
  show "encodes sample_log [SubmitRec sample_job]"
    using encodes_snoc [of "[]" "[]" "SubmitRec sample_job" 0] by (simp add: sample_log_def encodes_def del: encode_record.simps)
  show "current_readable sample_disk [''d'']" "script sample_disk = []"
    by (simp_all add: sample_disk_def current_readable_def small_disk_def)
qed

lemma sample_opened:
  obtains s where "queue_open sample_env sample_node = Some (True, upd (\<lambda>q. q\<lparr>st := s\<rparr>) sample_node)"
    "find JobId0 s = Some sample_job" "store_open (\<lambda>b. 7) [''d''] (empty_store (wal_new 100 sample_disk)) = Some (True, s)"
    "jobs s = [(JobId0, sample_job)]"
proof -
  have "same_table (empty_store v) (empty_store w)" for v w by (simp add: same_table_def empty_store_def)
  from same_table_fold [OF this] sample_on_disk(2)
  have "rebuilds_table sample_log (fold apply_rec [SubmitRec sample_job] (empty_store w))" for w
    unfolding rebuilds_table_def by blast
  from store_open_rebuilt [OF sample_on_disk(1,4) this, of 100] obtain s
    where s: "store_open (\<lambda>b. 7) [''d''] (empty_store (wal_new 100 sample_disk)) = Some (True, s)" by blast
  obtain w where w: "s = (fold apply_rec [SubmitRec sample_job] (empty_store (wal_new 100 sample_disk)))\<lparr>swal := w\<rparr>"
    using table_opened(2) [OF sample_on_disk(1,2,3) s] by blast
  have j: "jobs s = [(JobId0, sample_job)]" using w by (simp add: apply_rec.simps set_job_def empty_store_def Let_def)
  have "fold (open_job sample_env) (jobs s) (upd (\<lambda>q. q\<lparr>st := s\<rparr>) sample_node) = upd (\<lambda>q. q\<lparr>st := s\<rparr>) sample_node"
    by (simp add: j open_job_def owned_by_me_def node_new_def qnode_new_def sample_cfg_def sample_job_def Job0_def Endpoint0_def)
  then have "queue_open sample_env sample_node = Some (True, upd (\<lambda>q. q\<lparr>st := s\<rparr>) sample_node)"
    using s by (simp add: queue_open_def node_new_def qnode_new_def sample_env_def sample_cfg_def)
  moreover have "find JobId0 s = Some sample_job" by (simp add: find_def j)
  ultimately show ?thesis using s j that by blast
qed


section \<open>Properties\<close>

text \<open>
  C5. Every request is accounted for: after any run, as long as neither counter has wrapped around, the
  answers given and the requests still held by a call, a pending submit or a quorum commit are exactly
  the requests made. So no request is answered twice and none is lost. No null pointer is followed.
\<close>

theorem requests_accounted:
  assumes "queue_open E (node_new c b sk d sb) = Some (True, n0)" "\<not> wrapped (queue_run E xs n0)"
  shows "answered (queue_run E xs n0) + in_flight (queue_run E xs n0) = run_tokens xs \<and>
    (\<forall>t. count (answered (queue_run E xs n0)) t \<le> count (run_tokens xs) t) \<and>
    \<not> null_deref (snd (queue_run E xs n0))"
proof -
  let ?n = "queue_run E xs n0"
  have t: "answered ?n + in_flight ?n = run_tokens xs" "\<not> null_deref (snd ?n)"
    using run_facts [OF assms(1), of xs] assms(2) by simp_all
  then have "count (answered ?n) t \<le> count (run_tokens xs) t" for t
    by (metis count_union le_add1)
  with t show ?thesis by blast
qed

theorem requests_accounted_witness:
  "\<exists>n0. let n = queue_run sample_env [(e_mem sample_env, OnLease 9 5)] n0 in
     queue_open sample_env sample_node = Some (True, n0) \<and> \<not> wrapped n \<and> answered n + in_flight n = {#5#}"
proof -
  obtain s where o: "queue_open sample_env sample_node = Some (True, upd (\<lambda>q. q\<lparr>st := s\<rparr>) sample_node)"
    by (rule sample_opened)
  let ?n = "queue_run sample_env [(e_mem sample_env, OnLease 9 5)] (upd (\<lambda>q. q\<lparr>st := s\<rparr>) sample_node)"
  have "\<not> wrapped ?n"
    by (simp add: queue_run_def lease_def node_new_def qnode_new_def rpc_new_def reply_def wrapped_def)
  with requests_accounted [OF o this] o show ?thesis by (auto simp: Let_def run_tokens_def)
qed

text \<open>
  C6. No request waits for nothing: whenever no RPC is in flight, every request made so far has been
  answered, each exactly as often as it was made.
\<close>

theorem idle_node_has_answered:
  assumes "queue_open E (node_new c b sk d sb) = Some (True, n0)" "\<not> wrapped (queue_run E xs n0)"
    and "calls (fst (queue_run E xs n0)) = []"
  shows "answered (queue_run E xs n0) = run_tokens xs"
  using assms by (rule idle_answered)

theorem idle_node_has_answered_witness:
  "\<exists>n0. let n = queue_run sample_env [(e_mem sample_env, OnLease 9 5)] n0 in
     queue_open sample_env sample_node = Some (True, n0) \<and> \<not> wrapped n \<and> calls (fst n) = [] \<and> answered n = {#5#}"
proof -
  obtain s where o: "queue_open sample_env sample_node = Some (True, upd (\<lambda>q. q\<lparr>st := s\<rparr>) sample_node)"
    by (rule sample_opened)
  let ?n = "queue_run sample_env [(e_mem sample_env, OnLease 9 5)] (upd (\<lambda>q. q\<lparr>st := s\<rparr>) sample_node)"
  have "\<not> wrapped ?n" "calls (fst ?n) = []"
    by (simp_all add: queue_run_def lease_def node_new_def qnode_new_def rpc_new_def reply_def wrapped_def)
  with idle_node_has_answered [OF o this] o show ?thesis by (auto simp: Let_def run_tokens_def)
qed

text \<open>
  C8. Jobs persist and epochs only grow along every run, and every job in the table is stored under its
  own identifier with fields within their limits. The exception are identifiers this very process
  would mint again, which only a process with the same boot number can have put there.
\<close>

theorem jobs_persist:
  assumes "queue_open E (node_new c b sk d sb) = Some (True, n0)"
    and "find_job i (queue_run E xs n0) = Some j" "\<not> wrapped (queue_run E (xs @ ys) n0)"
    and "\<not> future (snd (queue_run E xs n0)) i"
  shows "\<exists>j'. find_job i (queue_run E (xs @ ys) n0) = Some j' \<and> epoch j \<le> epoch j' \<and> job_id j' = i \<and> wf_job j'"
proof -
  let ?n = "queue_run E xs n0"
  let ?m = "queue_run E ys ?n"
  have m: "queue_run E (xs @ ys) n0 = ?m" by (simp add: queue_run_def)
  have ok: "node_ok ?n" by (rule run_facts(1) [OF assms(1)])
  have e: "node_ok ?m" "keeps_jobs ?n ?m" using backs_run [of E ys ?n] ok by (auto simp: backs_def evolves_def)
  then obtain j' where "find_job i ?m = Some j'" "epoch j \<le> epoch j'"
    using assms(2-4) m unfolding keeps_jobs_def by metis
  then show ?thesis using e(1) m by (auto simp: node_ok_def queue_ok_def find_job_def)
qed


theorem jobs_persist_witness:
  "\<exists>n0 j'. queue_open sample_env sample_node = Some (True, n0) \<and> find_job JobId0 n0 = Some sample_job \<and>
     find_job JobId0 (queue_run sample_env [(e_mem sample_env, OnLease 9 5)] n0) = Some j' \<and> epoch sample_job \<le> epoch j'"
proof -
  obtain s where o: "queue_open sample_env sample_node = Some (True, upd (\<lambda>q. q\<lparr>st := s\<rparr>) sample_node)"
      and j: "find JobId0 s = Some sample_job"
    by (rule sample_opened)
  let ?m = "upd (\<lambda>q. q\<lparr>st := s\<rparr>) sample_node" and ?xs = "[(e_mem sample_env, OnLease 9 5)]"
  have w: "\<not> wrapped (queue_run sample_env ([] @ ?xs) ?m)"
    by (simp add: queue_run_def lease_def node_new_def qnode_new_def rpc_new_def reply_def wrapped_def)
  have "origin (mint_id (self sample_cfg) 1 sq) \<noteq> 0" for sq
    by (simp add: mint_id_def sample_cfg_def ekey_def)
  then have "\<not> future (snd (queue_run sample_env [] ?m)) JobId0"
    by (auto simp: future_def queue_run_def node_new_def qnode_new_def JobId0_def dest: arg_cong [of _ _ origin])
  from jobs_persist [OF o _ w this, of sample_job] j
  show ?thesis using o by (auto simp: queue_run_def find_job_def)
qed

text \<open>
  C2. Crash consistency of a node: open a node on a log of encoded records, let anything happen to it,
  with any disk faults, stop it anywhere and open the store again. The table that comes back is the
  node's, or the node's after one more record it had handed to its store; no job the node knew is lost.
\<close>

theorem node_crash_consistent:
  assumes d: "on_disk (e_crc E) d (data_dir c) L" "encodes L rs" "current_readable d (data_dir c)"
    and o: "queue_open E (node_new c b sk d sb) = Some (True, n0)"
    and l: "length L + length (history (snd (queue_run E xs n0))) < 2 ^ 64"
  shows "let q = snd (queue_run E xs n0) in
    \<exists>s2. store_open (e_crc E) (data_dir c) (empty_store (wal_new sb ((wdisk (swal (st q)))\<lparr>script := []\<rparr>))) = Some (True, s2) \<and>
      (same_table s2 (st q) \<or> (\<exists>r \<in> set (history q). same_table s2 (apply_rec r (st q)))) \<and>
      (\<forall>i. find i (st q) \<noteq> None \<longrightarrow> find i s2 \<noteq> None)"
proof -
  let ?q = "snd (queue_run E xs n0)"
  obtain s where s: "store_open (e_crc E) (data_dir c) (empty_store (wal_new sb d)) = Some (True, s)"
      and ok: "node_ok (upd (\<lambda>q. q\<lparr>st := s\<rparr>) (node_new c b sk d sb) :: 'a node)"
      and e: "backs (e_crc E) {#} (upd (\<lambda>q. q\<lparr>st := s\<rparr>) (node_new c b sk d sb)) n0"
    by (rule opened [OF o])
  have "logged (e_crc E) ((qnode_new c b d sb)\<lparr>st := s\<rparr>) ?q"
    using backs_trans [OF e backs_run [of E xs n0]] ok by (simp add: backs_def evolves_def node_new_def)
  then have h: "list_all wf_rec (history ?q)" "st ?q = commits (e_crc E) (history ?q) s"
    by (auto simp: logged_def qnode_new_def)
  have "swah.tracks (e_crc E) (data_dir c) (set (history ?q)) (length L + length (history ?q)) (swal (st ?q)) (st ?q)"
    using tracks_commits [OF table_opened(1) [OF d s] l h(1)] h(2) by simp
  then obtain L' t' where L': "left_in (e_crc E) (data_dir c) (swal (st ?q)) L'" "rebuilds_table L' t'"
      and t': "t' = st ?q \<or> (\<exists>r \<in> set (history ?q). t' = apply_rec r (st ?q))"
    using swah.tracks_left by blast
  obtain s2 where s2: "store_open (e_crc E) (data_dir c) (empty_store (wal_new sb ((wdisk (swal (st ?q)))\<lparr>script := []\<rparr>))) = Some (True, s2)"
      "same_table s2 t'"
    using store_open_rebuilt [OF on_disk_script [of _ "wdisk (swal (st ?q))" _ L' "[]"] _ L'(2), of _ _ sb] L'(1)
    by (auto simp: left_in_def)
  have "find i s2 \<noteq> None" if "find i (st ?q) \<noteq> None" for i
    using that t' same_table_find [OF s2(2), of i] apply_keeps [of i "st ?q"] by auto
  then show ?thesis using s2 t' by (auto simp: Let_def)
qed

theorem node_crash_consistent_witness:
  "\<exists>n0 s2. queue_open sample_env sample_node = Some (True, n0) \<and>
     store_open (\<lambda>b. 7) [''d''] (empty_store (wal_new 100
       ((wdisk (swal (st (snd (queue_run sample_env [(e_mem sample_env, OnLease 9 5)] n0)))))\<lparr>script := []\<rparr>))) = Some (True, s2) \<and>
     find JobId0 s2 \<noteq> None"
proof -
  obtain s where o: "queue_open sample_env sample_node = Some (True, upd (\<lambda>q. q\<lparr>st := s\<rparr>) sample_node)"
      and j: "find JobId0 s = Some sample_job"
    by (rule sample_opened)
  let ?m = "upd (\<lambda>q. q\<lparr>st := s\<rparr>) sample_node" and ?xs = "[(e_mem sample_env, OnLease 9 5)]"
  have q: "history (snd (queue_run sample_env ?xs ?m)) = []" "st (snd (queue_run sample_env ?xs ?m)) = s"
    by (simp_all add: queue_run_def lease_def node_new_def qnode_new_def rpc_new_def reply_def)
  have "e_crc sample_env = (\<lambda>b. 7)" "data_dir sample_cfg = [''d'']" by (simp_all add: sample_env_def sample_cfg_def)
  with node_crash_consistent [of sample_env sample_disk sample_cfg sample_log "[SubmitRec sample_job]" 1
      "\<lparr>rx = [], tx = [], clock = 0\<rparr>" 100 ?m ?xs] sample_on_disk o q
  obtain s2 where "store_open (\<lambda>b. 7) [''d''] (empty_store (wal_new 100 ((wdisk (swal s))\<lparr>script := []\<rparr>))) = Some (True, s2)"
      "find JobId0 s \<noteq> None \<longrightarrow> find JobId0 s2 \<noteq> None"
    by (auto simp: Let_def sample_log_def)
  then show ?thesis using o q j by (intro exI [of _ ?m] exI [of _ s2]) simp
qed

end
