(* ===== verification/Queue_Clock.thy ===== *)
theory Queue_Clock
  imports Queue_Runs
begin

text \<open>
  Facts on every step of a node that need no accounting of requests: answers are only ever added, and
  no RPC call outlives its deadline.
\<close>

section \<open>Relations that do not count requests\<close>

text \<open>
  A relation that does not look at the bookkeeping of requests and holds for every commit satisfies the laws for submissions, quorum commits and callbacks, on well-formed nodes.
\<close>

definition guarded ::
  "'s env \<Rightarrow> (token multiset \<Rightarrow> 's node \<Rightarrow> 's node \<Rightarrow> bool) \<Rightarrow> token multiset \<Rightarrow> 's node \<Rightarrow> 's node \<Rightarrow> bool" where
  "guarded E R X n n' \<longleftrightarrow> evolves (e_crc E) X n n' \<and> (node_ok n \<longrightarrow> R X n n')"

lemma guardedD: "guarded E R X n n' \<Longrightarrow> node_ok n \<Longrightarrow> node_ok n'" "guarded E R X n n' \<Longrightarrow> node_ok n \<Longrightarrow> R X n n'"
  unfolding guarded_def by (blast intro: evolves_ok)+

locale loose_steps = node_steps E R
  for E :: "'s env" and R :: "token multiset \<Rightarrow> 's node \<Rightarrow> 's node \<Rightarrow> bool" +
  assumes R_tokens: "R X n n' \<Longrightarrow> R Y n n'"
    and R_books: "cfg q' = cfg q \<Longrightarrow> out q' = out q \<Longrightarrow> st q' = st q \<Longrightarrow> history q' = history q \<Longrightarrow> votes q' = votes q \<Longrightarrow>
      R X (r, q) (r, q')"
    and R_any_commit: "commit_rec E c n = (ok, n') \<Longrightarrow> R X n n'"
    and R_ended: "R X (r, q) (r\<lparr>calls := AList.delete i (calls r)\<rparr>, q)"
begin

lemma loose_upd:
  "(\<And>q. cfg (f q) = cfg q \<and> out (f q) = out q \<and> st (f q) = st q \<and> history (f q) = history q \<and> votes (f q) = votes q) \<Longrightarrow> R X n (upd f n)"
  unfolding upd_def using R_books [of "f (snd n)" "snd n" X "fst n"] by simp

lemma loose_then: "R X n m \<Longrightarrow> R Y m k \<Longrightarrow> R Z n k"
  using R_trans R_tokens by blast

lemma loose_commit: "R X n (snd (commit_rec E r n))"
  by (rule R_any_commit [where ok = "fst (commit_rec E r n)"]) simp

lemma loose_fold: "(\<And>x n. R {#} n (f x n)) \<Longrightarrow> R X n (fold f xs n)"
  using step_fold [of xs f n] R_tokens by blast

lemma loose_submit_result: "R X n (submit_result E i s n)"
  unfolding submit_result_def
  by (auto intro: R_tokens [OF R_refl] loose_then [OF loose_upd step_submit_cb] split: option.split)

lemma loose_call:
  assumes "\<And>code n. R {#} n (f code n)"
  shows "R X n (let (s, n') = rpc_call E to m b k n in case s of None \<Rightarrow> n' | Some code \<Rightarrow> f code n')"
proof -
  obtain s n' where c: "rpc_call E to m b k n = (s, n')" by (meson surj_pair)
  show ?thesis using R_tokens [OF R_call [OF c]] loose_then [OF R_call [OF c] assms] c by (cases s) simp_all
qed

lemma loose_on_replicate_resp: "R X n (on_replicate_resp E i slot code n)"
proof -
  define m where "m = (if code = kCreated \<or> code = kDuplicate then mark_replica_ok i slot n
    else if code = kStaleEpoch then resync_job E i n else n)"
  have m: "R {#} n m" by (simp add: m_def)
  have u: "R {#} n (upd (\<lambda>q. q\<lparr>pending_submits := F q\<rparr>) m)" for F by (rule loose_then [OF m loose_upd]) simp
  have "R X n (submit_result E i s (upd (\<lambda>q. q\<lparr>pending_submits := F q\<rparr>) m))" for F s
    by (rule loose_then [OF u loose_submit_result])
  then show ?thesis
    using R_tokens [OF m] R_tokens [OF u]
    unfolding on_replicate_resp_def Let_def m_def [symmetric] by (simp split: option.split)
qed

lemma loose_on_apply_resp: "R X n (on_apply_resp E i s k code n)"
proof (cases "map_of (qstates (snd n)) k")
  case (Some x)
  have q: "R {#} m (set_q k' y m)" for k' y and m :: "'s node" unfolding set_q_def by (rule loose_upd) simp
  let ?m = "\<lambda>n. if code = kCreated then mark_replica_ok i s n else if code = kStaleEpoch then resync_job E i n else n"
  have "R {#} m (?m m)" for m :: "'s node" by simp
  then have m: "R {#} n (?m (set_q k y n))" for y by (rule loose_then [OF q])
  have d: "R {#} m (run_done E f ok (set_q k y m))" for f ok y and m :: "'s node"
    by (rule loose_then [OF q step_run_done])
  show ?thesis
    using Some loose_then [OF m d, of X] R_tokens [OF m, of X] by (simp add: on_apply_resp_def Let_def)
qed (simp add: on_apply_resp_def R_tokens [OF R_refl])

lemma loose_start_replication: "find_job i n \<noteq> None \<Longrightarrow> R X n (start_replication E i track n)"
proof -
  assume "find_job i n \<noteq> None"
  then obtain j where j: "find_job i n = Some j" by blast
  have s: "R {#} m (send_replicate E i' sl m)" for i' sl and m :: "'s node"
    using loose_call [of "\<lambda>code. on_replicate_resp E i' sl code", OF loose_on_replicate_resp]
    by (simp add: send_replicate_def split: option.split)
  have f: "R {#} m (fold (\<lambda>(s, e). send_replicate E i s) xs m)" for xs :: "(nat \<times> Endpoint) list" and m :: "'s node"
    by (rule loose_fold) (simp add: s split: prod.split)
  have u: "R {#} n (upd (\<lambda>q. q\<lparr>pending_submits := F q\<rparr>) (set_repair i n))" for F
    by (rule loose_then [OF step_set_repair loose_upd]) simp
  show ?thesis
    using j loose_then [OF step_set_repair f] loose_then [OF u f] loose_then [OF u loose_submit_result]
      R_tokens [OF step_set_repair]
    by (simp add: start_replication_def Let_def split: option.split)
qed

lemma loose_quorum_commit:
  assumes "find_job i n \<noteq> None"
  shows "R X n (quorum_commit E i c d n)"
proof -
  obtain ok m where c: "commit_rec E c n = (ok, m)" by (meson surj_pair)
  have m: "R {#} n m" using loose_commit [of "{#}" n c] c by simp
  have j: "find_job i m \<noteq> None" using commit_keeps_job [OF c] assms by blast
  have q: "R {#} l (upd (\<lambda>q. q\<lparr>next_q := F q\<rparr>) (set_q k y l))" for F k y and l :: "'s node"
    unfolding set_q_def by (rule loose_then [OF loose_upd loose_upd]) simp_all
  have a: "R {#} l (apply_send E i k b se l)" for k b se and l :: "'s node"
    unfolding apply_send_def by (rule loose_call) (rule loose_on_apply_resp)
  have f: "R {#} l (fold (apply_send E i k b) ss l)" for k b ss and l :: "'s node" by (rule loose_fold) (rule a)
  note r = loose_then [OF m step_set_repair]
  show ?thesis
    using c j loose_then [OF m step_run_done] loose_then [OF r step_run_done] loose_then [OF loose_then [OF r q] f]
    by (auto simp: quorum_commit_def Let_def)
qed

lemma loose_submit_commit:
  assumes "commit_rec E r (upd (\<lambda>q. q\<lparr>next_job_seq := F q, seq_wrapped := G q\<rparr>) n) = (ok, n')"
  shows "R X n n'"
proof -
  let ?m = "upd (\<lambda>q. q\<lparr>next_job_seq := F q, seq_wrapped := G q\<rparr>) n"
  have "R {#} n ?m" by (rule loose_upd) simp
  from loose_then [OF this loose_commit [of "{#}" ?m r]] assms show ?thesis by simp
qed

lemma guardedI: "evolves (e_crc E) X n n' \<Longrightarrow> R X n n' \<Longrightarrow> guarded E R X n n'"
  by (simp add: guarded_def)

lemma guarded_trans: "guarded E R X n m \<Longrightarrow> guarded E R Y m k \<Longrightarrow> guarded E R (X + Y) n k"
  unfolding guarded_def by (meson evolves_trans evolves_ok R_trans)

lemma guarded_call: "rpc_call E to meth b kt n = (s, n') \<Longrightarrow> guarded E R (if s = None then cont_tokens kt else {#}) n n'"
  by (rule guardedI [OF evolves_call R_call])

sublocale guard: node_steps E "guarded E R"
  by unfold_locales
    (rule guarded_trans guarded_call guardedI [OF evolves_refl R_refl] guardedI [OF evolves_framed R_framed]
      guardedI [OF evolves_reply R_reply] guardedI [OF evolves_quiet R_quiet] guardedI [OF evolves_commit_rec R_any_commit]
      guardedI [OF evolves_vote R_vote]; assumption)+

lemma guarded_I: "(node_ok n \<Longrightarrow> guarded E R X n n') \<Longrightarrow> guarded E R X n n'"
  unfolding guarded_def by (blast intro: evolvesI)

sublocale guard: queue_steps E "guarded E R"
  by unfold_locales
    (rule guarded_I guardedI [OF evolves_submit_commit loose_submit_commit] guardedI [OF evolves_start_replication loose_start_replication]
      guardedI [OF evolves_on_replicate_resp loose_on_replicate_resp] guardedI [OF evolves_on_apply_resp loose_on_apply_resp]
      guardedI [OF evolves_quorum_commit loose_quorum_commit]; assumption)+

lemma guarded_finish:
  assumes "map_of (calls r) i = Some c"
  shows "guarded E R {#} (r, q) (run_cont E (cb c) s b (r\<lparr>calls := AList.delete i (calls r)\<rparr>, q))"
proof (rule guarded_I)
  assume "node_ok (r, q)"
  then have ok: "node_ok (r\<lparr>calls := AList.delete i (calls r)\<rparr>, q)" by (auto simp: node_ok_def calls_ok_def set_delete_fst)
  have "R (cont_tokens (cb c)) (r\<lparr>calls := AList.delete i (calls r)\<rparr>, q) (run_cont E (cb c) s b (r\<lparr>calls := AList.delete i (calls r)\<rparr>, q))"
    using guard.step_run_cont [of "cb c" "(r\<lparr>calls := AList.delete i (calls r)\<rparr>, q)" s b] ok by (simp add: guarded_def)
  from loose_then [OF R_ended this] show "guarded E R {#} (r, q) (run_cont E (cb c) s b (r\<lparr>calls := AList.delete i (calls r)\<rparr>, q))"
    using evolves_finish [OF assms] by (auto intro: guardedI)
qed

sublocale guard: node_client E "guarded E R"
  by unfold_locales (rule guarded_finish)

end

locale loose_events = loose_steps E R
  for E :: "'s env" and R :: "token multiset \<Rightarrow> 's node \<Rightarrow> 's node \<Rightarrow> bool" +
  assumes R_inner: "R X (r, q) (r\<lparr>demux := (demux r)\<lparr>inner := sk\<rparr>\<rparr>, q)"
begin

sublocale guard: node_events E "guarded E R"
  by unfold_locales (rule guardedI [OF evolves_socket R_inner])

end


section \<open>Answers are only added\<close>

definition grows :: "token multiset \<Rightarrow> 's node \<Rightarrow> 's node \<Rightarrow> bool" where
  "grows X n n' \<longleftrightarrow> (\<exists>xs. out (snd n') = out (snd n) @ xs)"

lemma grows_simps [simp]:
  "grows X n n" "out (snd n') = out (snd n) \<Longrightarrow> grows X n n'" "grows X n (reply x n)"
  by (auto simp: grows_def reply_def)

lemma grows_trans: "grows X n m \<Longrightarrow> grows Y m k \<Longrightarrow> grows Z n k"
  by (auto simp: grows_def)

lemma grows_commit: "commit_rec E r n = (ok, n') \<Longrightarrow> grows X n n'"
  by (simp add: commit_find(3))

lemma grows_vote: "grows X n (cast_vote i p a n)"
  by (simp add: cast_vote_def)

lemma grows_call: "rpc_call E to m b k n = (s, n') \<Longrightarrow> grows X n n'"
  by (simp add: rpc_call_snd)

lemma grows_any: "grows X n n' \<Longrightarrow> grows Y n n'"
  by (simp add: grows_def)

interpretation gro: loose_events E grows for E :: "'s env"
  by unfold_locales (simp_all add: framed_def grows_commit grows_call grows_vote, (rule grows_trans grows_any; assumption)+)

lemma event_grows: "node_ok n \<Longrightarrow> \<exists>xs. out (snd (queue_event E e n)) = out (snd n) @ xs"
  using gro.guard.step_event [of E e n] by (simp add: guarded_def grows_def)


section \<open>Deadlines\<close>

text \<open>
  The clock stands still, request numbers only grow, and a call is an old one or one with a new number and
  a full timeout.
\<close>

definition fresh_call :: "'s node \<Rightarrow> u64 \<Rightarrow> cont PendingCall \<Rightarrow> bool" where
  "fresh_call n i c \<longleftrightarrow> next_req (fst n) \<le> i \<and> deadline c = now (fst n) + rpc_timeout (cfg (snd n))"

definition later :: "token multiset \<Rightarrow> 's node \<Rightarrow> 's node \<Rightarrow> bool" where
  "later X n n' \<longleftrightarrow> now (fst n') = now (fst n) \<and> cfg (snd n') = cfg (snd n) \<and> (req_wrapped (fst n) \<longrightarrow> req_wrapped (fst n')) \<and>
     (req_wrapped (fst n') \<or> next_req (fst n) \<le> next_req (fst n') \<and>
       (\<forall>i c. map_of (calls (fst n')) i = Some c \<longrightarrow> map_of (calls (fst n)) i = Some c \<or> fresh_call n i c))"

lemma laterD:
  assumes "later X n m" "\<not> req_wrapped (fst m)"
  shows "\<not> req_wrapped (fst n)" "next_req (fst n) \<le> next_req (fst m)" "now (fst m) = now (fst n)" "cfg (snd m) = cfg (snd n)"
    "map_of (calls (fst m)) i = Some c \<Longrightarrow> map_of (calls (fst n)) i = Some c \<or> fresh_call n i c"
  using assms by (simp_all add: later_def)

lemma fresh_call_later: "later X n m \<Longrightarrow> \<not> req_wrapped (fst m) \<Longrightarrow> fresh_call m i c \<Longrightarrow> fresh_call n i c"
  using laterD(2-4) [of X n m] by (auto simp: fresh_call_def)

lemma later_trans:
  assumes "later X n m" "later Y m k"
  shows "later Z n k"
proof (cases "req_wrapped (fst k)")
  case False
  note k = laterD [OF assms(2) False]
  note m = laterD [OF assms(1) k(1)]
  show ?thesis
    unfolding later_def using k(1-4) m(1-4) k(5) m(5) fresh_call_later [OF assms(1) k(1)] by (simp, blast intro: order_trans)
qed (use assms in \<open>simp add: later_def\<close>)

lemma later_call:
  assumes "rpc_call E to meth b kt n = (s, n')"
  shows "later X n n'"
proof -
  obtain r' where r: "call (e_ops E) to meth b (rpc_timeout (cfg (snd n))) kt (fst n) = (s, r')" "n' = (r', snd n)"
    using assms by (auto simp: rpc_call_def split: prod.splits)
  have "next_req (fst n) \<le> next_req (fst n) + 1" if "next_req (fst n) + 1 \<noteq> 0"
    using word_less_succ [OF that, of "next_req (fst n)"] by simp
  with call_effect [OF r(1)] show ?thesis unfolding later_def fresh_call_def r(2) by (elim conjE disjE) auto
qed

lemma later_quiet: "quiet r r' \<Longrightarrow> later X (r, q) (r', q)"
  by (simp add: later_def quiet_def)

lemma later_same: "fst n' = fst n \<Longrightarrow> cfg (snd n') = cfg (snd n) \<Longrightarrow> later X n n'"
  by (simp add: later_def)

lemma later_ended: "later X (r, q) (r\<lparr>calls := AList.delete i (calls r)\<rparr>, q)"
  by (simp add: later_def now_def)

lemma later_any: "later X n n' \<Longrightarrow> later Y n n'"
  by (simp add: later_def)

lemma later_commit: "commit_rec E r n = (ok, n') \<Longrightarrow> later X n n'"
  by (rule later_same) (simp_all add: commit_find(2,3))

lemma later_vote: "later X n (cast_vote i p a n)"
  by (rule later_same) (simp_all add: cast_vote_def)

lemma later_reply: "later X n (reply x n)" "later X n n"
  by (simp_all add: later_same reply_def)

lemma later_books: "cfg q' = cfg q \<Longrightarrow> out q' = out q \<Longrightarrow> later X (r, q) (r, q')" "framed q q' \<Longrightarrow> later X (r, q) (r, q')"
  by (simp_all add: later_same framed_def)

interpretation lat: loose_steps E later for E :: "'s env"
  by unfold_locales (rule later_reply later_ended later_trans later_any later_call later_commit later_quiet later_books later_vote; assumption)+

lemma later_finish_call:
  assumes ok: "node_ok n" and w: "\<not> req_wrapped (fst (finish_call (queue_app E) i s b n))"
  shows "node_ok (finish_call (queue_app E) i s b n)" "later {#} n (finish_call (queue_app E) i s b n)"
    "map_of (calls (fst (finish_call (queue_app E) i s b n))) i = Some c \<Longrightarrow> fresh_call n i c"
proof -
  let ?m = "finish_call (queue_app E) i s b n"
  have g: "guarded E later {#} n ?m" by (rule lat.guard.layer.finish_call_R)
  show "node_ok ?m" "later {#} n ?m" using guardedD [OF g ok] .
  show "fresh_call n i c" if c: "map_of (calls (fst ?m)) i = Some c"
  proof (cases "map_of (calls (fst n)) i")
    case None
    then show ?thesis using laterD(5) [OF \<open>later {#} n ?m\<close> w c] by simp
  next
    case (Some d)
    let ?r = "(fst n)\<lparr>calls := AList.delete i (calls (fst n))\<rparr>"
    have m: "?m = run_cont E (cb d) s b (?r, snd n)"
      using Some by (cases n) (simp add: finish_call_def queue_app_def)
    have "node_ok (?r, snd n)" using ok by (cases n) (auto simp: node_ok_def calls_ok_def set_delete_fst)
    then have l: "later (cont_tokens (cb d)) (?r, snd n) ?m"
      using lat.guard.step_run_cont [of E "cb d" "(?r, snd n)" s b] m by (simp add: guarded_def)
    from laterD(5) [OF l w c] show ?thesis by (simp add: fresh_call_def now_def)
  qed
qed

lemma later_finish_calls:
  assumes "node_ok n" "\<not> req_wrapped (fst (fold (\<lambda>i. finish_call (queue_app E) i s b) xs n))"
  shows "node_ok (fold (\<lambda>i. finish_call (queue_app E) i s b) xs n) \<and> later {#} n (fold (\<lambda>i. finish_call (queue_app E) i s b) xs n) \<and>
    (\<forall>i \<in> set xs. \<forall>c. map_of (calls (fst (fold (\<lambda>i. finish_call (queue_app E) i s b) xs n))) i = Some c \<longrightarrow> fresh_call n i c)"
  using assms
proof (induction xs arbitrary: n)
  case (Cons x xs)
  let ?m = "finish_call (queue_app E) x s b n"
  let ?k = "fold (\<lambda>i. finish_call (queue_app E) i s b) xs ?m"
  have ok: "node_ok ?m" by (rule guardedD(1) [OF lat.guard.layer.finish_call_R Cons.prems(1)])
  have k: "node_ok ?k" "later {#} ?m ?k" "\<And>i c. i \<in> set xs \<Longrightarrow> map_of (calls (fst ?k)) i = Some c \<Longrightarrow> fresh_call ?m i c"
    using Cons.IH [OF ok] Cons.prems(2) by auto
  have w: "\<not> req_wrapped (fst ?k)" using Cons.prems(2) by simp
  have m: "later {#} n ?m" "\<And>c. map_of (calls (fst ?m)) x = Some c \<Longrightarrow> fresh_call n x c"
    using later_finish_call [OF Cons.prems(1), of E x s b] laterD(1) [OF k(2) w] by auto
  have "fresh_call n i c" if "i \<in> set (x # xs)" "map_of (calls (fst ?k)) i = Some c" for i c
    using that k(3) m(2) laterD(5) [OF k(2) w that(2)] fresh_call_later [OF m(1) laterD(1) [OF k(2) w]] by auto
  then show ?case using k(1) later_trans [OF m(1) k(2)] by simp
qed (simp add: later_reply)


lemma tick_calls:
  assumes ok: "node_ok n" and w: "\<not> req_wrapped (fst (queue_tick E n))" and c: "map_of (calls (fst (queue_tick E n))) i = Some c"
  shows "now (fst n) < deadline c \<or> fresh_call n i c"
proof -
  define n1 where "n1 = fold (tick_peer (e_ops E) (queue_app E) (now (fst n))) (map fst (peers (fst n))) n"
  define xs where "xs = map fst (filter (\<lambda>(i, c). now (fst n) \<ge> deadline c) (calls (fst n1)))"
  define n2 where "n2 = fold (\<lambda>i. finish_call (queue_app E) i kTimeout []) xs n1"
  have g1: "guarded E later {#} n n1" unfolding n1_def by (rule lat.guard.layer.fold_R) (rule lat.guard.layer.tick_peer_R)
  have t: "queue_tick E n = drain_tick E (now (fst n2)) (claim_tick E (now (fst n2)) (repair_tick E (now (fst n2)) (expiry_tick E (now (fst n2)) n2)))"
    by (simp add: queue_tick_def rpc_tick_def Let_def n1_def n2_def xs_def)
  have g3: "guarded E later {#} n2 (queue_tick E n)"
    unfolding t by (rule lat.guard.step_then [OF lat.guard.step_then [OF lat.guard.step_then [OF
      lat.guard.step_expiry_tick lat.guard.step_repair_tick] lat.guard.step_claim_tick] lat.guard.step_drain_tick])
  have ok1: "node_ok n1" and l1: "later {#} n n1" using guardedD [OF g1 ok] by blast+
  have "guarded E later {#} n1 n2" unfolding n2_def by (rule lat.guard.layer.fold_R) (rule lat.guard.layer.finish_call_R)
  then have ok2: "node_ok n2" by (rule guardedD(1) [OF _ ok1])
  have l3: "later {#} n2 (queue_tick E n)" by (rule guardedD(2) [OF g3 ok2])
  have w2: "\<not> req_wrapped (fst n2)" by (rule laterD(1) [OF l3 w])
  have l2: "later {#} n1 n2" and e: "\<And>i c. i \<in> set xs \<Longrightarrow> map_of (calls (fst n2)) i = Some c \<Longrightarrow> fresh_call n1 i c"
    using later_finish_calls [OF ok1, of E kTimeout "[]" xs] w2 unfolding n2_def by blast+
  have w1: "\<not> req_wrapped (fst n1)" by (rule laterD(1) [OF l2 w2])
  have x: "i \<in> set xs" if "map_of (calls (fst n1)) i = Some c" "deadline c \<le> now (fst n)"
    using that by (force simp: xs_def dest: map_of_SomeD)
  from laterD(5) [OF l3 w c] show ?thesis
  proof
    assume c2: "map_of (calls (fst n2)) i = Some c"
    show ?thesis
      using laterD(5) [OF l2 w2 c2] e [OF _ c2] x fresh_call_later [OF l1 w1] by (metis not_le)
  next
    assume "fresh_call n2 i c"
    then show ?thesis using fresh_call_later [OF l1 w1] fresh_call_later [OF l2 w2] by blast
  qed
qed


section \<open>Properties\<close>

text \<open>
  C7. Every call ends: after a tick of the node, whatever happened to it before, each RPC call still in
  flight has its deadline ahead. A call that is not answered is ended by the first tick at or after its
  deadline, and calls made by the callbacks of that very tick get a whole timeout of their own.
\<close>

theorem calls_time_out:
  assumes "queue_open E (node_new c b sk d sb) = Some (True, n0)" "0 < rpc_timeout c"
    and "\<not> wrapped (queue_tick E (queue_run E xs n0))"
  shows "\<forall>i p. map_of (calls (fst (queue_tick E (queue_run E xs n0)))) i = Some p \<longrightarrow> now (fst (queue_run E xs n0)) < deadline p"
proof (intro allI impI)
  fix i p assume p: "map_of (calls (fst (queue_tick E (queue_run E xs n0)))) i = Some p"
  let ?n = "queue_run E xs n0"
  have ok: "node_ok ?n" by (rule run_facts(1) [OF assms(1)])
  have "cfg (snd ?n) = c" by (rule run_facts(5) [OF assms(1)])
  then show "now (fst ?n) < deadline p" using tick_calls [OF ok _ p] assms(2,3) by (auto simp: fresh_call_def wrapped_def)
qed

text \<open>A first call to a peer, and a tick that ends it.\<close>

lemma touch_first: "peers r = [] \<Longrightarrow> touch_peer to r = r\<lparr>peers := [(ekey to, Peer0\<lparr>addr := to\<rparr>)]\<rparr>"
  by (simp add: touch_peer_def upd_peer_def set_peer_def get_peer_def Peer0_def)

lemma first_call:
  assumes "length b \<le> kMaxRpcBody" "peers r = []" "call ops to m b tm k r = (s, r')"
  shows "s = None" "calls r' = AList.update (next_req r) \<lparr>peer_key = ekey to, deadline = now r + tm, cb = k\<rparr> (calls r)"
    "next_req r' = next_req r + 1" "req_wrapped r' = (req_wrapped r \<or> next_req r + 1 = 0)"
    "\<exists>p. peers r' = [(ekey to, p)] \<and> session p = None"
proof -
  let ?r = "r\<lparr>next_req := next_req r + 1, req_wrapped := req_wrapped r \<or> next_req r + 1 = 0, peers := [(ekey to, Peer0\<lparr>addr := to\<rparr>)]\<rparr>"
  let ?u = "upd_peer (ekey to) (\<lambda>p. p\<lparr>pending := pending p @ [encode_rpc Request m (next_req r) 0 b]\<rparr>) ?r"
  have t: "touch_peer to (r\<lparr>next_req := next_req r + 1, req_wrapped := req_wrapped r \<or> next_req r + 1 = 0\<rparr>) = ?r"
    using assms(2) by (simp add: touch_first)
  have n: "\<not> is_established (get_peer (ekey to) ?r)" by (simp add: get_peer_def is_established_def Peer0_def)
  have u: "peers ?u = [(ekey to, Peer0\<lparr>addr := to, pending := pending Peer0 @ [encode_rpc Request m (next_req r) 0 b]\<rparr>)]"
    by (simp add: upd_peer_def set_peer_def get_peer_def Peer0_def)
  have c: "\<exists>v. call ops to m b tm k r = (None, v) \<and> (peers v = peers ?u \<or> peers v = peers (send_hello (ekey to) (now ?r) ?u))"
    using assms(1) n unfolding call_def Let_def t by simp
  then show s: "s = None" using assms(3) by auto
  show "calls r' = AList.update (next_req r) \<lparr>peer_key = ekey to, deadline = now r + tm, cb = k\<rparr> (calls r)"
    "next_req r' = next_req r + 1" "req_wrapped r' = (req_wrapped r \<or> next_req r + 1 = 0)"
    using call_effect [OF assms(3)] s by auto
  have "\<exists>p. peers (send_hello (ekey to) x ?u) = [(ekey to, p)] \<and> session p = None" for x
    using u by (simp add: send_hello_def Let_def upd_peer_def set_peer_def get_peer_def send_all_def Peer0_def)
  then show "\<exists>p. peers r' = [(ekey to, p)] \<and> session p = None" using c u assms(3) by (auto simp: Peer0_def)
qed

lemma idle_tick_simps:
  "lease_deadline (snd n) = [] \<Longrightarrow> expiry_tick E t n = n" "\<not> draining (snd n) \<Longrightarrow> drain_tick E t n = n"
  "repair (snd n) = [] \<Longrightarrow> wrapped (repair_tick E t n) = wrapped n \<and> claims (snd (repair_tick E t n)) = claims (snd n) \<and>
    draining (snd (repair_tick E t n)) = draining (snd n)"
  "claims (snd n) = [] \<Longrightarrow> wrapped (claim_tick E t n) = wrapped n \<and> draining (snd (claim_tick E t n)) = draining (snd n)"
  by (simp_all add: expiry_tick_def drain_tick_def repair_tick_def claim_tick_def Let_def wrapped_def)

lemma idle_ticks:
  "lease_deadline (snd n) = [] \<Longrightarrow> repair (snd n) = [] \<Longrightarrow> claims (snd n) = [] \<Longrightarrow> \<not> draining (snd n) \<Longrightarrow>
    wrapped (drain_tick E t (claim_tick E t (repair_tick E t (expiry_tick E t n)))) = wrapped n"
  by (simp add: idle_tick_simps)

theorem calls_time_out_witness:
  "\<exists>n0 p. let n = queue_run sample_env [(e_mem sample_env, OnStatus JobId0 5), (e_mem sample_env, OnSocket \<lparr>rx = [], tx = [], clock = ms 2000\<rparr>)] n0 in
     queue_open sample_env sample_node = Some (True, n0) \<and> map_of (calls (fst n)) 1 = Some p \<and> deadline p \<le> now (fst n) \<and>
     map_of (calls (fst (queue_tick sample_env n))) 1 \<noteq> Some p"
proof -
  obtain s where o: "queue_open sample_env sample_node = Some (True, upd (\<lambda>q. q\<lparr>st := s\<rparr>) sample_node)"
    by (rule sample_opened)
  let ?xs = "[(e_mem sample_env, OnStatus JobId0 5), (e_mem sample_env, OnSocket \<lparr>rx = [], tx = [], clock = ms 2000\<rparr>)]"
  let ?st = "upd (\<lambda>q. q\<lparr>st := s\<rparr>) sample_node" and ?e = "\<lparr>addr_be = 0, port_be = 0\<rparr> :: Endpoint"
  let ?n = "queue_run sample_env ?xs ?st" and ?k = "StatusCont JobId0 [?e] 0 None 5"
  obtain u r where c: "call (e_ops sample_env) ?e FwdStatus (put_job_id [] JobId0) (rpc_timeout sample_cfg) ?k (fst ?st) = (u, r)" by fastforce
  have b: "length (put_job_id [] JobId0) \<le> kMaxRpcBody" by (simp add: kMaxRpcBody_def put_job_id_def put_append)
  have f: "peers (fst ?st) = []" "next_req (fst ?st) = 1" "calls (fst ?st) = []" "\<not> req_wrapped (fst ?st)" "now (fst ?st) = 0"
    by (simp_all add: node_new_def rpc_new_def now_def)
  note r = first_call [OF b f(1) c, unfolded f]
  obtain p where p: "peers r = [(ekey ?e, p)]" "session p = None" using r(5) by blast
  let ?r = "r\<lparr>demux := (demux r)\<lparr>inner := \<lparr>rx = [], tx = [], clock = ms 2000\<rparr>\<rparr>\<rparr>"
  have n: "?n = (?r, snd ?st)"
    using c r(1) by (simp add: queue_run_def status_def JobId0_def push_new_def query_status_target.simps rpc_call_def
      node_new_def qnode_new_def sample_env_def sample_cfg_def upd_def)
  let ?d = "\<lparr>peer_key = ekey ?e, deadline = rpc_timeout sample_cfg, cb = ?k\<rparr>"
  have d: "calls ?r = [(1, ?d)]" using r(2) by simp
  obtain r2 where r2: "tick_peer (e_ops sample_env) (queue_app sample_env) (ms 2000) (ekey ?e) (?r, snd ?st) = (r2, snd ?st)" "quiet ?r r2"
    using p by (auto simp: tick_peer_def Let_def)
  have m: "rpc_tick (e_ops sample_env) (queue_app sample_env) ?n =
      reply (StatusReply 5 kUnknownJob None) (r2\<lparr>calls := []\<rparr>, snd ?st)"
    using r2 p d n by (simp add: rpc_tick_def now_def quiet_def finish_call_def queue_app_def run_cont_def on_status_resp_def
        query_status_target.simps status_merge_def kTimeout_def kCreated_def sample_cfg_def ms_def)
  have "\<not> wrapped (reply (StatusReply 5 kUnknownJob None) (r2\<lparr>calls := []\<rparr>, snd ?st))"
    using r2(2) r(4) by (simp add: wrapped_def quiet_def reply_def node_new_def qnode_new_def rpc_new_def)
  then have "\<not> wrapped (queue_tick sample_env ?n)"
    unfolding queue_tick_def Let_def m by (subst idle_ticks) (simp_all add: reply_def node_new_def qnode_new_def)
  from calls_time_out [OF o _ this] have "map_of (calls (fst (queue_tick sample_env ?n))) 1 \<noteq> Some ?d"
    using n by (fastforce simp: now_def sample_cfg_def ms_def)
  then show ?thesis using o n r(2) by (auto simp: Let_def now_def sample_cfg_def ms_def intro!: exI [of _ ?st] exI [of _ ?d])
qed

end
