(* ===== verification/Queue_Votes.thy ===== *)
theory Queue_Votes
  imports Queue_Clock
begin

text \<open>
  The votes of a node: what it has granted or claimed for itself stays bound to the owner it holds, along
  every run of the node.
\<close>

section \<open>Votes and the table\<close>

text \<open>
  The records that can move a job to another owner within an epoch: a full copy of that epoch with that
  owner, or a submission under the identifier of the job.
\<close>

definition recopies :: "JobId \<Rightarrow> u32 \<Rightarrow> Endpoint \<Rightarrow> Record \<Rightarrow> bool" where
  "recopies i p b r = (case r of SubmitRec j \<Rightarrow> job_id j = i
     | ReplicateRec j \<Rightarrow> job_id j = i \<and> epoch j = p \<and> owner j = b | _ \<Rightarrow> False)"

definition recopied :: "JobId \<Rightarrow> u32 \<Rightarrow> Endpoint \<Rightarrow> Record list \<Rightarrow> bool" where
  "recopied i p b rs = list_ex (recopies i p b) rs"

definition resubmitted :: "JobId \<Rightarrow> Record list \<Rightarrow> bool" where
  "resubmitted i rs \<longleftrightarrow> (\<exists>j. SubmitRec j \<in> set rs \<and> job_id j = i)"

lemma resubmitted_recopied: "resubmitted i rs \<Longrightarrow> recopied i p b rs"
  by (auto simp: resubmitted_def recopied_def recopies_def list_ex_iff split: Record.split)

lemma recopied_append [simp]: "recopied i p b (rs @ rs') \<longleftrightarrow> recopied i p b rs \<or> recopied i p b rs'"
  "resubmitted i (rs @ rs') \<longleftrightarrow> resubmitted i rs \<or> resubmitted i rs'"
  by (auto simp: recopied_def resubmitted_def)

text \<open>
  A vote binds the table: the job has gone to a later epoch, or its owner in that epoch is the one voted
  for unless a full copy named another since. Of two votes of one epoch the later is for the same node
  unless a full copy came in between.
\<close>

definition held :: "qnode \<Rightarrow> JobId \<times> u32 \<times> Endpoint \<times> nat \<Rightarrow> bool" where
  "held q = (\<lambda>(i, p, a, k). k \<le> length (history q) \<and> (p = 0 \<or> resubmitted i (drop k (history q)) \<or>
     (\<exists>j. find i (st q) = Some j \<and>
       (p < epoch j \<or> p = epoch j \<and> (owner j = a \<or> recopied i p (owner j) (drop k (history q)))))))"

definition consistent :: "Record list \<Rightarrow> JobId \<times> u32 \<times> Endpoint \<times> nat \<Rightarrow> JobId \<times> u32 \<times> Endpoint \<times> nat \<Rightarrow> bool" where
  "consistent h = (\<lambda>(i, p, a, k) (i', p', b, k'). k \<le> k' \<and>
     (i = i' \<and> p = p' \<and> p \<noteq> 0 \<and> a \<noteq> b \<longrightarrow> recopied i p b (drop k (take k' h))))"

definition votes_ok :: "qnode \<Rightarrow> bool" where
  "votes_ok q \<longleftrightarrow> (\<forall>v \<in> set (votes q). held q v) \<and> sorted_wrt (consistent (history q)) (votes q)"

lemma votes_ok_cong:
  "st q' = st q \<Longrightarrow> history q' = history q \<Longrightarrow> votes q' = votes q \<Longrightarrow> votes_ok q' = votes_ok q"
  by (simp add: votes_ok_def held_def)

text \<open>What a record does to the owner of a job.\<close>

lemma job_step_owner:
  "job_step r (Some j) = Some j' \<Longrightarrow> (\<exists>x. r = SubmitRec x) \<or> epoch j < epoch j' \<or>
     epoch j' = epoch j \<and> (owner j' = owner j \<or> r = ReplicateRec j')"
  by (cases r) (auto simp: job_advances_def le_less split: if_splits)

lemma held_commit:
  assumes "commit_rec E r n = (ok, n')" "held (snd n) v"
  shows "held (snd n') v"
proof -
  obtain i p a k where v: "v = (i, p, a, k)" by (cases v)
  let ?h = "history (snd n)"
  have h: "history (snd n') = ?h @ [r]" by (simp add: commit_find(3) [OF assms(1)])
  have k: "k \<le> length ?h" using assms(2) by (simp add: held_def v)
  have f: "find i (st (snd n')) = (if ok then find i (apply_rec r (st (snd n))) else find i (st (snd n)))"
    using commit_find(1) [OF assms(1), of i] by (simp add: find_job_def)
  show ?thesis
  proof (cases "p = 0 \<or> resubmitted i (drop k ?h)")
    case True
    then show ?thesis using k by (auto simp: held_def v h)
  next
    case False
    then obtain j where j: "find i (st (snd n)) = Some j"
      "p < epoch j \<or> p = epoch j \<and> (owner j = a \<or> recopied i p (owner j) (drop k ?h))"
      using assms(2) by (auto simp: held_def v)
    show ?thesis
    proof (cases "ok \<and> rec_job r = i")
      case True
      then obtain j' where j': "find i (st (snd n')) = Some j'" "job_step r (Some j) = Some j'"
        using f j(1) job_step_None [of r "Some j"] by (fastforce simp: find_apply_rec)
      have s: "resubmitted i [r]" if "r = SubmitRec x" for x using True that by (simp add: resubmitted_def)
      have c: "recopied i p (owner j') [r]" if "r = ReplicateRec j'" "epoch j' = p"
        using True that by (simp add: recopied_def recopies_def)
      from job_step_owner [OF j'(2)] show ?thesis
        using j(2) j'(1) k s c by (auto simp: held_def v h intro: less_trans)
    next
      case False
      then have "find i (st (snd n')) = Some j" using f j(1) by (auto simp: find_apply_rec)
      then show ?thesis using j(2) k by (auto simp: held_def v h)
    qed
  qed
qed

lemma consistent_append:
  assumes "snd (snd (snd w)) \<le> length h" "consistent h v w"
  shows "consistent (h @ h') v w"
  using assms by (auto simp: consistent_def split: prod.splits)

lemma commit_votes_ok:
  assumes "commit_rec E r n = (ok, n')" "votes_ok (snd n)"
  shows "votes_ok (snd n')"
proof -
  have "history (snd n') = history (snd n) @ [r]" "votes (snd n') = votes (snd n)"
    by (simp_all add: commit_find(3) [OF assms(1)])
  moreover have "snd (snd (snd w)) \<le> length (history (snd n))" if "w \<in> set (votes (snd n))" for w
    using assms(2) that by (cases w) (auto simp: votes_ok_def held_def)
  moreover have "sorted_wrt (consistent (history (snd n))) (votes (snd n))" using assms(2) by (simp add: votes_ok_def)
  ultimately show ?thesis
    using assms held_commit [OF assms(1)] consistent_append
    by (auto simp: votes_ok_def intro: sorted_wrt_mono_rel [rotated])
qed

lemma vote_votes_ok:
  assumes "may_vote i p a n" "votes_ok (snd n)"
  shows "votes_ok (snd (cast_vote i p a n))"
proof -
  let ?h = "history (snd n)" and ?w = "(i, p, a, length (history (snd n)))"
  have "consistent ?h v ?w" if v: "v \<in> set (votes (snd n))" for v
  proof -
    obtain i' p' b k where e: "v = (i', p', b, k)" by (cases v)
    have h: "held (snd n) v" using v assms(2) by (simp add: votes_ok_def)
    have "recopied i p a (drop k ?h)" if "i' = i" "p' = p" "p \<noteq> 0" "b \<noteq> a"
    proof -
      from that(3) assms(1) obtain j where "find i (st (snd n)) = Some j" "epoch j = p" "owner j = a"
        by (auto simp: may_vote_def find_job_def)
      then show ?thesis
        using h that resubmitted_recopied [of i "drop k ?h" p a] by (auto simp: e held_def)
    qed
    moreover have "k \<le> length ?h" using h by (simp add: e held_def)
    ultimately show ?thesis by (auto simp: e consistent_def)
  qed
  moreover have "held (snd n) ?w" using assms(1) by (auto simp: held_def may_vote_def find_job_def)
  ultimately show ?thesis
    using assms(2) by (auto simp: votes_ok_def cast_vote_def sorted_wrt_append held_def)
qed


section \<open>Along every run\<close>

definition binds :: "token multiset \<Rightarrow> 's node \<Rightarrow> 's node \<Rightarrow> bool" where
  "binds X n n' \<longleftrightarrow> (votes_ok (snd n) \<longrightarrow> votes_ok (snd n'))"

lemma binds_same:
  "st (snd n') = st (snd n) \<Longrightarrow> history (snd n') = history (snd n) \<Longrightarrow> votes (snd n') = votes (snd n) \<Longrightarrow> binds X n n'"
  using votes_ok_cong [of "snd n'" "snd n"] by (simp add: binds_def)

lemma binds_trans: "binds X n m \<Longrightarrow> binds Y m k \<Longrightarrow> binds Z n k"
  by (simp add: binds_def)

lemma binds_any: "binds X n m \<Longrightarrow> binds Y n m"
  by (simp add: binds_def)

lemma binds_reply: "binds X n (reply x n)" "binds X n n"
  by (rule binds_same; simp add: reply_def)+

lemma binds_commit: "commit_rec E r n = (ok, n') \<Longrightarrow> binds X n n'"
  unfolding binds_def using commit_votes_ok by blast

lemma binds_vote: "may_vote i p a n \<Longrightarrow> binds X n (cast_vote i p a n)"
  unfolding binds_def using vote_votes_ok by blast

lemma binds_call: "rpc_call E to m b k n = (s, n') \<Longrightarrow> binds X n n'"
  by (rule binds_same) (simp_all add: rpc_call_snd)

lemma binds_books:
  "st q' = st q \<Longrightarrow> history q' = history q \<Longrightarrow> votes q' = votes q \<Longrightarrow> binds X (r, q) (r', q')"
  "framed q q' \<Longrightarrow> binds X (r, q) (r', q')"
  by (rule binds_same; simp add: framed_def)+

interpretation bin: loose_events E binds for E :: "'s env"
  by unfold_locales (rule binds_reply binds_trans binds_any binds_commit binds_vote binds_call binds_books; (assumption | simp))+

text \<open>A node at the end of some run from its opening.\<close>

definition lived :: "'s node \<Rightarrow> bool" where
  "lived n \<longleftrightarrow> (\<exists>E c b sk d sb n0 xs. queue_open E (node_new c b sk d sb) = Some (True, n0) \<and> n = queue_run E xs n0)"

lemma run_votes_ok: "node_ok n \<Longrightarrow> votes_ok (snd n) \<Longrightarrow> votes_ok (snd (queue_run E xs n))"
proof (induction xs arbitrary: n)
  case (Cons x xs)
  obtain m e where x: "x = (m, e)" by fastforce
  have "guarded (E\<lparr>e_mem := m\<rparr>) binds (event_tokens e) n (queue_event (E\<lparr>e_mem := m\<rparr>) e n)"
    by (rule bin.guard.step_event)
  from guardedD [OF this Cons.prems(1)] Cons.prems(2) Cons.IH show ?case
    by (simp add: binds_def queue_run_def x)
qed (simp add: queue_run_def)

lemma lived_votes_ok:
  assumes "lived (n :: 's node)"
  shows "votes_ok (snd n)"
proof -
  from assms obtain E c b sk d sb n0 xs where o: "queue_open E (node_new c b sk d sb) = Some (True, n0 :: 's node)"
    and n: "n = queue_run E xs n0" by (auto simp: lived_def)
  obtain s where s: "store_open (e_crc E) (data_dir c) (empty_store (wal_new sb d)) = Some (True, s)"
    and ok: "node_ok (upd (\<lambda>q. q\<lparr>st := s\<rparr>) (node_new c b sk d sb) :: 's node)"
    by (rule opened [OF o])
  then have n0: "n0 = fold (open_job E) (jobs s) (upd (\<lambda>q. q\<lparr>st := s\<rparr>) (node_new c b sk d sb))"
    using o by (auto simp: queue_open_def node_new_def qnode_new_def Let_def elim!: bind_SomeE split: if_splits)
  have "guarded E binds {#} (upd (\<lambda>q. q\<lparr>st := s\<rparr>) (node_new c b sk d sb)) n0"
    unfolding n0 by (rule bin.guard.step_fold) (rule bin.guard.step_open_job)
  from guardedD(2) [OF this ok] have "votes_ok (snd n0)"
    by (simp add: binds_def votes_ok_def node_new_def qnode_new_def)
  moreover have "node_ok n0" using run_facts(1) [OF o, of "[]"] by (simp add: queue_run_def)
  ultimately show ?thesis unfolding n by (intro run_votes_ok)
qed

lemma sorted_wrt_two:
  "sorted_wrt P xs \<Longrightarrow> x \<in> set xs \<Longrightarrow> y \<in> set xs \<Longrightarrow> x \<noteq> y \<Longrightarrow> P x y \<or> P y x"
  by (induction xs) auto

lemma two_votes:
  assumes "lived n" "(i, p, a, k) \<in> set (votes (snd n))" "(i, p, b, l) \<in> set (votes (snd n))" "p \<noteq> 0" "a \<noteq> b"
  shows "k \<le> l \<and> recopied i p b (drop k (take l (history (snd n)))) \<or>
    l \<le> k \<and> recopied i p a (drop l (take k (history (snd n))))"
proof -
  have "sorted_wrt (consistent (history (snd n))) (votes (snd n))"
    using lived_votes_ok [OF assms(1)] by (simp add: votes_ok_def)
  from sorted_wrt_two [OF this assms(2,3)] assms(4,5) show ?thesis by (auto simp: consistent_def)
qed

text \<open>A claimant wins an epoch with the votes of a majority of the members of a replica set.\<close>

definition votes_for :: "'s node \<Rightarrow> JobId \<Rightarrow> u32 \<Rightarrow> Endpoint \<Rightarrow> bool" where
  "votes_for n i p a = list_ex (\<lambda>(i', p', a', k). i' = i \<and> p' = p \<and> a' = a) (votes (snd n))"

definition wins :: "Endpoint list \<Rightarrow> (Endpoint \<Rightarrow> 's node) \<Rightarrow> JobId \<Rightarrow> u32 \<Rightarrow> Endpoint \<Rightarrow> bool" where
  "wins rs member i p a \<longleftrightarrow> length rs div 2 + 1 \<le> length (filter (\<lambda>v. votes_for (member v) i p a) rs)"

lemma votes_for_iff: "votes_for n i p a \<longleftrightarrow> (\<exists>k. (i, p, a, k) \<in> set (votes (snd n)))"
  by (auto simp: votes_for_def list_ex_iff)

lemma majorities_meet:
  assumes "length xs div 2 + 1 \<le> length (filter P xs)" "length xs div 2 + 1 \<le> length (filter Q xs)"
  shows "\<exists>x \<in> set xs. P x \<and> Q x"
proof (rule ccontr)
  assume "\<not> ?thesis"
  then have "length (filter P xs) + length (filter Q xs) \<le> length xs"
    by (induction xs) auto
  then show False using assms by simp
qed

end
