(* ===== verification/Queue_Claims.thy ===== *)
theory Queue_Claims
  imports Queue_Votes
begin

text \<open>
  Ownership of a job: who may write to a replica, who wins a takeover, and where the rules have gaps.
\<close>

section \<open>Fencing\<close>

lemma find_respond_to [simp]: "find_job i (respond_to E ctx s b n) = find_job i n"
  by (simp add: find_job_def)

lemma find_handle_apply: "find_job i (handle_apply E ctx msg n) = find_job i (snd (apply_reply E (ctx_from ctx) msg n))"
  by (simp add: handle_apply_def case_prod_beta Let_def)

lemma apply_reply_cases:
  assumes "find_job i n = Some j"
  shows "find_job i (snd (apply_reply E from msg n)) = Some j \<or>
    (\<exists>r lsn ep. decode_record msg = Some (Some (r, lsn)) \<and> rec_meta r = Some (i, ep) \<and> epoch j \<le> ep \<and>
      (from = owner j \<or> is_takeover r) \<and> fst (apply_reply E from msg n) = kCreated \<and>
      find_job i (snd (apply_reply E from msg n)) = job_step r (Some j))"
proof (cases "\<exists>r lsn l ep l'. decode_record msg = Some (Some (r, lsn)) \<and> rec_meta r = Some (l, ep) \<and> find_job l n = Some l' \<and>
    epoch l' \<le> ep \<and> (from = owner l' \<or> is_takeover r)")
  case True
  then obtain r lsn l ep l' where d: "decode_record msg = Some (Some (r, lsn))" "rec_meta r = Some (l, ep)" "find_job l n = Some l'"
    "epoch l' \<le> ep" "from = owner l' \<or> is_takeover r" by blast
  have l: "rec_job r = l" using d(2) by (cases r) (simp_all add: rec_meta_def)
  obtain ok m where c: "commit_rec E r n = (ok, m)" by (meson surj_pair)
  have "apply_reply E from msg n = (if ok then kCreated else kNoQuorum, m)"
    using d c by (auto simp: apply_reply_def)
  then show ?thesis
    using commit_find(1) [OF c, of i] assms d l by (auto simp: find_apply_rec find_job_def)
next
  case False
  then have "find_job i (snd (apply_reply E from msg n)) = find_job i n"
    by (auto simp: apply_reply_def not_le split: option.split)
  then show ?thesis using assms by simp
qed

lemma apply_reply_stale:
  assumes "decode_record msg = Some (Some (r, lsn))" "rec_meta r = Some (i, ep)" "find_job i n = Some j" "ep < epoch j"
  shows "apply_reply E from msg n = (kStaleEpoch, bump (\<lambda>k. k\<lparr>fenced_stale := fenced_stale k + 1\<rparr>) n)"
  using assms by (simp add: apply_reply_def)


section \<open>Votes\<close>

text \<open>What a claim asks for: the job, the epoch and the claimant.\<close>

definition claim_of :: "bytes \<Rightarrow> (JobId \<times> u32 \<times> Endpoint) option" where
  "claim_of msg =
    (case (get_job_id msg 0, get_u32 msg kJobIdSize, get_endpoint msg (kJobIdSize + 4)) of
       (Some i, Some p, Some e) \<Rightarrow> Some (i, p, e) | _ \<Rightarrow> None)"

lemma votes_after_ownership_change [simp]: "votes (snd (after_ownership_change i n)) = votes (snd n)"
  "history (snd (after_ownership_change i n)) = history (snd n)"
  by (simp_all add: after_ownership_change_def split: option.split)

lemma votes_commit: "commit_rec E r n = (ok, m) \<Longrightarrow> votes (snd m) = votes (snd n)"
  by (simp add: commit_find(3))

text \<open>A claim is answered with success exactly when the vote is recorded.\<close>

lemma claim_reply_votes:
  assumes "claim_reply E from msg n = (code, resp, n')"
  shows "if code = kCreated
    then \<exists>i p. claim_of msg = Some (i, p, from) \<and> votes (snd n') = votes (snd n) @ [(i, p, from, length (history (snd n')))]
    else votes (snd n') = votes (snd n)"
proof -
  have k: "kCreated \<noteq> kInvalid" "kCreated \<noteq> kUnknownJob" "kCreated \<noteq> kNotOwner" "kCreated \<noteq> kStaleEpoch" "kCreated \<noteq> kNoQuorum"
    by (simp_all add: kCreated_def kInvalid_def kUnknownJob_def kNotOwner_def kStaleEpoch_def kNoQuorum_def)
  show ?thesis
    using assms k
    by (auto simp: claim_reply_def claim_of_def Let_def cast_vote_def dest!: votes_commit split: if_splits option.splits prod.splits)
qed


section \<open>Full copies, resynchronisation and stale grants\<close>

lemma find_handle_replicate:
  assumes "get_job msg 0 = Some (Some (sz, r))" "find_job (job_id r) n = Some j" "epoch j \<le> epoch r"
    "commit_rec E (ReplicateRec r) n = (True, m)"
  shows "find_job (job_id r) (handle_replicate E ctx msg n) = Some (if job_advances j r then r else j)"
  using assms commit_find(1) [OF assms(4), of "job_id r"]
  by (simp add: handle_replicate_def not_less find_apply_rec find_job_def)

lemma resync_one:
  assumes "find_job i n = Some j" "map_of (resync_inflight (snd n)) i = None"
    and "filter (m_is_alive (e_mem E)) (map snd (slots_of (snd n) j)) = [m]"
    and c: "rpc_call E m Resync (put_job_id [] i) (ResyncCont i) n = (Some code, n1)" and "code \<noteq> kCreated"
  shows "resync_job E i n = upd (\<lambda>q. q\<lparr>resync_inflight := AList.update i 1 (resync_inflight q)\<rparr>) n1"
  using assms rpc_call_snd [OF c] by (simp add: resync_job_def resync_send_def on_resync_resp_def)

lemma call_failed:
  assumes "rpc_call E to m b k n = (Some code, n')"
  shows "calls (fst n') = calls (fst n)" "code = kTooLarge \<or> code = kBusy"
proof -
  obtain r' where "call (e_ops E) to m b (rpc_timeout (cfg (snd n))) k (fst n) = (Some code, r')" "n' = (r', snd n)"
    using assms by (auto simp: rpc_call_def split: prod.splits)
  then show "calls (fst n') = calls (fst n)" "code = kTooLarge \<or> code = kBusy"
    using call_effect [of "e_ops E" to m b "rpc_timeout (cfg (snd n))" k "fst n" "Some code" r'] by auto
qed

lemma call_refused:
  assumes "length b \<le> kMaxRpcBody" "is_established (get_peer (ekey to) r)" "\<And>t f s. \<not> fst (s_send ops t f s)"
  shows "\<exists>r'. call ops to m b tm k r = (Some kBusy, r')"
proof -
  have "is_established (get_peer (ekey to) (touch_peer to (r\<lparr>next_req := i, req_wrapped := w\<rparr>)))" for i w
    using assms(2) by (auto simp: touch_peer_def upd_peer_def set_peer_def get_peer_def is_established_def)
  moreover have "\<not> fst (session_send ops (ekey to) f r')" for f r'
    using assms(3) by (auto simp: session_send_def Let_def case_prod_beta split: option.split)
  ultimately show ?thesis using assms(1) by (simp add: call_def Let_def case_prod_beta)
qed

lemma set_deadline_simps [simp]:
  "claims (snd (set_deadline i t n)) = claims (snd n)" "counters (snd (set_deadline i t n)) = counters (snd n)"
  by (simp_all add: set_deadline_def)

lemma commit_claims [simp]:
  "claims (snd (snd (commit_rec E r n))) = claims (snd n)" "counters (snd (snd (commit_rec E r n))) = counters (snd n)"
  by (auto simp: commit_rec_def split: prod.split)

lemma finalize_counts:
  assumes "map_of (claims (snd n)) i = Some c" "find_job i n = Some j" "owner j = self (cfg (snd n))"
  shows "claims (snd (finalize_takeover E i n)) = AList.delete i (claims (snd n))"
    "takeovers (counters (snd (finalize_takeover E i n))) = takeovers (counters (snd n)) + 1"
  using assms
  by (auto simp: finalize_takeover_def Let_def owned_by_me_def set_repair_def bump_def split: prod.split option.split)

lemma claim_granted_acks:
  "acked_mask c AND b = 0 \<Longrightarrow> acks (claim_granted b resp c) = acks c + 1" "needed (claim_granted b resp c) = needed c"
  by (auto simp: claim_granted_def Let_def split: option.split)

text \<open>A call that \<open>claim_send\<close> leaves in flight carries the job and the peer, and nothing else.\<close>

lemma claim_call:
  assumes "map_of (claims (snd n)) i = Some c" "map_of (calls (fst n)) k = None" "map_of (calls (fst (claim_send E i to n))) k = Some pc"
  shows "cb pc = ClaimCont i to"
proof -
  let ?b = "put_endpoint (put_u32 (put_job_id [] i) (proposed c)) (self (cfg (snd n)))"
  obtain s n' where r: "rpc_call E to Claim ?b (ClaimCont i to) n = (s, n')" by (meson surj_pair)
  obtain r' where c: "call (e_ops E) to Claim ?b (rpc_timeout (cfg (snd n))) (ClaimCont i to) (fst n) = (s, r')" "n' = (r', snd n)"
    using r by (auto simp: rpc_call_def split: prod.splits)
  show ?thesis
  proof (cases s)
    case None
    then show ?thesis
      using assms r c(2) call_effect [OF c(1)] by (auto simp: claim_send_def update_conv' split: if_splits)
  next
    case (Some code)
    then have "on_claim_resp E i to code [] n' = n'"
      using call_failed(2) [of E to Claim ?b "ClaimCont i to" n code n'] r rpc_call_snd [OF r] assms(1)
      by (auto simp: on_claim_resp_def kCreated_def kStaleEpoch_def kUnknownJob_def kTooLarge_def kBusy_def)
    then show ?thesis
      using assms r Some call_failed(1) [of E to Claim ?b "ClaimCont i to" n code n'] by (simp add: claim_send_def)
  qed
qed


section \<open>Sample nodes\<close>

definition sample_holding :: "Job \<Rightarrow> unit node" where
  "sample_holding j = upd (\<lambda>q. q\<lparr>st := (sample_store j)\<lparr>swal := small_wal (\<lambda>b. 7) [] []\<rparr>\<rparr>) sample_node"

lemma sample_holding_find: "job_id j = JobId0 \<Longrightarrow> find_job JobId0 (sample_holding j) = Some j"
  using find_sample_store [of j] by (simp add: sample_holding_def find_job_def)

lemma small_append: "valid_body b \<Longrightarrow> fst (wal_append (\<lambda>b. 7) b True (small_wal (\<lambda>b. 7) [] []))"
  using append_no_fault [OF small_wal_live [of "[]" "\<lambda>b. 7" "[]"], of b True] by (auto simp: small_wal_def small_disk_def)

lemma sample_commit: "wf_rec r \<Longrightarrow> fst (commit_rec sample_env r (sample_holding j))"
  using small_append [OF valid_encoded, of r 0]
  by (simp add: commit_rec_def commit_def sample_holding_def sample_env_def small_wal_def Let_def case_prod_beta)

text \<open>The sample node takes its one job over when it learns that a peer has died.\<close>

definition claim_mem :: membership where
  "claim_mem = \<lparr>m_alive = [self sample_cfg], m_members = [self sample_cfg], m_is_alive = \<lambda>e. e = self sample_cfg\<rparr>"

lemma sample_opened_commit:
  assumes "store_open (\<lambda>b. 7) [''d''] (empty_store (wal_new 100 sample_disk)) = Some (True, s)" "wf_rec r"
  shows "fst (commit (\<lambda>b. 7) r True s)"
proof -
  obtain w where w: "wal_open (\<lambda>b. 7) [''d''] (wal_new 100 sample_disk) = Some (True, sample_log, w)" "live (\<lambda>b. 7) w sample_log"
    using wal_open_no_fault [of "\<lambda>b. 7" "wal_new 100 sample_disk" "[''d'']" sample_log] sample_on_disk by auto
  then have "swal s = w" using assms(1) by (auto simp: store_open_def elim!: bind_SomeE)
  moreover have "script (wdisk w) = []" by (rule wal_open_script [OF w(1)]) (simp add: sample_on_disk)
  then have "fst (wal_append (\<lambda>b. 7) (encode_record r (next_lsn w)) True w)"
    using append_no_fault [OF w(2) _ valid_encoded [OF assms(2)], of "next_lsn w" True] by (auto simp: sample_log_def)
  ultimately show ?thesis by (simp add: commit_def Let_def case_prod_beta)
qed

lemma finalize_votes [simp]: "votes (snd (finalize_takeover E i n)) = votes (snd n)"
  by (auto simp: finalize_takeover_def Let_def set_repair_def bump_def set_deadline_def commit_rec_def split: prod.split option.split)

lemma lone_takeover:
  assumes "find_job i n = Some j" "\<not> draining (snd n)" "claims (snd n) = []" "owner j \<noteq> self (cfg (snd n))" "state j = Ready"
    and "length (filter (\<lambda>r. r \<noteq> Endpoint0) (replicas j)) = 1" "fst (commit_rec E (TakeoverRec i (epoch j + 1) (self (cfg (snd n)))) n)"
    and "epoch j < epoch j + 1"
  shows "\<exists>k. votes (snd (start_takeover E i n)) = votes (snd n) @ [(i, epoch j + 1, self (cfg (snd n)), k)]"
proof -
  obtain m where c: "commit_rec E (TakeoverRec i (epoch j + 1) (self (cfg (snd n)))) n = (True, m)"
    using assms(7) by (cases "commit_rec E (TakeoverRec i (epoch j + 1) (self (cfg (snd n)))) n") simp
  have m: "find_job i m = Some (j\<lparr>epoch := epoch j + 1, owner := self (cfg (snd n))\<rparr>)" "cfg (snd m) = cfg (snd n)" "votes (snd m) = votes (snd n)"
    using commit_find(1) [OF c, of i] assms(1,8) by (simp_all add: find_apply_rec find_job_def commit_find(3) [OF c])
  then show ?thesis
    using assms c by (simp add: start_takeover_def owned_by_me_def Let_def cast_vote_def)
qed

lemma sample_claimant:
  obtains n :: "unit node" where "lived n" "\<exists>k. votes (snd n) = [(JobId0, 2, self sample_cfg, k)]"
proof -
  obtain s where o: "queue_open sample_env sample_node = Some (True, upd (\<lambda>q. q\<lparr>st := s\<rparr>) sample_node)"
    and s: "find JobId0 s = Some sample_job" "store_open (\<lambda>b. 7) [''d''] (empty_store (wal_new 100 sample_disk)) = Some (True, s)"
    "jobs s = [(JobId0, sample_job)]" by (rule sample_opened)
  let ?n = "upd (\<lambda>q. q\<lparr>st := s\<rparr>) sample_node" and ?E = "sample_env\<lparr>e_mem := claim_mem\<rparr>"
  let ?m = "queue_run sample_env [(claim_mem, OnPeerDead Endpoint0)] ?n"
  have n: "find_job JobId0 ?n = Some sample_job" "\<not> draining (snd ?n)" "claims (snd ?n) = []" "cfg (snd ?n) = sample_cfg"
    "votes (snd ?n) = []" "peers (fst ?n) = []" "calls (fst ?n) = []"
    using s by (simp_all add: find_job_def node_new_def qnode_new_def rpc_new_def)
  have j: "owner sample_job = Endpoint0" "replicas sample_job = [self sample_cfg, Endpoint0, Endpoint0]" "self sample_cfg \<noteq> Endpoint0"
    by (simp_all add: sample_job_def Job0_def sample_cfg_def Endpoint0_def)
  have "commit_rec ?E r ?n = commit_rec sample_env r ?n" for r by (simp add: commit_rec_def)
  then have c: "fst (commit_rec ?E (TakeoverRec JobId0 2 (self sample_cfg)) ?n)"
    using sample_opened_commit [OF s(2), of "TakeoverRec JobId0 2 (self sample_cfg)"]
    by (simp add: commit_rec_def sample_env_def case_prod_beta Let_def)
  have "on_peer_dead ?E Endpoint0 ?n = start_takeover ?E JobId0 ?n"
    using n j s(3) by (simp add: on_peer_dead_def peer_dead_def fail_calls_to_def successor_of_def claim_mem_def owned_by_me_def Let_def)
  then have "?m = start_takeover ?E JobId0 ?n" by (simp add: queue_run_def)
  moreover have "\<exists>k. votes (snd (start_takeover ?E JobId0 ?n)) = [(JobId0, 2, self sample_cfg, k)]"
    using lone_takeover [of JobId0 ?n sample_job ?E] n j c by simp
  moreover have "lived ?m" using o unfolding lived_def by blast
  ultimately show ?thesis using that by metis
qed


section \<open>Properties\<close>

text \<open>
  C4. Epoch fencing on a replica: a record sent by a peer changes a job only if its epoch is not below
  the job's and it comes from the owner the replica believes in or is a takeover, and then the change
  is the record's transition, answered with success. A record of an older epoch changes no job and is
  answered as stale.
\<close>

theorem apply_fenced:
  assumes "find_job i n = Some j"
  shows "(find_job i (handle_apply E ctx msg n) \<noteq> Some j \<longrightarrow>
      (\<exists>r lsn ep. decode_record msg = Some (Some (r, lsn)) \<and> rec_meta r = Some (i, ep) \<and> epoch j \<le> ep \<and>
        (ctx_from ctx = owner j \<or> is_takeover r) \<and> fst (apply_reply E (ctx_from ctx) msg n) = kCreated \<and>
        find_job i (handle_apply E ctx msg n) = job_step r (Some j))) \<and>
    (\<forall>r lsn ep. decode_record msg = Some (Some (r, lsn)) \<and> rec_meta r = Some (i, ep) \<and> ep < epoch j \<longrightarrow>
      fst (apply_reply E (ctx_from ctx) msg n) = kStaleEpoch \<and>
      (\<forall>l. find_job l (handle_apply E ctx msg n) = find_job l n))"
  using apply_reply_cases [OF assms, of E "ctx_from ctx" msg] apply_reply_stale [OF _ _ assms, of msg _ _ _ E "ctx_from ctx"]
  by (auto simp: find_handle_apply)

theorem apply_fenced_witness:
  "find_job JobId0 (sample_holding sample_job) = Some sample_job \<and>
   fst (apply_reply sample_env Endpoint0 (encode_record (LeaseRec JobId0 0 1 9) 5) (sample_holding sample_job)) = kStaleEpoch"
proof -
  have f: "find_job JobId0 (sample_holding sample_job) = Some sample_job" by (rule sample_holding_find) simp
  have "decode_record (encode_record (LeaseRec JobId0 0 1 9) 5) = Some (Some (LeaseRec JobId0 0 1 9, 5))"
    by (rule decode_encode) simp
  with apply_fenced [OF f, of sample_env "\<lparr>ctx_from = Endpoint0, ctx_req_id = 1, ctx_method = Apply\<rparr>"
      "encode_record (LeaseRec JobId0 0 1 9) 5"] f
  show ?thesis by (simp add: rec_meta_def del: encode_record.simps)
qed

text \<open>
  C3. At most one owner per epoch, unless a full copy moves the job. Whatever the members of a replica set
  live through (any requests, messages, membership changes and faults, each from its opening), if two
  claimants both hold the votes of a majority of the set for the same epoch of a job, then they are the same
  node, or some member voted for one of them, then gave its store a full copy of the job, either one of that
  epoch that names the other as owner or a submission under the same identifier, and then voted for the
  other. Epoch zero, which is only reached by wrapping around, is left out.
\<close>

theorem one_winner_per_epoch:
  assumes "\<forall>v \<in> set rs. lived (member v)" "p \<noteq> 0" "wins rs member i p a" "wins rs member i p b"
  shows "a = b \<or> (\<exists>v \<in> set rs. \<exists>x y k l. {x, y} = {a, b} \<and> k \<le> l \<and>
    (i, p, x, k) \<in> set (votes (snd (member v))) \<and> (i, p, y, l) \<in> set (votes (snd (member v))) \<and>
    recopied i p y (drop k (take l (history (snd (member v))))))"
proof (cases "a = b")
  case False
  from majorities_meet assms(3,4) obtain v where v: "v \<in> set rs" "votes_for (member v) i p a" "votes_for (member v) i p b"
    unfolding wins_def by blast
  then obtain k l where kl: "(i, p, a, k) \<in> set (votes (snd (member v)))" "(i, p, b, l) \<in> set (votes (snd (member v)))"
    by (auto simp: votes_for_iff)
  have "lived (member v)" using assms(1) v(1) by blast
  from two_votes [OF this kl assms(2) False] show ?thesis
  proof
    assume "k \<le> l \<and> recopied i p b (drop k (take l (history (snd (member v)))))"
    with kl v(1) show ?thesis by (intro disjI2 bexI [of _ v] exI [of _ a] exI [of _ b] exI [of _ k] exI [of _ l]) simp_all
  next
    assume "l \<le> k \<and> recopied i p a (drop l (take k (history (snd (member v)))))"
    with kl v(1) show ?thesis
      by (intro disjI2 bexI [of _ v] exI [of _ b] exI [of _ a] exI [of _ l] exI [of _ k]) (simp_all add: insert_commute)
  qed
qed simp

theorem one_winner_per_epoch_witness:
  "\<exists>n :: unit node. lived n \<and> wins [self sample_cfg] (\<lambda>v. n) JobId0 2 (self sample_cfg) \<and>
     (\<forall>b. wins [self sample_cfg] (\<lambda>v. n) JobId0 2 b \<longrightarrow> b = self sample_cfg)"
proof -
  obtain n :: "unit node" where n: "lived n" "\<exists>k. votes (snd n) = [(JobId0, 2, self sample_cfg, k)]"
    by (rule sample_claimant)
  then have w: "wins [self sample_cfg] (\<lambda>v. n) JobId0 2 (self sample_cfg)" by (auto simp: wins_def votes_for_iff)
  have "b = self sample_cfg" if "wins [self sample_cfg] (\<lambda>v. n) JobId0 2 b" for b
    using one_winner_per_epoch [of "[self sample_cfg]" "\<lambda>v. n" 2 JobId0 "self sample_cfg" b] that n w
    by (auto simp: wins_def votes_for_iff split: if_splits)
  with n(1) w show ?thesis by blast
qed

text \<open>
  C35. A full copy is not fenced by its sender: a copy of the same epoch and the same state that carries a
  higher lease number replaces the replica's job, owner included, whoever sent it, once the replica has logged it.
\<close>

theorem replicate_moves_ownership:
  assumes "find_job i n = Some j" "job_id r = i" "wf_job r" "epoch r = epoch j" "lease_seq j < lease_seq r"
    "state r = state j" "fst (commit_rec E (ReplicateRec r) n)"
  shows "find_job i (handle_replicate E ctx (put_job [] r) n) = Some r"
proof -
  have "get_job (put_job [] r) 0 = Some (Some (length (job_bytes r), r))"
    by (rule get_job_read [OF _ assms(3), of _ 0 "[]"]) (simp add: put_job_append remaining_def)
  moreover have "job_advances j r" using assms(4-6) by (auto simp: job_advances_def)
  moreover obtain m where "commit_rec E (ReplicateRec r) n = (True, m)"
    using assms(7) by (cases "commit_rec E (ReplicateRec r) n") simp
  ultimately show ?thesis
    using find_handle_replicate [of "put_job [] r" "length (job_bytes r)" r n j E m ctx] assms(1,2,4) by simp
qed

theorem replicate_moves_ownership_witness:
  "let rival = \<lparr>addr_be = 5, port_be = 5\<rparr>; r = sample_job\<lparr>lease_seq := 1, owner := rival\<rparr>;
       ctx = \<lparr>ctx_from = rival, ctx_req_id = 1, ctx_method = Replicate\<rparr>
   in epoch r = epoch sample_job \<and> owner sample_job \<noteq> rival \<and>
      find_job JobId0 (handle_replicate sample_env ctx (put_job [] r) (sample_holding sample_job)) = Some r"
proof -
  let ?e = "\<lparr>addr_be = 5, port_be = 5\<rparr> :: Endpoint"
  let ?r = "sample_job\<lparr>lease_seq := 1, owner := ?e\<rparr>"
  have f: "find_job JobId0 (sample_holding sample_job) = Some sample_job" by (rule sample_holding_find) simp
  have r: "wf_job ?r" "job_id ?r = JobId0" "epoch ?r = epoch sample_job" "state ?r = state sample_job"
    using sample_job_simps(1) by (simp_all add: wf_job_def)
  have "fst (commit_rec sample_env (ReplicateRec ?r) (sample_holding sample_job))"
    by (rule sample_commit) (use r(1) in simp)
  from replicate_moves_ownership [OF f r(2,1,3) _ r(4) this, of "\<lparr>ctx_from = ?e, ctx_req_id = 1, ctx_method = Replicate\<rparr>"]
  show ?thesis using r(3) by (simp add: Let_def sample_job_def Job0_def Endpoint0_def)
qed

text \<open>
  C37. A resynchronisation whose call fails at once is never over: the number of calls in flight is set
  after the callback has run, no call is left to clear it, and as long as it stands every later
  resynchronisation of the job does nothing.
\<close>

theorem resync_leaks:
  assumes "find_job i n = Some j" "map_of (resync_inflight (snd n)) i = None"
    and "filter (m_is_alive (e_mem E)) (map snd (slots_of (snd n) j)) = [m]"
    and c: "rpc_call E m Resync (put_job_id [] i) (ResyncCont i) n = (Some code, n1)"
  shows "calls (fst (resync_job E i n)) = calls (fst n) \<and>
    map_of (resync_inflight (snd (resync_job E i n))) i = Some 1 \<and>
    (\<forall>E' n'. map_of (resync_inflight (snd n')) i = Some 1 \<longrightarrow> resync_job E' i n' = n')"
proof -
  have "code \<noteq> kCreated" using call_failed(2) [OF c] by (auto simp: kCreated_def kTooLarge_def kBusy_def)
  from resync_one [OF assms(1-3) c this] show ?thesis
    using call_failed(1) [OF c] by (auto simp: resync_job_def)
qed

definition busy_env :: "Endpoint \<Rightarrow> unit env" where
  "busy_env m = sample_env\<lparr>e_ops := (e_ops sample_env)\<lparr>s_send := \<lambda>t b s. (False, [], ())\<rparr>,
     e_mem := \<lparr>m_alive = [m], m_members = [m], m_is_alive = \<lambda>e. e = m\<rparr>\<rparr>"

definition paired :: "Endpoint \<Rightarrow> unit node \<Rightarrow> unit node" where
  "paired m n = ((fst n)\<lparr>peers := [(ekey m, Peer0\<lparr>addr := m, session := Some (), remote_boot := 1, acked := True\<rparr>)]\<rparr>, snd n)"

theorem resync_leaks_witness:
  "let m = \<lparr>addr_be = 2, port_be = 2\<rparr>; j = sample_job\<lparr>replicas := [self sample_cfg, m, Endpoint0]\<rparr>;
       n = paired m (sample_holding j)
   in map_of (resync_inflight (snd n)) JobId0 = None \<and> calls (fst n) = [] \<and>
      calls (fst (resync_job (busy_env m) JobId0 n)) = [] \<and>
      map_of (resync_inflight (snd (resync_job (busy_env m) JobId0 n))) JobId0 = Some 1"
proof -
  let ?m = "\<lparr>addr_be = 2, port_be = 2\<rparr> :: Endpoint"
  let ?j = "sample_job\<lparr>replicas := [self sample_cfg, ?m, Endpoint0]\<rparr>"
  let ?n = "paired ?m (sample_holding ?j)" and ?E = "busy_env ?m"
  have f: "find_job JobId0 ?n = Some ?j"
    using sample_holding_find [of ?j] by (simp add: paired_def find_job_def)
  have r: "map_of (resync_inflight (snd ?n)) JobId0 = None" "calls (fst ?n) = []"
    by (simp_all add: paired_def sample_holding_def node_new_def qnode_new_def rpc_new_def)
  have a: "filter (m_is_alive (e_mem ?E)) (map snd (slots_of (snd ?n) ?j)) = [?m]"
    by (simp add: peer_slots_def upt_rec busy_env_def paired_def sample_holding_def node_new_def qnode_new_def sample_cfg_def Endpoint0_def)
  obtain r' where "call (e_ops ?E) ?m Resync (put_job_id [] JobId0) (rpc_timeout (cfg (snd ?n))) (ResyncCont JobId0) (fst ?n) = (Some kBusy, r')"
    using call_refused [of "put_job_id [] JobId0" ?m "fst ?n" "e_ops ?E" Resync "rpc_timeout (cfg (snd ?n))" "ResyncCont JobId0"]
    by (auto simp: busy_env_def paired_def kMaxRpcBody_def put_job_id_def put_append get_peer_def is_established_def)
  then have "rpc_call ?E ?m Resync (put_job_id [] JobId0) (ResyncCont JobId0) ?n = (Some kBusy, r', snd ?n)"
    by (simp add: rpc_call_def case_prod_beta)
  from resync_leaks [OF f r(1) a this] r show ?thesis unfolding Let_def by (elim conjE) (simp only: simp_thms)
qed

text \<open>
  C38. A grant counts for whatever claim is open: the callback of a claim does not know the epoch it asked
  for. A call made to claim one epoch of a job, answered with a grant while the node has a claim of another
  epoch of that job open that lacks one vote, completes the takeover of that other epoch.
\<close>

theorem stale_grant_counts:
  assumes "map_of (claims (snd n)) i = Some c0" "map_of (calls (fst n)) k = None"
    and "map_of (calls (fst (claim_send E i to n))) k = Some pc"
    and "map_of (calls (fst m)) k = Some pc" "map_of (claims (snd m)) i = Some c" "proposed c \<noteq> proposed c0"
    and "find_job i m = Some j" "owner j = self (cfg (snd m))"
    and "acked_mask c AND claim_bit (Some j) to = 0" "acks c + 1 = needed c"
  shows "map_of (claims (snd (finish_call (queue_app E') k kCreated resp m))) i = None \<and>
    takeovers (counters (snd (finish_call (queue_app E') k kCreated resp m))) = takeovers (counters (snd m)) + 1"
proof -
  let ?g = "claim_granted (claim_bit (find_job i m) to) resp c"
  let ?r = "(fst m)\<lparr>calls := AList.delete k (calls (fst m))\<rparr>"
  let ?m = "upd (\<lambda>q. q\<lparr>claims := AList.update i ?g (claims q)\<rparr>) (?r, snd m)"
  have "cb pc = ClaimCont i to" by (rule claim_call [OF assms(1-3)])
  then have "finish_call (queue_app E') k kCreated resp m = on_claim_resp E' i to kCreated resp (?r, snd m)"
    using assms(4) by (cases m) (simp add: finish_call_def queue_app_def run_cont_def)
  also have "\<dots> = finalize_takeover E' i ?m"
    using assms(5,7,9,10) by (simp add: on_claim_resp_def Let_def find_job_def claim_granted_acks)
  finally show ?thesis
    using finalize_counts [of ?m i ?g j E'] assms(7,8) by (simp add: update_conv' delete_conv' find_job_def)
qed

text \<open>A claim of epoch 2 is sent, and answered when a claim of epoch 7 is open.\<close>

definition sample_claim :: "u32 \<Rightarrow> ClaimState" where
  "sample_claim p = \<lparr>proposed = p, acks = 0, needed = 1, best_state = 0, best_seq = 0, acked_mask = 0, next_retry = 0\<rparr>"

definition with_claim :: "u32 \<Rightarrow> unit node \<Rightarrow> unit node" where
  "with_claim p = upd (\<lambda>q. q\<lparr>claims := [(JobId0, sample_claim p)]\<rparr>)"

theorem stale_grant_counts_witness:
  "let e = \<lparr>addr_be = 2, port_be = 2\<rparr>; n = with_claim 2 (sample_holding (sample_job\<lparr>owner := self sample_cfg\<rparr>));
       m = with_claim 7 (claim_send sample_env JobId0 e n);
       m' = finish_call (queue_app sample_env) (next_req (fst n)) kCreated [] m
   in map_of (claims (snd m')) JobId0 = None \<and> takeovers (counters (snd m')) = takeovers (counters (snd m)) + 1"
proof -
  let ?e = "\<lparr>addr_be = 2, port_be = 2\<rparr> :: Endpoint" and ?j = "sample_job\<lparr>owner := self sample_cfg\<rparr>"
  let ?n = "with_claim 2 (sample_holding ?j)"
  let ?s = "claim_send sample_env JobId0 ?e ?n" and ?k = "next_req (fst ?n)"
  let ?b = "put_endpoint (put_u32 (put_job_id [] JobId0) 2) (self (cfg (snd ?n)))"
  have n: "map_of (claims (snd ?n)) JobId0 = Some (sample_claim 2)" "map_of (calls (fst ?n)) ?k = None" "peers (fst ?n) = []"
    "cfg (snd ?n) = sample_cfg" "find_job JobId0 ?n = Some ?j"
    using sample_holding_find [of ?j] by (simp_all add: with_claim_def sample_holding_def node_new_def qnode_new_def rpc_new_def)
  obtain s r' where c: "call (e_ops sample_env) ?e Claim ?b (rpc_timeout (cfg (snd ?n))) (ClaimCont JobId0 ?e) (fst ?n) = (s, r')"
    by (meson surj_pair)
  have l: "length ?b \<le> kMaxRpcBody" by (simp add: put_append kMaxRpcBody_def put_job_id_def put_endpoint_def)
  note f = first_call [OF l n(3) c]
  have cs: "?s = (r', snd ?n)"
    using n(1) c f(1) by (simp add: claim_send_def rpc_call_def sample_claim_def case_prod_beta)
  obtain pc where pc: "map_of (calls (fst ?s)) ?k = Some pc" using f(2) cs by (simp add: update_conv')
  have m: "map_of (calls (fst (with_claim 7 ?s))) ?k = Some pc" "map_of (claims (snd (with_claim 7 ?s))) JobId0 = Some (sample_claim 7)"
    "find_job JobId0 (with_claim 7 ?s) = Some ?j" "owner ?j = self (cfg (snd (with_claim 7 ?s)))"
    using pc cs n(4,5) by (simp_all add: with_claim_def find_job_def)
  have a: "proposed (sample_claim 7) \<noteq> proposed (sample_claim 2)" "acked_mask (sample_claim 7) AND claim_bit (Some ?j) ?e = 0"
    "acks (sample_claim 7) + 1 = needed (sample_claim 7)" by (simp_all add: sample_claim_def)
  from stale_grant_counts [OF n(1,2) pc m(1,2) a(1) m(3,4) a(2,3), of sample_env "[]"] show ?thesis by (simp add: Let_def)
qed

end
