(* ===== verification/Http.thy ===== *)
theory Http
  imports Std_String "HOL-Library.Multiset"
begin

text \<open>
  The HTTP server of a node: \<^verbatim>\<open>src/src/http.h\<close> and \<^verbatim>\<open>src/src/http.cc\<close>, with the registrations it keeps in
  the event loop of \<^verbatim>\<open>src/src/loop.h\<close>. What the sockets do is input: the results of \<open>accept\<close> and \<open>read\<close> come
  with the event, those of \<open>write\<close> from a script. A handler is a value; what it does with a request and
  its \<open>Respond\<close> is a parameter.
\<close>

section \<open>Text\<close>

definition kMaxRequestBytes :: nat where "kMaxRequestBytes = 256 * 2 ^ 10"

definition crlf :: string where "crlf = [CHR 0x0D, CHR 0x0A]"

definition lower_char :: "char \<Rightarrow> char" where
  "lower_char c = (if 65 \<le> (of_char c :: nat) \<and> (of_char c :: nat) \<le> 90 then char_of ((of_char c :: nat) + 32) else c)"

definition lower :: "string \<Rightarrow> string" where
  "lower s = map lower_char s"

definition hex :: "char \<Rightarrow> int" where
  "hex c =
    (let n = of_char c in
     if 48 \<le> n \<and> n \<le> 57 then n - 48
     else if 97 \<le> n \<and> n \<le> 102 then n - 97 + 10
     else if 65 \<le> n \<and> n \<le> 70 then n - 65 + 10
     else - 1)"

definition plus_space :: "char \<Rightarrow> char" where
  "plus_space c = (if c = CHR ''+'' then CHR '' '' else c)"

fun url_decode :: "string \<Rightarrow> string" where
  "url_decode [] = []"
| "url_decode (c # h # l # s) =
    (if c = CHR ''%'' \<and> hex h \<ge> 0 \<and> hex l \<ge> 0 then char_of (hex h * 16 + hex l) # url_decode s
     else plus_space c # url_decode (h # l # s))"
| "url_decode (c # s) = plus_space c # url_decode s"

definition reason :: "nat \<Rightarrow> string" where
  "reason code =
    (if code = 200 then ''OK''
     else if code = 201 then ''Created''
     else if code = 202 then ''Accepted''
     else if code = 204 then ''No Content''
     else if code = 400 then ''Bad Request''
     else if code = 404 then ''Not Found''
     else if code = 409 then ''Conflict''
     else if code = 429 then ''Too Many Requests''
     else if code = 500 then ''Internal Server Error''
     else if code = 503 then ''Service Unavailable''
     else ''OK'')"


section \<open>Requests\<close>

record Request =
  rq_method :: string
  rq_path :: string
  rq_query :: "(string \<times> string) list"
  rq_headers :: "(string \<times> string) list"
  rq_body :: string

record Response =
  rs_code :: nat
  rs_type :: string
  rs_body :: string
  rs_extra :: "(string \<times> string) list"

text \<open>One \<open>key=value\<close> of the query string, and the loop over them.\<close>

definition add_pair :: "string \<Rightarrow> (string \<times> string) list \<Rightarrow> (string \<times> string) list" where
  "add_pair kv qry =
    (case find_sub ''='' kv of
       Some e \<Rightarrow> AList.update (url_decode (take e kv)) (url_decode (drop (e + 1) kv)) qry
     | None \<Rightarrow> if kv \<noteq> [] then AList.update (url_decode kv) [] qry else qry)"

function parse_query :: "string \<Rightarrow> nat \<Rightarrow> (string \<times> string) list \<Rightarrow> (string \<times> string) list" where
  "parse_query qs pos qry =
    (if pos < length qs then
      (let amp = (case find_at ''&'' qs pos of None \<Rightarrow> length qs | Some a \<Rightarrow> a)
       in parse_query qs (amp + 1) (add_pair (substr qs pos (amp - pos)) qry))
     else qry)"
  by pat_completeness auto
termination
  by (relation "measure (\<lambda>(qs, pos, qry). length qs - pos)") (auto dest: find_at_bound split: option.splits)

declare parse_query.simps [simp del]

text \<open>The request line; \<open>None\<close> closes the connection.\<close>

definition parse_line :: "string \<Rightarrow> (string \<times> string \<times> (string \<times> string) list) option" where
  "parse_line line =
    (case (find_sub '' '' line, rfind_char (CHR '' '') line) of
       (Some sp1, Some sp2) \<Rightarrow>
         if sp2 = sp1 then None
         else
          (let target = substr line (sp1 + 1) (sp2 - sp1 - 1) in
           case find_sub ''?'' target of
             Some q \<Rightarrow> Some (take sp1 line, url_decode (take q target), parse_query (drop (q + 1) target) 0 [])
           | None \<Rightarrow> Some (take sp1 line, url_decode target, []))
     | _ \<Rightarrow> None)"

definition add_header :: "string \<Rightarrow> (string \<times> string) list \<Rightarrow> (string \<times> string) list" where
  "add_header line hs =
    (case find_sub '':'' line of
       Some c \<Rightarrow> AList.update (lower (take c line)) (dropWhile (\<lambda>x. x = CHR '' '') (drop (c + 1) line)) hs
     | None \<Rightarrow> hs)"

function parse_headers :: "string \<Rightarrow> nat \<Rightarrow> nat \<Rightarrow> (string \<times> string) list \<Rightarrow> (string \<times> string) list" where
  "parse_headers s hdr_end pos hs =
    (if pos < hdr_end then
      (let eol = (case find_at crlf s pos of None \<Rightarrow> hdr_end | Some e \<Rightarrow> if e > hdr_end then hdr_end else e)
       in parse_headers s hdr_end (eol + 2) (add_header (substr s pos (eol - pos)) hs))
     else hs)"
  by pat_completeness auto
termination
  by (relation "measure (\<lambda>(s, e, pos, hs). e - pos)") (auto dest: find_at_bound split: option.splits)

declare parse_headers.simps [simp del]

text \<open>
  \<open>try_parse\<close> up to the routing: the buffer may not hold a whole request yet, may be one to refuse, or
  gives a request, whether the connection is kept alive after it, and the rest of the buffer.
\<close>

datatype parsed = Incomplete | Malformed | Parsed Request bool string

definition parse_request :: "string \<Rightarrow> parsed" where
  "parse_request s =
    (case find_sub (crlf @ crlf) s of
       None \<Rightarrow> Incomplete
     | Some hdr_end \<Rightarrow>
        (let line_end = (case find_sub crlf s of None \<Rightarrow> length s | Some e \<Rightarrow> e) in
         case parse_line (take line_end s) of
           None \<Rightarrow> Malformed
         | Some (meth, path, qry) \<Rightarrow>
            (let hs = parse_headers s hdr_end (line_end + 2) [];
                 content_len = (case map_of hs ''content-length'' of None \<Rightarrow> 0 | Some v \<Rightarrow> strtoul v) in
             if content_len > kMaxRequestBytes then Malformed
             else
              (let total = hdr_end + 4 + content_len in
               if length s < total then Incomplete
               else
                Parsed \<lparr>rq_method = meth, rq_path = path, rq_query = qry, rq_headers = hs,
                  rq_body = substr s (hdr_end + 4) content_len\<rparr>
                 (lower (case map_of hs ''connection'' of Some v \<Rightarrow> v | None \<Rightarrow> ''keep-alive'') \<noteq> ''close'')
                 (drop total s)))))"


section \<open>Connections\<close>

text \<open>
  The last four fields are not in the code: they record all bytes read from the connection, the requests
  taken from them, the responses appended to the output, and the bytes written.
\<close>

record Conn =
  c_fd :: nat
  c_in :: string
  c_out :: string
  close_after_write :: bool
  awaiting_handler :: bool
  c_received :: string
  c_handed :: "(Request \<times> bool) list"
  c_answered :: "string list"
  c_sent :: string

definition Conn0 :: Conn where
  "Conn0 = \<lparr>c_fd = 0, c_in = [], c_out = [], close_after_write = False, awaiting_handler = False,
     c_received = [], c_handed = [], c_answered = [], c_sent = []\<rparr>"

text \<open>Events of the loop, what a registration waits for, and the results of the system calls.\<close>

record events =
  ev_err :: bool
  ev_in :: bool
  ev_out :: bool

datatype interest = ForIn | ForInOut

datatype read_result = Chunk string | Eof | Again

datatype write_result = Took nat | WouldBlock | WriteError

text \<open>
  \<open>Respond\<close> captures the connection's number and whether it is kept alive. The last two fields of the server
  are not in the code: the connections that are closed, and whether the 64-bit connection number wrapped.
\<close>

type_synonym Respond = "u64 \<times> bool"

record 'h http =
  conns :: "(u64 \<times> Conn) list"
  routes :: "(string \<times> 'h) list"
  next_gen :: u64
  watched :: "(nat \<times> interest) list"
  writes :: "write_result list"
  gone :: "Conn list"
  gen_wrapped :: bool

definition set_conn :: "u64 \<Rightarrow> Conn \<Rightarrow> 'h http \<Rightarrow> 'h http" where
  "set_conn g c s = s\<lparr>conns := AList.update g c (conns s)\<rparr>"

definition close_conn :: "u64 \<Rightarrow> 'h http \<Rightarrow> 'h http" where
  "close_conn g s =
    (case map_of (conns s) g of
       None \<Rightarrow> s
     | Some c \<Rightarrow> s\<lparr>watched := AList.delete (c_fd c) (watched s), conns := AList.delete g (conns s), gone := c # gone s\<rparr>)"

definition add_route :: "string \<Rightarrow> string \<Rightarrow> 'h \<Rightarrow> 'h http \<Rightarrow> 'h http" where
  "add_route meth pre h s =
    s\<lparr>routes := sort_key (\<lambda>r. - int (length (fst r))) (routes s @ [(meth @ '' '' @ pre, h)])\<rparr>"

text \<open>One accepted socket: its descriptor, whether it could be made non-blocking and registered.\<close>

definition accept_one :: "nat \<times> bool \<times> bool \<Rightarrow> 'h http \<Rightarrow> 'h http" where
  "accept_one = (\<lambda>(f, nonblock, registered) s.
    if \<not> nonblock then s
    else
     (let g = next_gen s;
          s = set_conn g (Conn0\<lparr>c_fd := f\<rparr>) (s\<lparr>next_gen := g + 1, gen_wrapped := gen_wrapped s \<or> g + 1 = 0\<rparr>)
      in if registered then s\<lparr>watched := AList.update f ForIn (watched s)\<rparr>
         else s\<lparr>conns := AList.delete g (conns s)\<rparr>))"

definition accept_ready :: "(nat \<times> bool \<times> bool) list \<Rightarrow> 'h http \<Rightarrow> 'h http" where
  "accept_ready = fold accept_one"

text \<open>The write loop: what was written, what is left, and how it ended.\<close>

datatype flush_end = Drained | Blocked | Broken

fun write_out :: "write_result list \<Rightarrow> string \<Rightarrow> string \<times> string \<times> flush_end \<times> write_result list" where
  "write_out ws [] = ([], [], Drained, ws)"
| "write_out [] (c # out) = (c # out, [], Drained, [])"
| "write_out (Took n # ws) (c # out) =
    (if n = 0 then ([], c # out, Broken, ws)
     else
      (let (w, rest, e, ws') = write_out ws (drop n (c # out)) in (take n (c # out) @ w, rest, e, ws')))"
| "write_out (WouldBlock # ws) (c # out) = ([], c # out, Blocked, ws)"
| "write_out (WriteError # ws) (c # out) = ([], c # out, Broken, ws)"

definition flush :: "u64 \<Rightarrow> 'h http \<Rightarrow> 'h http" where
  "flush g s =
    (case map_of (conns s) g of
       None \<Rightarrow> s
     | Some c \<Rightarrow>
        (let (w, rest, e, ws) = write_out (writes s) (c_out c);
             c = c\<lparr>c_out := rest, c_sent := c_sent c @ w\<rparr>;
             s = set_conn g c (s\<lparr>writes := ws\<rparr>)
         in case e of
              Blocked \<Rightarrow> s\<lparr>watched := AList.update (c_fd c) ForInOut (watched s)\<rparr>
            | Broken \<Rightarrow> close_conn g s
            | Drained \<Rightarrow>
               (let s = s\<lparr>watched := AList.update (c_fd c) ForIn (watched s)\<rparr>
                in if close_after_write c then close_conn g s else s)))"


section \<open>Requests and responses\<close>

text \<open>The bytes of a response; the head is printed into a buffer of 256 bytes.\<close>

definition response_head :: "bool \<Rightarrow> Response \<Rightarrow> string" where
  "response_head keep r =
    take 255 (''HTTP/1.1 '' @ to_string (rs_code r) @ '' '' @ reason (rs_code r) @ crlf @ ''Content-Type: '' @ rs_type r @ crlf @
      ''Content-Length: '' @ to_string (length (rs_body r)) @ crlf @
      ''Connection: '' @ (if keep then ''keep-alive'' else ''close'') @ crlf)"

definition header_line :: "string \<times> string \<Rightarrow> string" where
  "header_line = (\<lambda>(k, v). k @ '': '' @ v @ crlf)"

definition response_bytes :: "bool \<Rightarrow> Response \<Rightarrow> string" where
  "response_bytes keep r = response_head keep r @ concat (map header_line (rs_extra r)) @ crlf @ rs_body r"

text \<open>\<open>send_response\<close> up to the next request of the buffer.\<close>

definition put_response :: "Respond \<Rightarrow> Response \<Rightarrow> 'h http \<Rightarrow> 'h http" where
  "put_response = (\<lambda>(g, keep) r s.
    case map_of (conns s) g of
      None \<Rightarrow> s
    | Some c \<Rightarrow>
       flush g (set_conn g (c\<lparr>c_out := c_out c @ response_bytes keep r, close_after_write := \<not> keep,
         awaiting_handler := False, c_answered := c_answered c @ [response_bytes keep r]\<rparr>) s))"

definition not_found :: Response where
  "not_found = \<lparr>rs_code = 404, rs_type = ''text/plain'', rs_body = ''not found'' @ [CHR 0x0A], rs_extra = []\<rparr>"

text \<open>
  What an application does with a request: \<open>None\<close> stands for an exception that leaves the handler and ends
  the process, otherwise the calls of \<open>Respond\<close> it makes before it returns.
\<close>

type_synonym ('h, 'a) application = "'h \<Rightarrow> Request \<Rightarrow> Respond \<Rightarrow> 'a \<Rightarrow> ((Respond \<times> Response) list \<times> 'a) option"

definition find_route :: "string \<Rightarrow> (string \<times> 'h) list \<Rightarrow> 'h option" where
  "find_route key rs = map_option snd (find (\<lambda>r. has_prefix (fst r) key) rs)"

definition try_parse :: "('h, 'a) application \<Rightarrow> u64 \<Rightarrow> 'h http \<times> 'a \<Rightarrow> ((Respond \<times> Response) list \<times> 'h http \<times> 'a) option" where
  "try_parse ap g = (\<lambda>(s, a).
    case map_of (conns s) g of
      None \<Rightarrow> Some ([], s, a)
    | Some c \<Rightarrow>
       (case parse_request (c_in c) of
          Incomplete \<Rightarrow> Some ([], s, a)
        | Malformed \<Rightarrow> Some ([], close_conn g s, a)
        | Parsed req keep rest \<Rightarrow>
           (let s = set_conn g (c\<lparr>c_in := rest, awaiting_handler := True, c_handed := c_handed c @ [(req, keep)]\<rparr>) s
            in case find_route (rq_method req @ '' '' @ rq_path req) (routes s) of
                 None \<Rightarrow> Some ([((g, keep), not_found)], s, a)
               | Some h \<Rightarrow>
                  (case ap h req (g, keep) a of
                     None \<Rightarrow> None
                   | Some (rs, a) \<Rightarrow> Some (rs, s, a)))))"

text \<open>
  The calls of \<open>Respond\<close> in their order, each followed by the request that waits in the buffer of its
  connection. Every request taken shortens a buffer.
\<close>

definition buffered :: "'h http \<Rightarrow> nat" where
  "buffered s = sum_list (map (\<lambda>x. length (c_in (snd x))) (conns s))"

lemma buffered_set_conn:
  assumes "map_of (conns s) g = Some c"
  shows "buffered (set_conn g c' s) + length (c_in c) = buffered s + length (c_in c')"
proof -
  have "sum_list (map (\<lambda>x. length (c_in (snd x))) (AList.update g c' xs)) + length (c_in c) =
      sum_list (map (\<lambda>x. length (c_in (snd x))) xs) + length (c_in c')" if "map_of xs g = Some c" for xs
    using that by (induction xs) (auto split: if_splits)
  then show ?thesis using assms by (simp add: buffered_def set_conn_def)
qed

lemma buffered_delete: "sum_list (map (\<lambda>x. length (c_in (snd x))) (AList.delete g xs)) \<le> sum_list (map (\<lambda>x. length (c_in (snd x))) xs)"
  by (induction xs) (auto simp: AList.delete_eq)

lemma buffered_close: "buffered (close_conn g s) \<le> buffered s"
  using buffered_delete by (auto simp: close_conn_def buffered_def split: option.split)

lemma buffered_simps [simp]:
  "buffered (s\<lparr>watched := w\<rparr>) = buffered s" "buffered (s\<lparr>writes := ws\<rparr>) = buffered s"
  by (simp_all add: buffered_def)

lemma set_conn_simps [simp]:
  "conns (set_conn g c s) = AList.update g c (conns s)" "routes (set_conn g c s) = routes s" "gone (set_conn g c s) = gone s"
  "next_gen (set_conn g c s) = next_gen s" "gen_wrapped (set_conn g c s) = gen_wrapped s"
  "watched (set_conn g c s) = watched s" "writes (set_conn g c s) = writes s"
  by (simp_all add: set_conn_def)

lemma buffered_set_same: "map_of (conns s) g = Some c \<Longrightarrow> c_in c' = c_in c \<Longrightarrow> buffered (set_conn g c' s) = buffered s"
  using buffered_set_conn [of s g c c'] by simp

lemma buffered_flush: "buffered (flush g s) \<le> buffered s"
proof (cases "map_of (conns s) g")
  case (Some c)
  obtain w rest e ws where w: "write_out (writes s) (c_out c) = (w, rest, e, ws)" by (rule prod_cases4)
  let ?c = "c\<lparr>c_out := rest, c_sent := c_sent c @ w\<rparr>"
  let ?s = "set_conn g ?c (s\<lparr>writes := ws\<rparr>)"
  have s: "buffered ?s = buffered s" using buffered_set_same [of "s\<lparr>writes := ws\<rparr>" g c ?c] Some by simp
  have "buffered (close_conn g (?s\<lparr>watched := x\<rparr>)) \<le> buffered s" "buffered (close_conn g ?s) \<le> buffered s" for x
    using buffered_close [of g "?s\<lparr>watched := x\<rparr>"] buffered_close [of g ?s] s by simp_all
  then show ?thesis using s Some w by (auto simp: flush_def Let_def split: flush_end.split)
qed (simp add: flush_def)

lemma buffered_put_response: "buffered (put_response re r s) \<le> buffered s"
proof (cases "map_of (conns s) (fst re)")
  case (Some c)
  then show ?thesis
    using buffered_flush le_trans [OF buffered_flush eq_imp_le [OF buffered_set_same [OF Some]]]
    by (simp add: put_response_def case_prod_beta)
qed (simp add: put_response_def case_prod_beta)

lemma parsed_shorter: "parse_request s = Parsed r k rest \<Longrightarrow> length rest < length s"
  by (auto simp: parse_request_def Let_def split: option.splits if_splits prod.splits)

lemma buffered_try_parse:
  assumes "try_parse ap g (s, a) = Some (rs, s', a')"
  shows "buffered s' < buffered s \<or> buffered s' \<le> buffered s \<and> rs = []"
proof (cases "map_of (conns s) g")
  case (Some c)
  show ?thesis
  proof (cases "parse_request (c_in c)")
    case (Parsed r k rest)
    let ?c = "c\<lparr>c_in := rest, awaiting_handler := True, c_handed := c_handed c @ [(r, k)]\<rparr>"
    have "s' = set_conn g ?c s" using assms Some Parsed by (auto simp: try_parse_def Let_def split: option.splits)
    then show ?thesis using buffered_set_conn [OF Some, of ?c] parsed_shorter [OF Parsed] by simp
  qed (use assms Some buffered_close [of g s] in \<open>auto simp: try_parse_def\<close>)
qed (use assms in \<open>simp add: try_parse_def\<close>)

definition resumes :: "u64 \<Rightarrow> 'h http \<Rightarrow> bool" where
  "resumes g s =
    (case map_of (conns s) g of None \<Rightarrow> False | Some c \<Rightarrow> \<not> awaiting_handler c \<and> c_in c \<noteq> [])"


function deliver :: "('h, 'a) application \<Rightarrow> (Respond \<times> Response) list \<Rightarrow> 'h http \<times> 'a \<Rightarrow> ('h http \<times> 'a) option" where
  "deliver ap [] x = Some x"
| "deliver ap ((re, r) # rs) (s, a) =
    (let s = put_response re r s in
     if resumes (fst re) s then
      (case try_parse ap (fst re) (s, a) of
         None \<Rightarrow> None
       | Some (rs', x) \<Rightarrow> deliver ap (rs' @ rs) x)
     else deliver ap rs (s, a))"
  by pat_completeness auto
termination
proof (relation "measures [\<lambda>(ap, rs, x). buffered (fst x), \<lambda>(ap, rs, x). length rs]", goal_cases)
  case (2 ap re r rs s a s1 p rs' x)
  have "buffered s1 \<le> buffered s" using 2(1) buffered_put_response by simp
  moreover obtain s2 a2 where x: "x = (s2, a2)" by fastforce
  moreover have "buffered s2 < buffered s1 \<or> buffered s2 \<le> buffered s1 \<and> rs' = []"
    using buffered_try_parse [of ap "fst re" s1 a rs' s2 a2] 2(3,4) x by simp
  ultimately show ?case by auto
next
  case (3 ap re r rs s a s1)
  then have "buffered s1 \<le> buffered s" using buffered_put_response by simp
  then show ?case by (auto simp: le_less)
qed simp

declare deliver.simps [simp del]

text \<open>The read loop of \<open>conn_ready\<close>, from a buffer of \<open>n\<close> bytes: the bytes read, or \<open>None\<close> to close.\<close>

fun read_data :: "read_result list \<Rightarrow> nat \<Rightarrow> string option" where
  "read_data [] n = Some []"
| "read_data (Chunk b # rds) n =
    (if n + length b > kMaxRequestBytes then None else map_option ((@) b) (read_data rds (n + length b)))"
| "read_data (Eof # rds) n = None"
| "read_data (Again # rds) n = Some []"

definition conn_input :: "('h, 'a) application \<Rightarrow> u64 \<Rightarrow> read_result list \<Rightarrow> 'h http \<times> 'a \<Rightarrow> ('h http \<times> 'a) option" where
  "conn_input ap g rds = (\<lambda>(s, a).
    case map_of (conns s) g of
      None \<Rightarrow> Some (s, a)
    | Some c \<Rightarrow>
       (case read_data rds (length (c_in c)) of
          None \<Rightarrow> Some (close_conn g s, a)
        | Some b \<Rightarrow>
           (let s = set_conn g (c\<lparr>c_in := c_in c @ b, c_received := c_received c @ b\<rparr>) s in
            if awaiting_handler c then Some (s, a)
            else (case try_parse ap g (s, a) of None \<Rightarrow> None | Some (rs, x) \<Rightarrow> deliver ap rs x))))"

definition conn_ready ::
  "('h, 'a) application \<Rightarrow> u64 \<Rightarrow> events \<Rightarrow> read_result list \<Rightarrow> 'h http \<times> 'a \<Rightarrow> ('h http \<times> 'a) option" where
  "conn_ready ap g ev rds x =
    (if map_of (conns (fst x)) g = None then Some x
     else if ev_err ev then Some (close_conn g (fst x), snd x)
     else
      (case (if ev_in ev then conn_input ap g rds x else Some x) of
         None \<Rightarrow> None
       | Some x \<Rightarrow> Some (if ev_out ev then flush g (fst x) else fst x, snd x)))"

definition http_new :: "'h http" where
  "http_new = \<lparr>conns = [], routes = [], next_gen = 1, watched = [], writes = [], gone = [], gen_wrapped = False\<rparr>"

end
