(* ===== verification/Http_Serving.thy ===== *)
theory Http_Serving
  imports Http
begin

text \<open>
  What the server makes of the bytes that arrive: the requests of a connection are those of its byte
  stream, whatever the chunks, each is handed over once and in order, and the responses are written in
  that order. The application is an interface that answers every \<open>Respond\<close> it is given once.
\<close>

section \<open>Parsing a growing buffer\<close>

lemma parse_headers_append:
  assumes "has_prefix crlf (drop hdr_end s)"
  shows "parse_headers (s @ t) hdr_end pos hs = parse_headers s hdr_end pos hs"
  using assms
proof (induction s hdr_end pos hs rule: parse_headers.induct)
  case (1 s hdr_end pos hs)
  show ?case
  proof (cases "pos < hdr_end")
    case True
    then obtain k where k: "k \<le> hdr_end" "find_at crlf s pos = Some k"
      using find_at_exists [OF 1(2), of pos] by auto
    have "k \<le> length s" using find_at_bound [OF k(2)] has_prefix_length [of crlf "drop k s"] by (simp add: crlf_def)
    moreover have "find_at crlf (s @ t) pos = Some k" using find_at_append [OF k(2)] by (simp add: crlf_def)
    ultimately show ?thesis
      using 1(1) [OF True refl 1(2)] k True
      by (subst (1 2) parse_headers.simps) (simp add: substr_def Let_def)
  qed (subst (1 2) parse_headers.simps, simp)
qed

lemma has_prefix_app: "has_prefix (p @ q) s \<Longrightarrow> has_prefix p s"
  by (auto simp: has_prefix_iff)

text \<open>Once the buffer holds a whole head, what follows does not change how it is read.\<close>

lemma parsed_head:
  assumes "parse_request s \<noteq> Incomplete"
  obtains h e where "find_sub (crlf @ crlf) s = Some h" "find_sub crlf s = Some e" "e \<le> h" "h + 4 \<le> length s"
    "find_sub (crlf @ crlf) (s @ t) = Some h" "find_sub crlf (s @ t) = Some e"
    "\<And>pos hs. parse_headers (s @ t) h pos hs = parse_headers s h pos hs"
proof -
  obtain h where h: "find_sub (crlf @ crlf) s = Some h"
    using assms by (cases "find_sub (crlf @ crlf) s") (auto simp: parse_request_def)
  then have p: "has_prefix crlf (drop h s)" and l: "h + 4 \<le> length s"
    using find_sub_bound [OF h] has_prefix_app [of crlf crlf "drop h s"] by (simp_all add: crlf_def)
  obtain e where "find_sub crlf s = Some e" "e \<le> h"
    using find_at_exists [OF p, of 0] by (auto simp: find_at_def)
  with that [OF h this l] show ?thesis using h find_sub_append parse_headers_append [OF p] by blast
qed

lemma parse_append:
  "parse_request s = Malformed \<Longrightarrow> parse_request (s @ t) = Malformed"
  "parse_request s = Parsed r k rest \<Longrightarrow> parse_request (s @ t) = Parsed r k (rest @ t)"
proof -
  show "parse_request (s @ t) = Malformed" if m: "parse_request s = Malformed"
    by (rule parsed_head [of s t]) (use m in \<open>simp, cases "parse_line (take (the (find_sub crlf s)) s)",
      auto simp: parse_request_def Let_def split: if_splits\<close>)
  show "parse_request (s @ t) = Parsed r k (rest @ t)" if m: "parse_request s = Parsed r k rest"
    by (rule parsed_head [of s t]) (use m in \<open>simp, cases "parse_line (take (the (find_sub crlf s)) s)",
      auto simp: parse_request_def Let_def substr_def split: if_splits\<close>)
qed

lemma parse_Nil [simp]: "parse_request [] = Incomplete"
  by (simp add: parse_request_def crlf_def)

text \<open>The requests of a byte stream, and taking the first ones off it.\<close>

function requests :: "string \<Rightarrow> (Request \<times> bool) list" where
  "requests s = (case parse_request s of Parsed r k rest \<Rightarrow> (r, k) # requests rest | _ \<Rightarrow> [])"
  by pat_completeness auto
termination
  by (relation "measure length") (auto simp: parsed_shorter)

declare requests.simps [simp del]

fun takes :: "string \<Rightarrow> (Request \<times> bool) list \<Rightarrow> string \<Rightarrow> bool" where
  "takes s [] u \<longleftrightarrow> s = u"
| "takes s (x # rs) u \<longleftrightarrow> (case parse_request s of Parsed r k rest \<Rightarrow> x = (r, k) \<and> takes rest rs u | _ \<Rightarrow> False)"

lemma takes_append: "takes s rs u \<Longrightarrow> takes (s @ t) rs (u @ t)"
proof (induction rs arbitrary: s)
  case (Cons x rs)
  then show ?case by (cases "parse_request s") (simp_all add: parse_append(2))
qed simp

lemma takes_snoc: "takes s rs u \<Longrightarrow> parse_request u = Parsed r k v \<Longrightarrow> takes s (rs @ [(r, k)]) v"
  by (induction rs arbitrary: s) (auto split: parsed.splits)

lemma takes_requests: "takes s rs u \<Longrightarrow> requests s = rs @ requests u"
proof (induction rs arbitrary: s)
  case (Cons x rs)
  then show ?case by (cases "parse_request s") (simp_all add: requests.simps [of s])
qed simp

lemma requests_Incomplete: "parse_request s = Incomplete \<Longrightarrow> requests s = []"
  by (simp add: requests.simps)


section \<open>The state of a connection\<close>

definition owed_to :: "Respond multiset \<Rightarrow> u64 \<Rightarrow> Respond multiset" where
  "owed_to M g = filter_mset (\<lambda>re. fst re = g) M"

text \<open>Answered requests: all but the one a handler still works on.\<close>

definition served :: "Conn \<Rightarrow> (Request \<times> bool) list" where
  "served c = (if awaiting_handler c then butlast (c_handed c) else c_handed c)"

lemma served_simps [simp]:
  "served (c\<lparr>c_out := x\<rparr>) = served c" "served (c\<lparr>c_sent := x\<rparr>) = served c" "served (c\<lparr>close_after_write := b\<rparr>) = served c"
  "served (c\<lparr>c_fd := f\<rparr>) = served c" "served (c\<lparr>c_in := x\<rparr>) = served c" "served (c\<lparr>c_received := x\<rparr>) = served c"
  "served (c\<lparr>c_answered := xs\<rparr>) = served c"
  by (simp_all add: served_def)

definition conn_ok :: "Conn \<Rightarrow> bool" where
  "conn_ok c \<longleftrightarrow> takes (c_received c) (c_handed c) (c_in c) \<and> c_sent c @ c_out c = concat (c_answered c) \<and>
     list_all2 (\<lambda>x b. \<exists>r. b = response_bytes (snd x) r) (served c) (c_answered c) \<and>
     (awaiting_handler c \<longrightarrow> c_handed c \<noteq> [])"

text \<open>In the middle of a response the connections of \<open>X\<close> may hold a request that is not looked at yet.\<close>

definition live_ok :: "u64 set \<Rightarrow> Respond multiset \<Rightarrow> u64 \<Rightarrow> Conn \<Rightarrow> bool" where
  "live_ok X M g c \<longleftrightarrow> conn_ok c \<and> (g \<in> X \<or> awaiting_handler c \<or> parse_request (c_in c) = Incomplete) \<and>
     owed_to M g = (if awaiting_handler c then {#(g, snd (last (c_handed c)))#} else {#})"

definition http_ok :: "u64 set \<Rightarrow> 'h http \<Rightarrow> Respond multiset \<Rightarrow> bool" where
  "http_ok X s M \<longleftrightarrow> gen_wrapped s \<or>
     dict (conns s) \<and> (\<forall>g c. map_of (conns s) g = Some c \<longrightarrow> live_ok X M g c \<and> g < next_gen s) \<and>
     (\<forall>c \<in> set (gone s). conn_ok c) \<and> (\<forall>re \<in># M. fst re < next_gen s)"

lemma owed_to_simps [simp]:
  "owed_to (M + N) g = owed_to M g + owed_to N g" "owed_to {#} g = {#}"
  "owed_to (add_mset re M) g = (if fst re = g then add_mset re (owed_to M g) else owed_to M g)"
  by (simp_all add: owed_to_def)

lemma conn_ok_simps [simp]:
  "conn_ok (c\<lparr>close_after_write := b\<rparr>) = conn_ok c" "conn_ok (c\<lparr>c_fd := f\<rparr>) = conn_ok c"
  by (simp_all add: conn_ok_def)

lemma http_ok_simps [simp]:
  "http_ok X (s\<lparr>watched := w\<rparr>) M = http_ok X s M" "http_ok X (s\<lparr>writes := ws\<rparr>) M = http_ok X s M"
  by (simp_all add: http_ok_def)

lemma http_ok_conn: "http_ok X s M \<Longrightarrow> \<not> gen_wrapped s \<Longrightarrow> map_of (conns s) g = Some c \<Longrightarrow> live_ok X M g c"
  by (simp add: http_ok_def)

lemma http_ok_set:
  assumes "http_ok X s M" "map_of (conns s) g = Some c"
    and "gen_wrapped s \<or> live_ok Y N g c'" "\<And>h. h \<noteq> g \<Longrightarrow> owed_to N h = owed_to M h" "X \<subseteq> insert g Y" "fst ` set_mset N \<subseteq> insert g (fst ` set_mset M)"
  shows "http_ok Y (set_conn g c' s) N"
proof (cases "gen_wrapped s")
  case False
  have "live_ok Y N h d" if "live_ok X M h d" "h \<noteq> g" for h d
    using that assms(4,5) by (auto simp: live_ok_def)
  moreover have "g < next_gen s" "\<forall>re \<in># M. fst re < next_gen s"
    using assms(1,2) False by (auto simp: http_ok_def)
  moreover have "fst re < next_gen s" if "re \<in># N" for re
    using assms(6) that calculation(2,3) by fastforce
  ultimately show ?thesis using assms(1,3) False by (auto simp: http_ok_def update_conv')
qed (simp add: http_ok_def)

lemma http_ok_close:
  assumes "http_ok X s M" "\<And>h. h \<noteq> g \<Longrightarrow> owed_to N h = owed_to M h" "X \<subseteq> insert g Y" "fst ` set_mset N \<subseteq> fst ` set_mset M"
    and "map_of (conns s) g \<noteq> None"
  shows "http_ok Y (close_conn g s) N"
proof -
  from assms(5) obtain c where c: "map_of (conns s) g = Some c" by blast
  have "live_ok Y N h d" if "live_ok X M h d" "h \<noteq> g" for h d
    using that assms(2,3) by (auto simp: live_ok_def)
  moreover have "conn_ok c" if "live_ok X M g c" using that by (simp add: live_ok_def)
  moreover have "fst re < n" if "re \<in># N" "\<forall>re \<in># M. fst re < n" for re n
    using assms(4) that by fastforce
  ultimately show ?thesis using assms(1) c by (auto simp: http_ok_def close_conn_def delete_conv')
qed


lemma write_out_all: "write_out ws out = (w, rest, e, ws') \<Longrightarrow> w @ rest = out"
proof (induction ws out arbitrary: w rest e ws' rule: write_out.induct)
  case (3 n ws c out)
  show ?case
  proof (cases "n = 0")
    case False
    obtain w1 r1 e1 ws1 where w: "write_out ws (drop n (c # out)) = (w1, r1, e1, ws1)" by (rule prod_cases4)
    from 3(1) [OF False this] have "w1 @ r1 = drop n (c # out)" .
    moreover have "w = take n (c # out) @ w1" "rest = r1" using 3(2) False w by simp_all
    ultimately show ?thesis by (simp only: append.assoc append_take_drop_id)
  qed (use 3 in simp)
qed auto

lemma flush_ok:
  assumes "http_ok X s M"
  shows "http_ok X (flush g s) M"
proof (cases "map_of (conns s) g")
  case (Some c)
  obtain w rest e ws where w: "write_out (writes s) (c_out c) = (w, rest, e, ws)" by (rule prod_cases4)
  let ?c = "c\<lparr>c_out := rest, c_sent := c_sent c @ w\<rparr>"
  let ?s = "set_conn g ?c (s\<lparr>writes := ws\<rparr>)"
  have "live_ok X M g ?c" if "live_ok X M g c"
    using that write_out_all [OF w] by (simp add: live_ok_def conn_ok_def)
  then have s: "http_ok X ?s M"
    using assms Some http_ok_conn [OF assms _ Some] by (intro http_ok_set [where M = M and c = c]) auto
  have "http_ok X (close_conn g (?s\<lparr>watched := x\<rparr>)) M" "http_ok X (close_conn g ?s) M" for x
    using http_ok_close [of X ?s M g M X] http_ok_close [of X "?s\<lparr>watched := x\<rparr>" M g M X] s by (auto simp: update_conv')
  then show ?thesis using s Some w by (auto simp: flush_def Let_def split: flush_end.split)
qed (use assms in \<open>simp add: flush_def\<close>)

lemma list_all2_snoc: "list_all2 P xs ys \<Longrightarrow> P x y \<Longrightarrow> list_all2 P (xs @ [x]) (ys @ [y])"
  by (simp add: list_all2_appendI)

lemma put_response_ok:
  assumes "http_ok {} s (add_mset (g, keep) M)"
  shows "http_ok {g} (put_response (g, keep) r s) M"
proof (cases "map_of (conns s) g")
  case None
  then have "owed_to (add_mset (g, keep) M) h = owed_to M h" if "map_of (conns s) h = Some c" for h c
    using that by (auto simp: owed_to_def)
  then show ?thesis using assms None by (auto simp: put_response_def http_ok_def live_ok_def)
next
  case (Some c)
  let ?b = "response_bytes keep r"
  let ?c = "c\<lparr>c_out := c_out c @ ?b, close_after_write := \<not> keep, awaiting_handler := False, c_answered := c_answered c @ [?b]\<rparr>"
  have "live_ok {g} M g ?c" if l: "live_ok {} (add_mset (g, keep) M) g c"
  proof -
    from l have a: "awaiting_handler c" "owed_to M g = {#}" "keep = snd (last (c_handed c))"
      by (auto simp: live_ok_def split: if_splits)
    then have "c_handed c \<noteq> []" using l by (simp add: live_ok_def conn_ok_def)
    moreover have "list_all2 (\<lambda>x b. \<exists>r. b = response_bytes (snd x) r) (butlast (c_handed c) @ [last (c_handed c)]) (c_answered c @ [?b])"
      using l a by (intro list_all2_snoc) (auto simp: live_ok_def conn_ok_def served_def)
    ultimately show ?thesis using l a by (simp add: live_ok_def conn_ok_def served_def)
  qed
  then have "http_ok {g} (set_conn g ?c s) M"
    using http_ok_conn [OF assms _ Some] assms Some by (intro http_ok_set [where M = "add_mset (g, keep) M"]) auto
  then show ?thesis using flush_ok Some by (simp add: put_response_def)
qed

lemma not_resumes_ok:
  assumes "http_ok {g} s M" "\<not> resumes g s"
  shows "http_ok {} s M"
proof -
  have "live_ok {} M h c" if "live_ok {g} M h c" "map_of (conns s) h = Some c" for h c
    using that assms(2) by (cases "c_in c = []") (auto simp: live_ok_def resumes_def split: option.splits)
  then show ?thesis using assms(1) by (auto simp: http_ok_def)
qed

lemma accept_one_ok:
  assumes "http_ok {} s M"
  shows "http_ok {} (accept_one x s) M"
proof (cases "gen_wrapped (accept_one x s)")
  case False
  obtain f nb rg where x: "x = (f, nb, rg)" by (rule prod_cases3)
  let ?g = "next_gen s"
  show ?thesis
  proof (cases nb)
    case True
    with False x have w: "\<not> gen_wrapped s" "?g + 1 \<noteq> 0" by (auto simp: accept_one_def Let_def split: if_splits)
    have lt: "?g < ?g + 1" by (rule word_less_succ [OF w(2)]) simp
    have b: "\<And>h c. map_of (conns s) h = Some c \<Longrightarrow> live_ok {} M h c \<and> h < ?g" "\<And>re. re \<in># M \<Longrightarrow> fst re < ?g"
      using assms w by (auto simp: http_ok_def)
    have "re \<notin># owed_to M ?g" for re using b(2) [of re] by (auto simp: owed_to_def)
    then have "owed_to M ?g = {#}" by (meson multiset_nonemptyE)
    then have "live_ok {} M ?g (Conn0\<lparr>c_fd := f\<rparr>)"
      by (simp add: live_ok_def conn_ok_def served_def Conn0_def)
    moreover have "h < ?g + 1" if "h < ?g" for h using that lt by (rule less_trans)
    ultimately show ?thesis using assms w lt b x True
      by (auto simp: http_ok_def accept_one_def Let_def simp del: map_of_eq_Some_iff split: if_splits)
  qed (use assms x in \<open>simp add: accept_one_def\<close>)
qed (simp add: http_ok_def)

lemma accept_ok: "http_ok {} s M \<Longrightarrow> http_ok {} (accept_ready xs s) M"
  unfolding accept_ready_def by (induction xs arbitrary: s) (auto intro: accept_one_ok)


section \<open>Applications\<close>

text \<open>
  The interface a handler keeps: whatever it does with a request, each \<open>Respond\<close> it holds afterwards or has
  called is one it held before or the one it was given.
\<close>

locale http_app =
  fixes ap :: "('h, 'a) application" and held :: "'a \<Rightarrow> Respond multiset"
  assumes handler_held: "ap h req re a = Some (rs, a') \<Longrightarrow> held a' + image_mset fst (mset rs) = add_mset re (held a)"
begin

lemma try_parse_ok:
  assumes ok: "http_ok {g} s (held a + N)" and p: "try_parse ap g (s, a) = Some (rs, s', a')"
    and idle: "\<And>c. map_of (conns s) g = Some c \<Longrightarrow> \<not> awaiting_handler c"
  shows "http_ok {} s' (held a' + image_mset fst (mset rs) + N)"
proof (cases "map_of (conns s) g")
  case None
  then show ?thesis using ok p not_resumes_ok [of g s "held a + N"] by (simp add: try_parse_def resumes_def)
next
  case (Some c)
  show ?thesis
  proof (cases "parse_request (c_in c)")
    case Incomplete
    then have "live_ok {} M h d" if "live_ok {g} M h d" "map_of (conns s) h = Some d" for M h d
      using that Some by (auto simp: live_ok_def)
    then show ?thesis using ok p Some Incomplete by (auto simp: try_parse_def http_ok_def)
  next
    case Malformed
    then show ?thesis using ok p Some http_ok_close [OF ok, of g] by (auto simp: try_parse_def)
  next
    case (Parsed r k rest)
    let ?c = "c\<lparr>c_in := rest, awaiting_handler := True, c_handed := c_handed c @ [(r, k)]\<rparr>"
    have s': "s' = set_conn g ?c s" and m: "held a' + image_mset fst (mset rs) = add_mset (g, k) (held a)"
      using p Some Parsed by (auto simp: try_parse_def Let_def dest: handler_held split: option.splits)
    have "live_ok {} (add_mset (g, k) (held a) + N) g ?c" if "live_ok {g} (held a + N) g c"
      using that idle [OF Some] takes_snoc [OF _ Parsed] by (auto simp: live_ok_def conn_ok_def served_def)
    then show ?thesis unfolding s' m
      using http_ok_conn [OF ok _ Some] ok Some by (intro http_ok_set [where M = "held a + N"]) auto
  qed
qed

lemma deliver_ok:
  "deliver f rs (s, a) = Some (s', a') \<Longrightarrow> f = ap \<Longrightarrow> http_ok {} s (held a + image_mset fst (mset rs)) \<Longrightarrow> http_ok {} s' (held a')"
proof (induction f rs "(s, a)" arbitrary: s a rule: deliver.induct)
  case (2 f re r rs s a)
  note f = 2(4)
  let ?s = "put_response re r s"
  have ok: "http_ok {fst re} ?s (held a + image_mset fst (mset rs))"
    using put_response_ok [of s "fst re" "snd re" "held a + image_mset fst (mset rs)" r] 2(5) by simp
  show ?case
  proof (cases "resumes (fst re) ?s")
    case True
    then obtain rs' s1 a1 where p: "try_parse f (fst re) (?s, a) = Some (rs', s1, a1)"
      using 2(3) by (auto simp: deliver.simps split: option.splits)
    have "http_ok {} s1 (held a1 + image_mset fst (mset rs') + image_mset fst (mset rs))"
      by (rule try_parse_ok [OF ok p [unfolded f]]) (use True in \<open>auto simp: resumes_def\<close>)
    then show ?thesis using 2(1) [OF refl True p refl] 2(3) p True f by (simp add: deliver.simps ac_simps)
  next
    case False
    then show ?thesis using 2(2) [OF refl False] not_resumes_ok [OF ok False] 2(3) f by (simp add: deliver.simps)
  qed
qed (simp add: deliver.simps)

lemma conn_input_ok:
  assumes ok: "http_ok {} s (held a)" and i: "conn_input ap g rds (s, a) = Some (s', a')"
  shows "http_ok {} s' (held a')"
proof (cases "map_of (conns s) g")
  case (Some c)
  show ?thesis
  proof (cases "read_data rds (length (c_in c))")
    case None
    then show ?thesis using i Some http_ok_close [OF ok, of g] by (auto simp: conn_input_def)
  next
    case (Some b)
    let ?c = "c\<lparr>c_in := c_in c @ b, c_received := c_received c @ b\<rparr>"
    let ?s = "set_conn g ?c s"
    have l: "live_ok (if awaiting_handler c then {} else {g}) (held a) g ?c" if "live_ok {} (held a) g c"
      using that takes_append by (auto simp: live_ok_def conn_ok_def)
    have "gen_wrapped s \<or> live_ok (if awaiting_handler c then {} else {g}) (held a) g ?c"
      using l http_ok_conn [OF ok _ \<open>map_of (conns s) g = Some c\<close>] by blast
    from http_ok_set [OF ok \<open>map_of (conns s) g = Some c\<close> this]
    have ok1: "http_ok (if awaiting_handler c then {} else {g}) ?s (held a)" by (simp add: subset_insertI)
    show ?thesis
    proof (cases "awaiting_handler c")
      case True
      then show ?thesis using ok1 i Some \<open>map_of (conns s) g = Some c\<close> by (simp add: conn_input_def)
    next
      case False
      then obtain rs s1 a1 where p: "try_parse ap g (?s, a) = Some (rs, s1, a1)" and d: "deliver ap rs (s1, a1) = Some (s', a')"
        using i Some \<open>map_of (conns s) g = Some c\<close> by (auto simp: conn_input_def Let_def split: option.splits)
      have "http_ok {} s1 (held a1 + image_mset fst (mset rs))"
        using try_parse_ok [of g ?s a "{#}", OF _ p] ok1 False by simp
      then show ?thesis by (rule deliver_ok [OF d refl])
    qed
  qed
qed (use assms in \<open>simp add: conn_input_def\<close>)

lemma conn_ready_ok:
  assumes "http_ok {} s (held a)" "conn_ready ap g ev rds (s, a) = Some (s', a')"
  shows "http_ok {} s' (held a')"
  using assms conn_input_ok [OF assms(1), of g rds] http_ok_close [OF assms(1), of g] flush_ok
  by (auto simp: conn_ready_def split: if_splits option.splits)

end


text \<open>Facts on the state of an application that every handler keeps hold of the whole server.\<close>

locale app_invariant =
  fixes ap :: "('h, 'a) application" and P :: "'a \<Rightarrow> bool"
  assumes handler_keeps: "ap h req re a = Some (rs, a') \<Longrightarrow> P a \<Longrightarrow> P a'"
begin

lemma try_parse_keeps: "try_parse ap g (s, a) = Some (rs, s', a') \<Longrightarrow> P a \<Longrightarrow> P a'"
  by (auto simp: try_parse_def Let_def intro: handler_keeps split: option.splits parsed.splits)

lemma deliver_keeps: "deliver f rs (s, a) = Some (s', a') \<Longrightarrow> f = ap \<Longrightarrow> P a \<Longrightarrow> P a'"
proof (induction f rs "(s, a)" arbitrary: s a rule: deliver.induct)
  case (2 f re r rs s a)
  let ?s = "put_response re r s"
  show ?case
  proof (cases "resumes (fst re) ?s")
    case True
    then obtain rs' s1 a1 where p: "try_parse f (fst re) (?s, a) = Some (rs', s1, a1)"
      using 2(3) by (auto simp: deliver.simps split: option.splits)
    then have "P a1" using try_parse_keeps 2(4,5) by blast
    then show ?thesis using 2(1) [OF refl True p refl] 2(3,4) p True by (simp add: deliver.simps)
  next
    case False
    then show ?thesis using 2(2) [OF refl False] 2(3-5) by (simp add: deliver.simps)
  qed
qed (simp add: deliver.simps)

lemma conn_ready_keeps:
  assumes "conn_ready ap g ev rds (s, a) = Some (s', a')" "P a"
  shows "P a'"
proof -
  have "P a2" if "conn_input ap g rds (s, a) = Some (s2, a2)" for s2 a2
    using that assms(2) try_parse_keeps deliver_keeps [OF _ refl]
    by (auto simp: conn_input_def Let_def split: option.splits if_splits)
  then show ?thesis using assms by (auto simp: conn_ready_def split: if_splits option.splits)
qed

end

end
