(* ===== verification/Doubles.thy ===== *)
theory Doubles
  imports Complex_Main "HOL-Library.Log_Nat"
begin

text \<open>
  The C++ type \<open>double\<close> (IEEE 754 binary64): a double is the rational number it stands for, and every
  operation rounds its exact result to the nearest double, ties to even. Infinities and
  not-a-number are left out: the numbers of this program stay far below two to the 1024th, and it
  divides by no zero.
\<close>

section \<open>Rounding\<close>

definition round_even :: "rat \<Rightarrow> int" where
  "round_even r = (let f = \<lfloor>r\<rfloor>; d = r - of_int f in if d < 1 / 2 \<or> d = 1 / 2 \<and> even f then f else f + 1)"

text \<open>The binary exponent of a positive number.\<close>

definition ilog2 :: "rat \<Rightarrow> int" where
  "ilog2 x = (let (a, b) = quotient_of x; k = bitlen a - bitlen b in if 2 powi k \<le> x then k else k - 1)"

text \<open>The unit in the last place: 53 digits, or the least positive double.\<close>

definition ulp :: "rat \<Rightarrow> rat" where
  "ulp x = 2 powi (max (- 1074) (ilog2 \<bar>x\<bar> - 52))"

definition dbl :: "rat \<Rightarrow> rat" where
  "dbl x = (if x = 0 then 0 else of_int (round_even (x / ulp x)) * ulp x)"

definition dbl_of_nat :: "nat \<Rightarrow> rat" where
  "dbl_of_nat n = dbl (of_nat n)"


section \<open>Facts on rounding\<close>

lemma round_even_of_int [simp]: "round_even (of_int k) = k"
  by (simp add: round_even_def)

lemma round_even_near: "\<bar>of_int (round_even r) - r\<bar> \<le> 1 / 2"
proof -
  have "of_int \<lfloor>r\<rfloor> \<le> r" "r < of_int \<lfloor>r\<rfloor> + 1" by linarith+
  then show ?thesis by (auto simp: round_even_def Let_def)
qed

lemma ilog2_bounds:
  assumes "0 < x"
  shows "2 powi (ilog2 x) \<le> x" "x < 2 powi (ilog2 x + 1)"
proof -
  obtain a b where q: "quotient_of x = (a, b)" by fastforce
  have b: "0 < b" using quotient_of_denom_pos [OF q] .
  have x: "x = of_int a / of_int b" by (rule quotient_of_div [OF q])
  have a: "0 < a" using assms b x by (simp add: zero_less_divide_iff)
  have l: "0 < bitlen a" "0 < bitlen b" using a b bitlen_nonneg bitlen_eq_zero_iff by (metis le_less not_le order_less_imp_le)+
  have pw: "(of_int (2 ^ nat k) :: rat) = 2 powi k" if "0 \<le> k" for k using that by (simp add: power_int_def)
  have A: "2 powi (bitlen a - 1) \<le> (of_int a :: rat)" "(of_int a :: rat) < 2 powi bitlen a"
    using bitlen_bounds [of a] a l pw [of "bitlen a - 1"] pw [of "bitlen a"] by (metis of_int_le_iff zle_diff1_eq diff_ge_0_iff_ge less_imp_le zero_less_imp_eq_int, metis of_int_less_iff less_imp_le)
  have B: "2 powi (bitlen b - 1) \<le> (of_int b :: rat)" "(of_int b :: rat) < 2 powi bitlen b"
    using bitlen_bounds [of b] b l pw [of "bitlen b - 1"] pw [of "bitlen b"] by (metis of_int_le_iff zle_diff1_eq diff_ge_0_iff_ge less_imp_le zero_less_imp_eq_int, metis of_int_less_iff less_imp_le)
  let ?k = "bitlen a - bitlen b"
  have "2 powi (?k - 1) \<le> x"
  proof -
    have "2 powi (?k - 1) * of_int b \<le> 2 powi (?k - 1) * (2 powi bitlen b :: rat)" using B(2) by (intro mult_left_mono) simp_all
    also have "\<dots> = 2 powi (bitlen a - 1)" by (simp flip: power_int_add)
    also have "\<dots> \<le> of_int a" by (rule A(1))
    finally show ?thesis using b by (simp add: x pos_le_divide_eq)
  qed
  moreover have "x < 2 powi (?k + 1)"
  proof -
    have "of_int a < (2 powi bitlen a :: rat)" by (rule A(2))
    also have "\<dots> = 2 powi (?k + 1) * 2 powi (bitlen b - 1)" by (simp flip: power_int_add)
    also have "\<dots> \<le> 2 powi (?k + 1) * of_int b" using B(1) by (intro mult_left_mono) simp_all
    finally show ?thesis using b by (simp add: x pos_divide_less_eq)
  qed
  ultimately show "2 powi (ilog2 x) \<le> x" "x < 2 powi (ilog2 x + 1)"
    by (auto simp: ilog2_def q Let_def)
qed

lemma ulp_pos [simp]: "0 < ulp x"
  by (simp add: ulp_def)

text \<open>The result is a nearest multiple of the unit.\<close>

lemma dbl_near: "\<bar>dbl x - x\<bar> \<le> ulp x / 2"
proof (cases "x = 0")
  case False
  have u: "0 < ulp x" "ulp x \<noteq> 0" by (simp_all add: less_imp_neq [symmetric] ulp_def)
  then have "dbl x - x = (of_int (round_even (x / ulp x)) - x / ulp x) * ulp x"
    using False by (simp add: dbl_def left_diff_distrib)
  then have "\<bar>dbl x - x\<bar> = \<bar>of_int (round_even (x / ulp x)) - x / ulp x\<bar> * ulp x"
    using u by (simp only: abs_mult abs_of_pos)
  also have "\<dots> \<le> 1 / 2 * ulp x" by (intro mult_right_mono round_even_near) (simp add: less_imp_le)
  finally show ?thesis by simp
qed (simp add: dbl_def less_imp_le)

text \<open>Counts below two to the 53rd are exact.\<close>

lemma dbl_of_small_nat:
  assumes "n < 2 ^ 53"
  shows "dbl_of_nat n = of_nat n"
proof (cases "n = 0")
  case False
  then have n: "(0 :: rat) < of_nat n" by simp
  have "(2 :: rat) powi (ilog2 (of_nat n)) \<le> of_nat n" by (rule ilog2_bounds(1) [OF n])
  also have "\<dots> < 2 powi 53" using assms by (metis of_nat_less_iff of_nat_numeral of_nat_power power_int_numeral)
  finally have "ilog2 (of_nat n) < 53" using power_int_increasing [of 53 "ilog2 (of_nat n)" "2 :: rat"] by (cases "ilog2 (of_nat n) < 53") simp_all
  then have e: "max (- 1074) (ilog2 (of_nat n) - 52) \<le> 0" by simp
  define k where "k = nat (- max (- 1074) (ilog2 (of_nat n) - 52))"
  have u: "ulp (of_nat n) = 1 / 2 ^ k" using e by (simp add: ulp_def k_def power_int_def inverse_eq_divide power_one_over)
  have "of_nat n / ulp (of_nat n) = (of_int (int n * 2 ^ k) :: rat)" by (simp add: u)
  then have "round_even (of_nat n / ulp (of_nat n)) = int n * 2 ^ k" by (simp only: round_even_of_int)
  then show ?thesis using False by (simp add: dbl_of_nat_def dbl_def u)
qed (simp add: dbl_of_nat_def dbl_def)

text \<open>Powers of two scale a double exactly.\<close>

lemma powi_less: "(2 :: rat) powi k < 2 powi l \<Longrightarrow> k < l"
  using power_int_increasing [of l k "2 :: rat"] by (cases "k < l") simp_all

lemma ilog2_scale: "0 < x \<Longrightarrow> ilog2 (x * 2 ^ i) = ilog2 x + int i"
proof -
  assume x: "0 < x"
  have s: "(2 :: rat) powi (k + int i) = 2 powi k * 2 ^ i" for k by (simp add: power_int_add)
  have "0 < x * 2 ^ i" using x by simp
  note b = ilog2_bounds [OF this]
  have "2 powi (ilog2 x + int i) < (2 :: rat) powi (ilog2 (x * 2 ^ i) + 1)"
    by (rule le_less_trans [OF _ b(2)]) (simp add: s ilog2_bounds(1) [OF x])
  moreover have "(2 :: rat) powi (ilog2 (x * 2 ^ i)) < 2 powi (ilog2 x + 1 + int i)"
    by (rule le_less_trans [OF b(1)]) (simp only: s, simp add: ilog2_bounds(2) [OF x])
  ultimately have "ilog2 x + int i < ilog2 (x * 2 ^ i) + 1" "ilog2 (x * 2 ^ i) < ilog2 x + 1 + int i"
    by (simp_all only: powi_less)
  then show ?thesis by simp
qed

lemma dbl_scale:
  assumes "0 < x" "- 1022 \<le> ilog2 x"
  shows "dbl (x * 2 ^ i) = dbl x * 2 ^ i"
proof -
  have "ulp (x * 2 ^ i) = ulp x * 2 ^ i"
    using assms ilog2_scale [OF assms(1), of i] power_int_add [of "2 :: rat" "ilog2 x - 52" "int i"]
    by (simp add: ulp_def abs_mult max_def algebra_simps)
  then show ?thesis using assms(1) by (simp add: dbl_def)
qed

lemma dbl_thousandth: "dbl (1 / 1000) = 1152921504606847 / 2 ^ 60" "dbl (1152921504606847 / 2 ^ 60) = 1152921504606847 / 2 ^ 60"
  "ilog2 (1152921504606847 / 2 ^ 60) = - 10"
  by code_simp+

end
