(* ===== verification/Metrics.thy ===== *)
theory Metrics
  imports Doubles Std_String
begin

text \<open>
  The Prometheus page: \<^verbatim>\<open>src/src/metrics.h\<close> and \<^verbatim>\<open>src/src/metrics.cc\<close>. Every sum and product of
  doubles is rounded as in \<open>Doubles\<close>, and every line goes through a buffer of 256 bytes.
\<close>

section \<open>Formatting\<close>

text \<open>\<open>%.<k>f\<close> of a number that is not negative.\<close>

definition fixed :: "nat \<Rightarrow> rat \<Rightarrow> string" where
  "fixed k r = (let n = nat (round_even (r * 10 ^ k)) in to_string (n div 10 ^ k) @ ''.'' @ dec_digits k (n mod 10 ^ k))"

definition append_line :: "string \<Rightarrow> string \<Rightarrow> string" where
  "append_line line out = out @ take 255 line"

definition quote :: string where "quote = [CHR 0x22]"
definition newline :: string where "newline = [CHR 0x0A]"

definition render_counter :: "string \<Rightarrow> string \<Rightarrow> u64 \<Rightarrow> string \<Rightarrow> string" where
  "render_counter name labels v = append_line (name @ labels @ '' '' @ to_string (unat v) @ newline)"

definition render_gauge :: "string \<Rightarrow> string \<Rightarrow> rat \<Rightarrow> string \<Rightarrow> string" where
  "render_gauge name labels v = append_line (name @ labels @ '' '' @ fixed 6 v @ newline)"


section \<open>Histograms\<close>

definition kBuckets :: nat where "kBuckets = 17"

definition bucket_bound :: "nat \<Rightarrow> rat" where
  "bucket_bound i = dbl (dbl (1 / 1000) * dbl_of_nat (2 ^ i))"

record Histogram =
  counts :: "u64 list"
  hsum :: rat
  htotal :: u64

definition Histogram0 :: Histogram where
  "Histogram0 = \<lparr>counts = replicate (kBuckets + 1) 0, hsum = 0, htotal = 0\<rparr>"

definition bucket_of :: "rat \<Rightarrow> nat" where
  "bucket_of x = (case find (\<lambda>i. x \<le> bucket_bound i) [0..<kBuckets] of Some i \<Rightarrow> i | None \<Rightarrow> kBuckets)"

definition observe :: "rat \<Rightarrow> Histogram \<Rightarrow> Histogram" where
  "observe x h =
    (let i = bucket_of x
     in h\<lparr>counts := (counts h)[i := counts h ! i + 1], hsum := dbl (hsum h + x), htotal := htotal h + 1\<rparr>)"

definition bucket_line :: "string \<Rightarrow> string \<Rightarrow> u64 \<Rightarrow> string" where
  "bucket_line name le cum = name @ ''_bucket{le='' @ quote @ le @ quote @ ''} '' @ to_string (unat cum) @ newline"

definition render_buckets :: "string \<Rightarrow> u64 list \<Rightarrow> string \<Rightarrow> u64 \<times> string" where
  "render_buckets name cs out =
    fold (\<lambda>i (cum, out). (cum + cs ! i, append_line (bucket_line name (fixed 3 (bucket_bound i)) (cum + cs ! i)) out))
      [0..<kBuckets] (0, out)"

definition render :: "string \<Rightarrow> Histogram \<Rightarrow> string \<Rightarrow> string" where
  "render name h out =
    (let (cum, out) = render_buckets name (counts h) out;
         cum = cum + counts h ! kBuckets;
         out = append_line (bucket_line name ''+Inf'' cum) out;
         out = append_line (name @ ''_sum '' @ fixed 6 (hsum h) @ newline) out
     in append_line (name @ ''_count '' @ to_string (unat (htotal h)) @ newline) out)"


section \<open>What the page shows\<close>

text \<open>Observations in a bucket of index at most \<open>i\<close> are those not above its bound.\<close>

lemma find_first: "find P [a..<b] = Some i \<Longrightarrow> a \<le> i \<and> i < b \<and> P i \<and> (\<forall>k. a \<le> k \<and> k < i \<longrightarrow> \<not> P k)"
  by (auto simp: find_Some_iff nth_upt) (metis add.commute add_less_cancel_left le_Suc_ex)

text \<open>The products that give the bounds are exact: the double next to 0.001, doubled each time.\<close>

lemma bucket_bound_value:
  assumes "i < kBuckets"
  shows "bucket_bound i = 1152921504606847 / 2 ^ 60 * 2 ^ i"
proof -
  have "(2 :: nat) ^ i < 2 ^ 53" using assms by (intro power_strict_increasing) (simp_all add: kBuckets_def)
  then have "dbl_of_nat (2 ^ i) = 2 ^ i" by (simp add: dbl_of_small_nat)
  then show ?thesis
    unfolding bucket_bound_def dbl_thousandth(1)
    using dbl_scale [of "1152921504606847 / 2 ^ 60" i] dbl_thousandth(2,3) by simp
qed

lemma bucket_bound_mono: "i \<le> k \<Longrightarrow> k < kBuckets \<Longrightarrow> bucket_bound i \<le> bucket_bound k"
  by (simp add: bucket_bound_value power_increasing)

lemma bucket_of_bound: "bucket_of x \<le> kBuckets"
  by (auto simp: bucket_of_def dest: find_first split: option.split)

lemma bucket_of_le: "i < kBuckets \<Longrightarrow> bucket_of x \<le> i \<longleftrightarrow> x \<le> bucket_bound i"
proof (cases "find (\<lambda>i. x \<le> bucket_bound i) [0..<kBuckets]")
  case (Some k)
  assume i: "i < kBuckets"
  have k: "x \<le> bucket_bound k" "\<And>l. l < k \<Longrightarrow> \<not> x \<le> bucket_bound l" using find_first [OF Some] by simp_all
  have "x \<le> bucket_bound i" if "k \<le> i" using k(1) bucket_bound_mono [OF that i] by (rule order_trans)
  then have "k \<le> i \<longleftrightarrow> x \<le> bucket_bound i" using k(2) by (metis not_le)
  then show ?thesis using Some by (simp add: bucket_of_def)
next
  case None
  assume "i < kBuckets"
  then show ?thesis using None find_None_iff [of "\<lambda>i. x \<le> bucket_bound i" "[0..<kBuckets]"] by (auto simp: bucket_of_def)
qed

definition running_sum :: "rat list \<Rightarrow> rat" where
  "running_sum xs = fold (\<lambda>x s. dbl (s + x)) xs 0"

definition seen_in :: "rat list \<Rightarrow> nat \<Rightarrow> u64" where
  "seen_in xs i = of_nat (length (filter (\<lambda>x. bucket_of x = i) xs))"

lemma observe_all:
  "counts (fold observe xs Histogram0) = map (seen_in xs) [0..<kBuckets + 1] \<and>
   hsum (fold observe xs Histogram0) = running_sum xs \<and> htotal (fold observe xs Histogram0) = of_nat (length xs)"
proof (induction xs rule: rev_induct)
  case Nil
  then show ?case by (simp add: Histogram0_def seen_in_def running_sum_def map_replicate_const)
next
  case (snoc x xs)
  let ?h = "fold observe xs Histogram0"
  have "(counts ?h)[bucket_of x := counts ?h ! bucket_of x + 1] = map (seen_in (xs @ [x])) [0..<kBuckets + 1]"
    using snoc bucket_of_bound [of x] by (intro nth_equalityI) (auto simp: nth_list_update seen_in_def nth_append)
  then show ?case using snoc by (simp add: observe_def running_sum_def Let_def)
qed

lemma render_buckets_seen:
  assumes "\<And>i. i < kBuckets \<Longrightarrow> cs ! i = seen_in xs i"
  shows "render_buckets name cs out = (of_nat (length (filter (\<lambda>x. bucket_of x < kBuckets) xs)),
    out @ concat (map (\<lambda>i. take 255 (bucket_line name (fixed 3 (bucket_bound i))
      (of_nat (length (filter (\<lambda>x. x \<le> bucket_bound i) xs))))) [0..<kBuckets]))"
proof -
  have f: "of_nat (length (filter (\<lambda>x. bucket_of x < k) xs)) + seen_in xs k =
      (of_nat (length (filter (\<lambda>x. bucket_of x < Suc k) xs)) :: u64)" for k
    unfolding seen_in_def by (induction xs) (auto simp: less_Suc_eq)
  have "fold (\<lambda>i (cum, out). (cum + cs ! i, append_line (bucket_line name (fixed 3 (bucket_bound i)) (cum + cs ! i)) out))
      [0..<k] (0, out) = (of_nat (length (filter (\<lambda>x. bucket_of x < k) xs)),
        out @ concat (map (\<lambda>i. take 255 (bucket_line name (fixed 3 (bucket_bound i))
          (of_nat (length (filter (\<lambda>x. x \<le> bucket_bound i) xs))))) [0..<k]))" if "k \<le> kBuckets" for k
    using that
  proof (induction k)
    case (Suc k)
    have "filter (\<lambda>x. bucket_of x < Suc k) xs = filter (\<lambda>x. x \<le> bucket_bound k) xs"
      using bucket_of_le Suc.prems by (intro filter_cong) (auto simp: less_Suc_eq_le)
    then show ?case using Suc assms [of k] f [of k] by (simp add: append_line_def)
  qed simp
  then show ?thesis by (simp add: render_buckets_def)
qed


section \<open>Properties\<close>

text \<open>
  C31. The page shows the observations: each bucket of a rendered histogram counts the observations that, as
  doubles, are not above its bound; the last bucket and the count line count all of them; the sum line shows
  the doubles added one after the other, each addition rounded. Counters have 64 bits and lines at most 255
  characters.
\<close>

theorem histogram_exact:
  "render name (fold observe xs Histogram0) out = out @
     concat (map (\<lambda>i. take 255 (bucket_line name (fixed 3 (bucket_bound i))
       (of_nat (length (filter (\<lambda>x. x \<le> bucket_bound i) xs))))) [0..<kBuckets]) @
     take 255 (bucket_line name ''+Inf'' (of_nat (length xs))) @
     take 255 (name @ ''_sum '' @ fixed 6 (running_sum xs) @ newline) @
     take 255 (name @ ''_count '' @ to_string (unat (of_nat (length xs) :: u64)) @ newline)"
proof -
  let ?h = "fold observe xs Histogram0"
  have h: "counts ?h = map (seen_in xs) [0..<kBuckets + 1]" "hsum ?h = running_sum xs" "htotal ?h = of_nat (length xs)"
    using observe_all [of xs] by simp_all
  have "of_nat (length (filter (\<lambda>x. bucket_of x < kBuckets) xs)) + seen_in xs kBuckets = (of_nat (length xs) :: u64)"
    unfolding seen_in_def using bucket_of_bound by (induction xs) (auto simp: le_less)
  then show ?thesis
    using h render_buckets_seen [of "counts ?h" xs name out] by (simp add: render_def Let_def append_line_def nth_append)
qed

end
