(* ===== verification/Gateway.thy ===== *)
theory Gateway
  imports Queue_Clock Http_Serving Metrics
begin

text \<open>
  The node process: \<^verbatim>\<open>src/src/node_main.cc\<close>, which serves the queue over HTTP. A client callback of the queue
  is a token, and the table \<open>gw_waiting\<close> keeps the \<open>Respond\<close> each token's closure captures; the answers the
  queue gives during an operation are sent when it returns.
\<close>

section \<open>Text\<close>

definition ntohl :: "u32 \<Rightarrow> u32" where
  "ntohl x = push_bit 24 x OR push_bit 8 (x AND 0xFF00) OR (drop_bit 8 x AND 0xFF00) OR drop_bit 24 x"

definition ep_str :: "Endpoint \<Rightarrow> string" where
  "ep_str e =
    (let a = ntohl (addr_be e)
     in take 31 (to_string (unat (drop_bit 24 a AND 0xFF)) @ ''.'' @ to_string (unat (drop_bit 16 a AND 0xFF)) @ ''.'' @
          to_string (unat (drop_bit 8 a AND 0xFF)) @ ''.'' @ to_string (unat (a AND 0xFF)) @ '':'' @
          to_string (unat (ntohs (port_be e)))))"

text \<open>\<open>taut::make_endpoint\<close> is the parameter \<open>mk\<close>; the outer \<open>None\<close> is the exception of \<open>std::stoul\<close>.\<close>

definition parse_ep :: "(string \<Rightarrow> u16 \<Rightarrow> Endpoint option) \<Rightarrow> string \<Rightarrow> Endpoint option option" where
  "parse_ep mk s =
    (case find_sub '':'' s of
       None \<Rightarrow> Some None
     | Some colon \<Rightarrow>
        (case parse_u64 (drop (colon + 1) s) of
           None \<Rightarrow> None
         | Some p \<Rightarrow> Some (mk (take colon s) (ucast p))))"

function parse_peers :: "(string \<Rightarrow> u16 \<Rightarrow> Endpoint option) \<Rightarrow> string \<Rightarrow> nat \<Rightarrow> Endpoint list option" where
  "parse_peers mk s k =
    (if k < length s then
      (let comma = (case find_at '','' s k of None \<Rightarrow> length s | Some c \<Rightarrow> c) in
       case parse_ep mk (substr s k (comma - k)) of
         None \<Rightarrow> None
       | Some p \<Rightarrow>
          (case parse_peers mk s (comma + 1) of
             None \<Rightarrow> None
           | Some ps \<Rightarrow> Some (case p of None \<Rightarrow> ps | Some e \<Rightarrow> e # ps)))
     else Some [])"
  by pat_completeness auto
termination
  by (relation "measure (\<lambda>(mk, s, k). length s - k)") (auto dest: find_at_bound split: option.splits)

declare parse_peers.simps [simp del]

fun state_str :: "JobState \<Rightarrow> string" where
  "state_str Ready = ''ready''"
| "state_str Leased = ''leased''"
| "state_str Done = ''done''"
| "state_str DeadLetter = ''dead_letter''"
| "state_str _ = ''?''"

text \<open>\<open>None\<close> is the exception of \<open>std::stoul\<close>, which nothing catches.\<close>

definition qnum :: "Request \<Rightarrow> string \<Rightarrow> u32 \<Rightarrow> u32 option" where
  "qnum r k dflt = (case map_of (rq_query r) k of None \<Rightarrow> Some dflt | Some v \<Rightarrow> map_option ucast (parse_u64 v))"

definition http_code :: "u32 \<Rightarrow> nat" where
  "http_code s =
    (if s = kCreated then 200
     else if s = kDuplicate then 200
     else if s = kInvalid then 400
     else if s = kUnknownJob then 404
     else if s = kNotLeased \<or> s = kNotOwner \<or> s = kStaleEpoch then 409
     else 503)"

definition string_of_bytes :: "bytes \<Rightarrow> string" where
  "string_of_bytes b = map char_of_byte b"

definition json :: "nat \<Rightarrow> string \<Rightarrow> Response" where
  "json code b = \<lparr>rs_code = code, rs_type = ''application/json'', rs_body = b @ newline, rs_extra = []\<rparr>"

definition plain :: "nat \<Rightarrow> string \<Rightarrow> Response" where
  "plain code b = \<lparr>rs_code = code, rs_type = ''text/plain'', rs_body = b, rs_extra = []\<rparr>"

definition quoted :: "string \<Rightarrow> string" where
  "quoted s = quote @ s @ quote"


section \<open>Answers\<close>

definition submit_response :: "u32 \<Rightarrow> JobId \<Rightarrow> Response" where
  "submit_response s i =
    (let created = s = kCreated; dup = s = kDuplicate in
     if created \<or> dup then
       json (if created then 201 else 200)
         (''{'' @ quoted ''id'' @ '':'' @ quoted (to_hex i) @ '','' @ quoted ''status'' @ '':'' @
            quoted (if created then ''created'' else ''duplicate'') @ ''}'')
     else json (http_code s) (''{'' @ quoted ''error'' @ '':'' @ to_string (unat s) @ ''}''))"

definition lease_response :: "u32 \<Rightarrow> LeaseGrant \<Rightarrow> Response" where
  "lease_response s g =
    (if s = kCreated then
       \<lparr>rs_code = 200, rs_type = ''application/octet-stream'', rs_body = string_of_bytes (g_body g),
         rs_extra = [(''X-Tautq-Id'', to_hex (g_id g)), (''X-Tautq-Epoch'', to_string (unat (g_epoch g))),
           (''X-Tautq-Seq'', to_string (unat (g_lease_seq g))), (''X-Tautq-Url'', g_url g), (''X-Tautq-Key'', g_idem_key g),
           (''X-Tautq-Attempt'', to_string (unat (g_attempt g))),
           (''X-Tautq-Visibility-Ms'', to_string (unat (g_visibility_ms g)))]\<rparr>
     else if s = kNoJob then plain 204 []
     else plain (http_code s) (''unavailable'' @ newline))"

definition ack_response :: "u32 \<Rightarrow> Response" where
  "ack_response s = json (http_code s) (''{'' @ quoted ''status'' @ '':'' @ to_string (unat s) @ ''}'')"

definition status_response :: "JobId \<Rightarrow> u32 \<Rightarrow> Job option \<Rightarrow> Response" where
  "status_response i s j =
    (case j of
       Some j \<Rightarrow>
        if s \<noteq> kCreated then json 404 (''{'' @ quoted ''error'' @ '':'' @ quoted ''unknown'' @ ''}'')
        else json 200 (''{'' @ quoted ''id'' @ '':'' @ quoted (to_hex i) @ '','' @ quoted ''state'' @ '':'' @
          quoted (state_str (state j)) @ '','' @ quoted ''epoch'' @ '':'' @ to_string (unat (epoch j)) @ '','' @
          quoted ''attempts'' @ '':'' @ to_string (unat (attempts j)) @ '','' @ quoted ''owner'' @ '':'' @
          quoted (ep_str (owner j)) @ ''}'')
     | None \<Rightarrow> json 404 (''{'' @ quoted ''error'' @ '':'' @ quoted ''unknown'' @ ''}''))"

text \<open>
  The process around the queue: the node, the next token, the closures of the requests under way with the
  identifier a status request captures, how many answers of the queue are sent, the latency histogram
  and the count of membership changes. \<open>gw_events\<close> is not in the code: the operations made on the queue.
\<close>

record 's gateway =
  gw_node :: "'s node"
  gw_next :: token
  gw_waiting :: "(token \<times> Respond \<times> JobId) list"
  gw_seen :: nat
  gw_latency :: Histogram
  gw_churn :: u64
  gw_events :: "(membership \<times> event) list"

definition gateway_new :: "'s node \<Rightarrow> 's gateway" where
  "gateway_new n = \<lparr>gw_node = n, gw_next = 0, gw_waiting = [], gw_seen = length (out (snd n)), gw_latency = Histogram0,
     gw_churn = 0, gw_events = []\<rparr>"

definition answer :: "token \<Rightarrow> (JobId \<Rightarrow> Response) \<Rightarrow> 's gateway \<Rightarrow> (Respond \<times> Response) list \<times> 's gateway" where
  "answer t f g =
    (case List.find (\<lambda>w. fst w = t) (gw_waiting g) of
       None \<Rightarrow> ([], g)
     | Some w \<Rightarrow> ([(fst (snd w), f (snd (snd w)))], g\<lparr>gw_waiting := remove1 w (gw_waiting g)\<rparr>))"

fun take_reply :: "reply \<Rightarrow> 's gateway \<Rightarrow> (Respond \<times> Response) list \<times> 's gateway" where
  "take_reply (SubmitReply t s i) g = answer t (\<lambda>_. submit_response s i) g"
| "take_reply (LeaseReply t s gr) g = answer t (\<lambda>_. lease_response s gr) g"
| "take_reply (AckReply t s) g = answer t (\<lambda>_. ack_response s) g"
| "take_reply (StatusReply t s j) g = answer t (\<lambda>i. status_response i s j) g"
| "take_reply DrainReply g = ([], g)"
| "take_reply (LatencySample d) g = ([], g\<lparr>gw_latency := observe (dbl (dbl_of_nat d / 10 ^ 9)) (gw_latency g)\<rparr>)"

fun take_replies :: "reply list \<Rightarrow> 's gateway \<Rightarrow> (Respond \<times> Response) list \<times> 's gateway" where
  "take_replies [] g = ([], g)"
| "take_replies (x # xs) g =
    (let (rs, g) = take_reply x g; (rs', g) = take_replies xs g in (rs @ rs', g))"

definition queue_do :: "'s env \<Rightarrow> event \<Rightarrow> 's gateway \<Rightarrow> (Respond \<times> Response) list \<times> 's gateway" where
  "queue_do E e g =
    (let n = queue_event E e (gw_node g)
     in take_replies (drop (gw_seen g) (out (snd n)))
          (g\<lparr>gw_node := n, gw_seen := length (out (snd n)), gw_events := gw_events g @ [(e_mem E, e)]\<rparr>))"

definition ask :: "'s env \<Rightarrow> (token \<Rightarrow> event) \<Rightarrow> JobId \<Rightarrow> Respond \<Rightarrow> 's gateway \<Rightarrow> (Respond \<times> Response) list \<times> 's gateway" where
  "ask E e i re g =
    (let t = gw_next g in queue_do E (e t) (g\<lparr>gw_next := t + 1, gw_waiting := gw_waiting g @ [(t, re, i)]\<rparr>))"


section \<open>Handlers\<close>

datatype route_id = JobsRoute | LeaseRoute | AckRoute | StatusRoute | NodesRoute | DrainRoute | HealthRoute | MetricsRoute

definition lookup :: "string \<Rightarrow> Request \<Rightarrow> string" where
  "lookup k r = (case map_of (rq_query r) k of None \<Rightarrow> [] | Some v \<Rightarrow> v)"

definition node_list :: "Endpoint list \<Rightarrow> string" where
  "node_list es = ''['' @ snd (fold (\<lambda>e (first, s). (False, s @ (if first then [] else '','') @
     ''{'' @ quoted ''node'' @ '':'' @ quoted (ep_str e) @ ''}'')) es (True, [])) @ '']''"

definition owned_in :: "JobState \<Rightarrow> qnode \<Rightarrow> rat" where
  "owned_in x q = dbl_of_nat (length (filter (\<lambda>(i, j). owner j = self (cfg q) \<and> state j = x) (jobs (st q))))"

definition label :: "string \<Rightarrow> string \<Rightarrow> string" where
  "label k v = ''{'' @ k @ ''='' @ quoted v @ ''}''"

definition metrics_page :: "'s gateway \<Rightarrow> string" where
  "metrics_page g =
    (let q = snd (gw_node g); c = counters q;
         out = render_gauge ''tautq_queue_depth'' (label ''state'' ''ready'') (owned_in Ready q) [];
         out = render_gauge ''tautq_queue_depth'' (label ''state'' ''dead_letter'') (owned_in DeadLetter q) out;
         out = render_gauge ''tautq_jobs_done'' [] (owned_in Done q) out;
         out = render_gauge ''tautq_inflight_leases'' [] (owned_in Leased q) out;
         out = render_gauge ''tautq_replication_backlog'' [] (dbl_of_nat (length (repair q))) out;
         out = render_counter ''tautq_submits_total'' [] (submits c) out;
         out = render_counter ''tautq_duplicates_total'' [] (duplicates c) out;
         out = render_counter ''tautq_leases_granted_total'' [] (leases_granted c) out;
         out = render_counter ''tautq_completions_total'' (label ''result'' ''ok'') (completions_ok c) out;
         out = render_counter ''tautq_completions_total'' (label ''result'' ''fail'') (completions_failed c) out;
         out = render_counter ''tautq_expirations_total'' [] (expirations c) out;
         out = render_counter ''tautq_deadletters_total'' [] (deadletters c) out;
         out = render_counter ''tautq_takeovers_total'' [] (takeovers c) out;
         out = render_counter ''tautq_fenced_stale_total'' [] (fenced_stale c) out;
         out = render_counter ''tautq_membership_churn_total'' [] (gw_churn g) out
     in render ''tautq_job_latency_seconds'' (gw_latency g) out)"

fun handle :: "'s env \<Rightarrow> (route_id, 's gateway) application" where
  "handle E JobsRoute r re g =
    (case (qnum r ''visibility_ms'' 0, qnum r ''max_attempts'' 0) of
       (Some v, Some m) \<Rightarrow>
         Some (ask E (OnSubmit \<lparr>p_idem_key = lookup ''key'' r, p_url = lookup ''url'' r, p_body = map byte_of_char (rq_body r),
           p_visibility_ms = v, p_max_attempts = m\<rparr>) JobId0 re g)
     | _ \<Rightarrow> None)"
| "handle E LeaseRoute r re g =
    (case qnum r ''worker'' 0 of
       None \<Rightarrow> None
     | Some w \<Rightarrow> Some (ask E (OnLease (ucast w)) JobId0 re g))"
| "handle E AckRoute r re g =
    (case (case map_of (rq_query r) ''id'' of None \<Rightarrow> None | Some v \<Rightarrow> from_hex v) of
       None \<Rightarrow> Some ([(re, plain 400 (''bad id'' @ newline))], g)
     | Some i \<Rightarrow>
        (case (qnum r ''epoch'' 0, qnum r ''seq'' 0) of
           (Some ep, Some sq) \<Rightarrow> Some (ask E (OnAck i ep sq (map_of (rq_query r) ''result'' = Some ''ok'')) JobId0 re g)
         | _ \<Rightarrow> None))"
| "handle E StatusRoute r re g =
    (case from_hex (drop (length ''/v1/jobs/'') (rq_path r)) of
       None \<Rightarrow> Some ([(re, plain 400 (''bad id'' @ newline))], g)
     | Some i \<Rightarrow> Some (ask E (OnStatus i) i re g))"
| "handle E NodesRoute r re g = Some ([(re, json 200 (node_list (m_alive (e_mem E))))], g)"
| "handle E DrainRoute r re g =
    (let (rs, g) = queue_do E OnDrain g
     in Some (rs @ [(re, json 202 (''{'' @ quoted ''status'' @ '':'' @ quoted ''draining'' @ ''}''))], g))"
| "handle E HealthRoute r re g = Some ([(re, plain 200 (''ok'' @ newline))], g)"
| "handle E MetricsRoute r re g =
    Some ([(re, \<lparr>rs_code = 200, rs_type = ''text/plain; version=0.0.4'', rs_body = metrics_page g, rs_extra = []\<rparr>)], g)"

definition server :: "route_id http" where
  "server =
    add_route ''GET'' ''/metrics'' MetricsRoute (add_route ''GET'' ''/healthz'' HealthRoute (
      add_route ''POST'' ''/v1/drain'' DrainRoute (add_route ''GET'' ''/v1/nodes'' NodesRoute (
        add_route ''GET'' ''/v1/jobs/'' StatusRoute (add_route ''POST'' ''/v1/ack'' AckRoute (
          add_route ''POST'' ''/v1/lease'' LeaseRoute (add_route ''POST'' ''/v1/jobs'' JobsRoute http_new)))))))"


section \<open>The main loop\<close>

datatype member_state = Alive | Suspect | Dead

datatype main_event =
    Accept "(nat \<times> bool \<times> bool) list"
  | ConnEvent u64 events "read_result list"
  | DataReady
  | Turn
  | StateChange Endpoint member_state
  | Network socket
  | SocketWrites "write_result list"

definition serve_queue :: "'s env \<Rightarrow> event \<Rightarrow> route_id http \<times> 's gateway \<Rightarrow> (route_id http \<times> 's gateway) option" where
  "serve_queue E e = (\<lambda>(s, g). let (rs, g) = queue_do E e g in deliver (handle E) rs (s, g))"

primrec main_step :: "'s env \<Rightarrow> main_event \<Rightarrow> route_id http \<times> 's gateway \<Rightarrow> (route_id http \<times> 's gateway) option" where
  "main_step E (Accept xs) x = Some (accept_ready xs (fst x), snd x)"
| "main_step E (ConnEvent c ev rds) x = conn_ready (handle E) c ev rds x"
| "main_step E DataReady x = serve_queue E OnPoll x"
| "main_step E Turn x = do { x \<leftarrow> serve_queue E OnPoll x; serve_queue E OnTick x }"
| "main_step E (StateChange ep m) x =
    (let x = (fst x, (snd x)\<lparr>gw_churn := gw_churn (snd x) + 1\<rparr>)
     in case m of
          Dead \<Rightarrow> serve_queue E (OnPeerDead (data_endpoint ep)) x
        | Alive \<Rightarrow> serve_queue E (OnPeerAlive (data_endpoint ep)) x
        | Suspect \<Rightarrow> Some x)"
| "main_step E (Network sk) x = serve_queue E (OnSocket sk) x"
| "main_step E (SocketWrites ws) x = Some ((fst x)\<lparr>writes := ws\<rparr>, snd x)"

text \<open>Each event meets the liveness view of its time; \<open>None\<close> once an exception has ended the process.\<close>

fun main_run :: "'s env \<Rightarrow> (membership \<times> main_event) list \<Rightarrow> route_id http \<times> 's gateway \<Rightarrow> (route_id http \<times> 's gateway) option" where
  "main_run E [] x = Some x"
| "main_run E ((m, e) # xs) x = do { x \<leftarrow> main_step (E\<lparr>e_mem := m\<rparr>) e x; main_run E xs x }"


section \<open>Starting\<close>

definition NodeConfig0 :: NodeConfig where
  "NodeConfig0 = \<lparr>self = Endpoint0, data_dir = [], default_visibility_ms = 30000, default_max_attempts = 5,
     rpc_timeout = ms 1000, repair_interval = ms 2000\<rparr>"

record node_options =
  listen_s :: string
  data_dir_s :: string
  peers_s :: string
  http_port :: u16
  o_cfg :: NodeConfig

definition node_options0 :: node_options where
  "node_options0 = \<lparr>listen_s = [], data_dir_s = ''./tautq-data'', peers_s = [], http_port = 8080, o_cfg = NodeConfig0\<rparr>"

text \<open>
  How \<open>main\<close> may go on: it exits with a code, an exception of \<open>std::stoul\<close> ends it, a replay reads outside a
  buffer, or it goes on with a value.
\<close>

datatype 'a step = Exit nat | Throws | Undefined | Continue 'a

function node_args :: "string list \<Rightarrow> node_options \<Rightarrow> node_options step" where
  "node_args [] opts = Continue opts"
| "node_args (a # rest) opts =
    (if a = ''--listen'' then node_args (tl rest) (opts\<lparr>listen_s := next_arg rest\<rparr>)
     else if a = ''--http-port'' then (case parse_u64 (next_arg rest) of None \<Rightarrow> Throws | Some n \<Rightarrow> node_args (tl rest) (opts\<lparr>http_port := ucast n\<rparr>))
     else if a = ''--data-dir'' then node_args (tl rest) (opts\<lparr>data_dir_s := next_arg rest\<rparr>)
     else if a = ''--peers'' then node_args (tl rest) (opts\<lparr>peers_s := next_arg rest\<rparr>)
     else if a = ''--visibility-ms'' then
       (case parse_u64 (next_arg rest) of None \<Rightarrow> Throws | Some n \<Rightarrow> node_args (tl rest) (opts\<lparr>o_cfg := (o_cfg opts)\<lparr>default_visibility_ms := ucast n\<rparr>\<rparr>))
     else if a = ''--max-attempts'' then
       (case parse_u64 (next_arg rest) of None \<Rightarrow> Throws | Some n \<Rightarrow> node_args (tl rest) (opts\<lparr>o_cfg := (o_cfg opts)\<lparr>default_max_attempts := ucast n\<rparr>\<rparr>))
     else Exit 2)"
  by pat_completeness auto
termination
  by (relation "measure (\<lambda>(as, opts). length as)") auto

text \<open>
  What \<open>main\<close> finds around it: \<open>taut::make_endpoint\<close>, whether the sockets can be bound and the HTTP port listened on, the
  two values of the random device, the socket and the disk. A directory name is one path component.
\<close>

record host =
  make_endpoint :: "string \<Rightarrow> u16 \<Rightarrow> Endpoint option"
  can_bind :: bool
  can_listen :: bool
  random_hi :: u32
  random_lo :: u32
  udp :: socket
  hdisk :: disk

definition main_start :: "'s env \<Rightarrow> nat \<Rightarrow> host \<Rightarrow> string list \<Rightarrow> (SwimMembership \<times> route_id http \<times> 's gateway) step" where
  "main_start E sb h args =
    (case node_args args node_options0 of
       Exit k \<Rightarrow> Exit k
     | Throws \<Rightarrow> Throws
     | Undefined \<Rightarrow> Undefined
     | Continue opts \<Rightarrow>
      (case parse_ep (make_endpoint h) (listen_s opts) of
        None \<Rightarrow> Throws
      | Some None \<Rightarrow> Exit 2
      | Some (Some me) \<Rightarrow>
         (case parse_peers (make_endpoint h) (peers_s opts) 0 of
            None \<Rightarrow> Throws
          | Some ps \<Rightarrow>
             if \<not> can_bind h then Exit 1
             else
              (let b = push_bit 32 (ucast (random_hi h)) XOR ucast (random_lo h);
                   c = (o_cfg opts)\<lparr>self := me, data_dir := [data_dir_s opts]\<rparr>
               in case queue_open E (node_new c b (udp h) (hdisk h) sb) of
                    None \<Rightarrow> Undefined
                  | Some (False, n) \<Rightarrow> Exit 1
                  | Some (True, n) \<Rightarrow>
                     if \<not> can_listen h then Exit 1
                     else Continue (SwimMembership_new me (me # ps), server, gateway_new n)))))"

text \<open>A process that starts has opened its queue, which is what the runs below begin with.\<close>

lemma main_start_opened:
  assumes "main_start E sb h args = Continue (m, s, g)"
  shows "\<exists>c b n. queue_open E (node_new c b (udp h) (hdisk h) sb) = Some (True, n) \<and> s = server \<and> g = gateway_new n"
proof (cases "node_args args node_options0")
  case (Continue opts)
  with assms show ?thesis
    by (auto simp: main_start_def Let_def split: option.splits if_splits bool.splits prod.splits)
qed (use assms in \<open>simp_all add: main_start_def\<close>)

end
