(* ===== verification/Gateway_Runs.thy ===== *)
theory Gateway_Runs
  imports Gateway "HOL-Library.Sublist"
begin

text \<open>
  Whole runs of the node process: the HTTP server with the queue behind it. The handlers are an
  application of the server, and the closures they leave behind are the requests the queue holds.
\<close>

section \<open>The handlers answer once\<close>

definition gw_held :: "'s gateway \<Rightarrow> Respond multiset" where
  "gw_held g = image_mset (\<lambda>w. fst (snd w)) (mset (gw_waiting g))"

definition gw_tokens :: "'s gateway \<Rightarrow> token multiset" where
  "gw_tokens g = image_mset fst (mset (gw_waiting g))"

abbreviation responds :: "(Respond \<times> Response) list \<Rightarrow> Respond multiset" where
  "responds rs \<equiv> image_mset fst (mset rs)"

lemma gw_fields [simp]:
  "gw_held (g\<lparr>gw_node := n, gw_seen := k, gw_events := es\<rparr>) = gw_held g"
  "gw_held (g\<lparr>gw_latency := h\<rparr>) = gw_held g" "gw_held (g\<lparr>gw_churn := c\<rparr>) = gw_held g"
  "gw_held (g\<lparr>gw_next := k, gw_waiting := gw_waiting g @ [(t, re, i)]\<rparr>) = add_mset re (gw_held g)"
  "gw_tokens (g\<lparr>gw_node := n, gw_seen := k, gw_events := es\<rparr>) = gw_tokens g"
  "gw_tokens (g\<lparr>gw_latency := h\<rparr>) = gw_tokens g" "gw_tokens (g\<lparr>gw_churn := c\<rparr>) = gw_tokens g"
  "gw_tokens (g\<lparr>gw_next := k, gw_waiting := gw_waiting g @ [(t, re, i)]\<rparr>) = add_mset t (gw_tokens g)"
  by (simp_all add: gw_held_def gw_tokens_def)

text \<open>An answer frees one closure of its token, if there is one.\<close>

lemma answer_cases:
  assumes "answer t f g = (rs, g')"
  obtains "rs = []" "g' = g" "t \<notin># gw_tokens g"
  | w where "w \<in> set (gw_waiting g)" "fst w = t" "rs = [(fst (snd w), f (snd (snd w)))]" "g' = g\<lparr>gw_waiting := remove1 w (gw_waiting g)\<rparr>"
proof (cases "List.find (\<lambda>w. fst w = t) (gw_waiting g)")
  case None
  then have "\<not> (\<exists>w \<in> set (gw_waiting g). fst w = t)" unfolding find_None_iff by blast
  then show ?thesis using None assms that(1) by (force simp: answer_def gw_tokens_def)
next
  case (Some w)
  then have "w \<in> set (gw_waiting g)" "fst w = t" by (auto simp: find_Some_iff)
  then show ?thesis using Some assms that(2) [of w] by (auto simp: answer_def)
qed

lemma remove1_image: "w \<in> set ws \<Longrightarrow> add_mset (f w) (image_mset f (mset (remove1 w ws))) = image_mset f (mset ws)"
  by (simp flip: image_mset_add_mset)

lemma answer_held: "answer t f g = (rs, g') \<Longrightarrow> gw_held g' + responds rs = gw_held g"
  by (erule answer_cases) (use remove1_image [where f = "\<lambda>w. fst (snd w)"] in \<open>simp_all add: gw_held_def del: mset_remove1\<close>)

lemma answer_tokens:
  "answer t f g = (rs, g') \<Longrightarrow> t \<in># gw_tokens g \<Longrightarrow> add_mset t (gw_tokens g') = gw_tokens g"
  by (erule answer_cases) (use remove1_image [where f = fst] in \<open>auto simp: gw_tokens_def simp del: mset_remove1\<close>)

lemma answer_fields: "answer t f g = (rs, g') \<Longrightarrow> gw_node g' = gw_node g \<and> gw_seen g' = gw_seen g \<and> gw_events g' = gw_events g"
  by (erule answer_cases) simp_all

lemma take_reply_facts:
  assumes "take_reply x g = (rs, g')"
  shows "gw_held g' + responds rs = gw_held g" "gw_node g' = gw_node g \<and> gw_seen g' = gw_seen g \<and> gw_events g' = gw_events g"
    "reply_tokens x \<subseteq># gw_tokens g \<Longrightarrow> gw_tokens g' + reply_tokens x = gw_tokens g"
  using assms by (cases x; auto simp: answer_held answer_tokens dest: answer_fields)+

lemma take_replies_facts:
  assumes "take_replies xs g = (rs, g')"
  shows "gw_held g' + responds rs = gw_held g \<and> gw_node g' = gw_node g \<and> gw_seen g' = gw_seen g \<and> gw_events g' = gw_events g \<and>
    (sum_list (map reply_tokens xs) \<subseteq># gw_tokens g \<longrightarrow> gw_tokens g' + sum_list (map reply_tokens xs) = gw_tokens g)"
  using assms
proof (induction xs arbitrary: g rs)
  case (Cons x xs)
  obtain rs1 g1 where 1: "take_reply x g = (rs1, g1)" by fastforce
  obtain rs2 where 2: "take_replies xs g1 = (rs2, g')" "rs = rs1 @ rs2" using Cons.prems 1 by (auto split: prod.splits)
  note f = take_reply_facts [OF 1] and h = Cons.IH [OF 2(1)]
  have "gw_tokens g' + sum_list (map reply_tokens (x # xs)) = gw_tokens g" if s: "sum_list (map reply_tokens (x # xs)) \<subseteq># gw_tokens g"
  proof -
    have "reply_tokens x \<subseteq># gw_tokens g"
      by (rule subset_mset.trans [OF mset_subset_eq_add_left]) (use s in simp)
    from f(3) [OF this] have g: "gw_tokens g1 + reply_tokens x = gw_tokens g" .
    then have "sum_list (map reply_tokens xs) \<subseteq># gw_tokens g1"
      using s by (simp flip: g)
    then have "gw_tokens g' + sum_list (map reply_tokens xs) = gw_tokens g1" using h by simp
    then show ?thesis by (simp add: ac_simps flip: g)
  qed
  moreover have "gw_held g' + responds rs = gw_held g"
    using h by (simp add: 2(2) ac_simps flip: f(1))
  ultimately show ?case using h f(2) by simp
qed simp

lemma queue_do_held: "queue_do E e g = (rs, g') \<Longrightarrow> gw_held g' + responds rs = gw_held g"
  using take_replies_facts by (fastforce simp: queue_do_def Let_def)

lemma ask_held: "ask E e i re g = (rs, g') \<Longrightarrow> gw_held g' + responds rs = add_mset re (gw_held g)"
  unfolding ask_def Let_def by (drule queue_do_held) simp

lemma handle_held: "handle E h req re g = Some (rs, g') \<Longrightarrow> gw_held g' + responds rs = add_mset re (gw_held g)"
  by (cases h) (auto simp: Let_def dest!: ask_held queue_do_held split: option.splits prod.splits)

interpretation gwa: http_app "handle E" gw_held for E :: "'s env"
  by unfold_locales (rule handle_held)


section \<open>The queue behind the handlers\<close>

text \<open>
  The node is the one of \<^verbatim>\<open>Queue_Runs.thy\<close> after the operations made so far, and the closures that wait are
  for the requests it has not answered.
\<close>

definition just_opened :: "'s env \<Rightarrow> 's node \<Rightarrow> bool" where
  "just_opened E n0 \<longleftrightarrow> (\<exists>c b sk d sb. queue_open E (node_new c b sk d sb) = Some (True, n0))"

definition gw_ok :: "'s env \<Rightarrow> 's node \<Rightarrow> 's gateway \<Rightarrow> bool" where
  "gw_ok E n0 g \<longleftrightarrow> just_opened E n0 \<and> gw_node g = queue_run E (gw_events g) n0 \<and> gw_seen g = length (out (snd (gw_node g))) \<and>
     (wrapped (gw_node g) \<or> gw_tokens g + answered (gw_node g) = run_tokens (gw_events g))"

lemma opened_run:
  assumes "just_opened E n0"
  shows "node_ok (queue_run E es n0)" "wrapped (queue_run E es n0) \<or> answered (queue_run E es n0) + in_flight (queue_run E es n0) = run_tokens es"
  using assms run_facts(1,2) unfolding just_opened_def by blast+

lemma queue_do_ok:
  assumes o: "just_opened E n0" and n: "gw_node g = queue_run E (gw_events g) n0" and s: "gw_seen g = length (out (snd (gw_node g)))"
    and t: "wrapped (gw_node g) \<or> gw_tokens g + answered (gw_node g) = run_tokens (gw_events g) + event_tokens e"
    and d: "queue_do (E\<lparr>e_mem := m\<rparr>) e g = (rs, g')"
  shows "gw_ok E n0 g'"
proof -
  let ?n = "queue_event (E\<lparr>e_mem := m\<rparr>) e (gw_node g)" and ?es = "gw_events g @ [(m, e)]"
  have q: "queue_run E ?es n0 = ?n" by (simp add: queue_run_def n)
  have r: "run_tokens ?es = run_tokens (gw_events g) + event_tokens e" by (simp add: run_tokens_def)
  have ok: "node_ok (gw_node g)" unfolding n by (rule opened_run(1) [OF o])
  obtain xs where xs: "out (snd ?n) = out (snd (gw_node g)) @ xs" using event_grows [OF ok] by blast
  have w: "wrapped (gw_node g) \<Longrightarrow> wrapped ?n"
    using evo.step_event [of "E\<lparr>e_mem := m\<rparr>" e "gw_node g"] ok by (simp add: evolves_def same_node_def)
  have T: "take_replies xs (g\<lparr>gw_node := ?n, gw_seen := length (out (snd ?n)), gw_events := ?es\<rparr>) = (rs, g')"
    using d xs s by (simp add: queue_do_def Let_def)
  note f = take_replies_facts [OF T]
  have "gw_tokens g' + answered ?n = run_tokens ?es" if nw: "\<not> wrapped ?n"
  proof -
    have a: "answered ?n = answered (gw_node g) + sum_list (map reply_tokens xs)" by (simp add: answered_def xs)
    have tot: "answered ?n + in_flight ?n = run_tokens ?es" using opened_run(2) [OF o, of ?es] nw q by simp
    have t': "gw_tokens g + answered (gw_node g) = run_tokens ?es" using t w nw r by auto
    have "sum_list (map reply_tokens xs) + in_flight ?n = gw_tokens g"
    proof -
      have "answered (gw_node g) + (sum_list (map reply_tokens xs) + in_flight ?n) = answered (gw_node g) + gw_tokens g"
        using tot t' by (simp add: a ac_simps)
      then show ?thesis by (rule add_left_imp_eq)
    qed
    then have "sum_list (map reply_tokens xs) \<subseteq># gw_tokens g" by (metis mset_subset_eq_add_left)
    then have u: "gw_tokens g' + sum_list (map reply_tokens xs) = gw_tokens g" using f by simp
    show ?thesis by (simp add: a ac_simps flip: t' u)
  qed
  then show ?thesis using o f q by (auto simp: gw_ok_def)
qed

lemma queue_do_keeps: "gw_ok E n0 g \<Longrightarrow> event_tokens e = {#} \<Longrightarrow> queue_do (E\<lparr>e_mem := m\<rparr>) e g = (rs, g') \<Longrightarrow> gw_ok E n0 g'"
  by (rule queue_do_ok [of E n0 g e m rs g']) (auto simp: gw_ok_def)

lemma ask_keeps:
  assumes "gw_ok E n0 g" "\<And>t. event_tokens (e t) = {#t#}" "ask (E\<lparr>e_mem := m\<rparr>) e i re g = (rs, g')"
  shows "gw_ok E n0 g'"
  using assms unfolding ask_def Let_def
  by (intro queue_do_ok [of E n0 "g\<lparr>gw_next := gw_next g + 1, gw_waiting := gw_waiting g @ [(gw_next g, re, i)]\<rparr>" "e (gw_next g)" m rs g'])
    (auto simp: gw_ok_def)

lemma handle_keeps: "handle (E\<lparr>e_mem := m\<rparr>) h req re g = Some (rs, g') \<Longrightarrow> gw_ok E n0 g \<Longrightarrow> gw_ok E n0 g'"
  by (cases h) (auto simp: Let_def dest: ask_keeps [rotated 2] queue_do_keeps [rotated 2] split: option.splits prod.splits)

interpretation books: app_invariant "handle (E\<lparr>e_mem := m\<rparr>)" "gw_ok E n0" for E :: "'s env" and m n0
  by unfold_locales (rule handle_keeps)

lemma serve_ok:
  assumes "http_ok {} s (gw_held g)" "gw_ok E n0 g" "event_tokens e = {#}" "serve_queue (E\<lparr>e_mem := m\<rparr>) e (s, g) = Some (s', g')"
  shows "http_ok {} s' (gw_held g') \<and> gw_ok E n0 g'"
proof -
  obtain rs g1 where q: "queue_do (E\<lparr>e_mem := m\<rparr>) e g = (rs, g1)" by fastforce
  then have d: "deliver (handle (E\<lparr>e_mem := m\<rparr>)) rs (s, g1) = Some (s', g')" using assms(4) by (simp add: serve_queue_def)
  have "http_ok {} s (gw_held g1 + responds rs)" using assms(1) queue_do_held [OF q] by simp
  from gwa.deliver_ok [OF d refl this] books.deliver_keeps [OF d refl queue_do_keeps [OF assms(2,3) q]]
  show ?thesis by blast
qed

lemma main_step_ok:
  assumes "http_ok {} s (gw_held g)" "gw_ok E n0 g" "main_step (E\<lparr>e_mem := m\<rparr>) e (s, g) = Some (s', g')"
  shows "http_ok {} s' (gw_held g') \<and> gw_ok E n0 g'"
proof (cases e)
  case (ConnEvent k ev rds)
  then show ?thesis using gwa.conn_ready_ok [OF assms(1)] books.conn_ready_keeps [OF _ assms(2)] assms(3) by simp
next
  case Turn
  then obtain s1 g1 where "serve_queue (E\<lparr>e_mem := m\<rparr>) OnPoll (s, g) = Some (s1, g1)" "serve_queue (E\<lparr>e_mem := m\<rparr>) OnTick (s1, g1) = Some (s', g')"
    using assms(3) by (auto elim!: bind_SomeE)
  then show ?thesis using serve_ok [of s1 g1 E n0 OnTick m] serve_ok [OF assms(1,2), of OnPoll m] by simp
next
  case (StateChange ep x)
  let ?g = "g\<lparr>gw_churn := gw_churn g + 1\<rparr>"
  have g: "http_ok {} s (gw_held ?g)" "gw_ok E n0 ?g" using assms(1,2) by (auto simp: gw_ok_def)
  show ?thesis
  proof (cases x)
    case Suspect
    then show ?thesis using g assms(3) StateChange by auto
  qed (use serve_ok [OF g, of "OnPeerDead (data_endpoint ep)" m] serve_ok [OF g, of "OnPeerAlive (data_endpoint ep)" m]
      assms(3) StateChange in simp_all)
next
  case (Accept xs)
  then show ?thesis using assms accept_ok [OF assms(1), of xs] by auto
next
  case (SocketWrites ws)
  then show ?thesis using assms by auto
next
  case DataReady
  then show ?thesis using serve_ok [OF assms(1,2), of OnPoll m] assms(3) by simp
next
  case (Network sk)
  then show ?thesis using serve_ok [OF assms(1,2), of "OnSocket sk" m] assms(3) by simp
qed

lemma main_run_ok:
  "main_run E xs (s, g) = Some (s', g') \<Longrightarrow> http_ok {} s (gw_held g) \<Longrightarrow> gw_ok E n0 g \<Longrightarrow> http_ok {} s' (gw_held g') \<and> gw_ok E n0 g'"
proof (induction xs arbitrary: s g)
  case (Cons x xs)
  obtain m e where x: "x = (m, e)" by fastforce
  then obtain s1 g1 where 1: "main_step (E\<lparr>e_mem := m\<rparr>) e (s, g) = Some (s1, g1)" "main_run E xs (s1, g1) = Some (s', g')"
    using Cons.prems(1) by (auto elim!: bind_SomeE)
  show ?case using Cons.IH [OF 1(2)] main_step_ok [OF Cons.prems(2,3) 1(1)] by blast
qed simp

lemma started:
  assumes "just_opened E n0"
  shows "http_ok {} server (gw_held (gateway_new n0))" "gw_ok E n0 (gateway_new n0)"
proof -
  show "http_ok {} server (gw_held (gateway_new n0))"
    by (simp add: http_ok_def server_def add_route_def http_new_def gateway_new_def gw_held_def)
  have "wrapped n0 \<or> answered n0 + in_flight n0 = {#}"
    using opened_run(2) [OF assms, of "[]"] by (simp add: queue_run_def run_tokens_def)
  then show "gw_ok E n0 (gateway_new n0)"
    using assms by (auto simp: gw_ok_def gateway_new_def gw_tokens_def queue_run_def run_tokens_def)
qed


lemma served_run:
  assumes "queue_open E (node_new c b sk d sb) = Some (True, n0)" "main_run E xs (server, gateway_new n0) = Some (s, g)"
  shows "http_ok {} s (gw_held g)" "gw_ok E n0 g"
proof -
  have "just_opened E n0" using assms(1) unfolding just_opened_def by blast
  from main_run_ok [OF assms(2) started [OF this]] show "http_ok {} s (gw_held g)" "gw_ok E n0 g" by blast+
qed

lemma conn_ok_served:
  assumes "conn_ok cn"
  shows "prefix (c_handed cn) (requests (c_received cn))" "c_sent cn @ c_out cn = concat (c_answered cn)"
    "list_all2 (\<lambda>x b. \<exists>r. b = response_bytes (snd x) r) (take (length (c_answered cn)) (c_handed cn)) (c_answered cn)"
    "length (c_handed cn) \<le> length (c_answered cn) + 1"
proof -
  show "prefix (c_handed cn) (requests (c_received cn))"
    using assms takes_requests by (force simp: conn_ok_def)
  have l: "length (served cn) = length (c_answered cn)" using assms by (auto simp: conn_ok_def dest: list_all2_lengthD)
  have "take (length (served cn)) (c_handed cn) = served cn" by (simp add: served_def butlast_conv_take)
  then show "list_all2 (\<lambda>x b. \<exists>r. b = response_bytes (snd x) r) (take (length (c_answered cn)) (c_handed cn)) (c_answered cn)"
    using assms l by (simp add: conn_ok_def)
  show "length (c_handed cn) \<le> length (c_answered cn) + 1" using l by (simp add: served_def split: if_splits)
qed (use assms in \<open>simp add: conn_ok_def\<close>)


section \<open>A sample run\<close>

text \<open>A connection that asks for the health of the node in two pieces.\<close>

definition health_request :: string where
  "health_request = ''GET /healthz HTTP/1.1'' @ crlf @ crlf"

definition health_run :: "(membership \<times> main_event) list" where
  "health_run = [(e_mem sample_env, Accept [(7, True, True)]),
     (e_mem sample_env, ConnEvent 1 \<lparr>ev_err = False, ev_in = True, ev_out = False\<rparr> [Chunk (take 9 health_request), Again]),
     (e_mem sample_env, ConnEvent 1 \<lparr>ev_err = False, ev_in = True, ev_out = False\<rparr> [Chunk (drop 9 health_request), Again])]"

definition health_ok :: Request where
  "health_ok = \<lparr>rq_method = ''GET'', rq_path = ''/healthz'', rq_query = [], rq_headers = [], rq_body = []\<rparr>"

lemma health_parses:
  "parse_request (take 9 health_request) = Incomplete" "parse_request health_request = Parsed health_ok True []"
  by (simp_all add: parse_request_def health_request_def crlf_def has_prefix_def Let_def parse_line_def rfind_char_def substr_def
      parse_headers.simps health_ok_def lower_def lower_char_def plus_space_def kMaxRequestBytes_def)


lemma server_routes:
  "find_route ''GET /healthz'' (routes server) = Some HealthRoute" "conns server = []" "next_gen server = 1" "writes server = []" "gone server = []"
  "\<not> gen_wrapped server"
  by (simp_all add: server_def add_route_def http_new_def find_route_def has_prefix_def)

lemma health_served:
  "\<exists>s cn. main_run sample_env health_run (server, gateway_new n0) = Some (s, gateway_new n0) \<and> map_of (conns s) 1 = Some cn \<and>
     \<not> gen_wrapped s \<and> c_received cn = health_request \<and> c_handed cn = [(health_ok, True)]"
proof -
  let ?E = "sample_env\<lparr>e_mem := e_mem sample_env\<rparr>" and ?ev = "\<lparr>ev_err = False, ev_in = True, ev_out = False\<rparr>"
  let ?g = "gateway_new n0"
  let ?c = "Conn0\<lparr>c_fd := 7\<rparr>"
  define s1 where "s1 = server\<lparr>conns := [(1, ?c)], next_gen := 2, watched := AList.update 7 ForIn (watched server)\<rparr>"
  have 1: "main_step ?E (Accept [(7, True, True)]) (server, ?g) = Some (s1, ?g)"
    by (simp add: accept_ready_def accept_one_def Let_def set_conn_def server_routes s1_def)
  let ?c2 = "?c\<lparr>c_in := take 9 health_request, c_received := take 9 health_request\<rparr>"
  define s2 where "s2 = s1\<lparr>conns := [(1, ?c2)]\<rparr>"
  have 2: "main_step ?E (ConnEvent 1 ?ev [Chunk (take 9 health_request), Again]) (s1, ?g) = Some (s2, ?g)"
    using health_parses(1) by (simp add: conn_ready_def conn_input_def s1_def s2_def Let_def set_conn_def try_parse_def deliver.simps
        Conn0_def kMaxRequestBytes_def health_request_def crlf_def)
  let ?b = "response_bytes True (plain 200 (''ok'' @ newline))"
  let ?c3 = "?c\<lparr>c_received := health_request, c_handed := [(health_ok, True)], c_answered := [?b], c_sent := ?b\<rparr>"
  let ?c4 = "?c\<lparr>c_received := health_request, c_handed := [(health_ok, True)], awaiting_handler := True\<rparr>"
  have n: "?b \<noteq> []" by (simp add: response_bytes_def crlf_def)
  have p: "try_parse (handle ?E) 1 (s2\<lparr>conns := [(1, ?c\<lparr>c_in := health_request, c_received := health_request\<rparr>)]\<rparr>, ?g) =
      Some ([((1, True), plain 200 (''ok'' @ newline))], s2\<lparr>conns := [(1, ?c4)]\<rparr>, ?g)"
    using health_parses(2) server_routes(1)
    by (simp add: try_parse_def Let_def set_conn_def Conn0_def health_ok_def s1_def s2_def)
  have w: "write_out [] ?b = (?b, [], Drained, [])" using n by (cases ?b) simp_all
  have q: "\<exists>x. put_response (1, True) (plain 200 (''ok'' @ newline)) (s2\<lparr>conns := [(1, ?c4)]\<rparr>) = s2\<lparr>writes := [], conns := [(1, ?c3)], watched := x\<rparr>"
    using w by (intro exI [of _ "AList.update 7 ForIn (watched s2)"])
      (simp add: put_response_def flush_def Let_def set_conn_def Conn0_def s1_def s2_def server_routes)
  then obtain x where q: "put_response (1, True) (plain 200 (''ok'' @ newline)) (s2\<lparr>conns := [(1, ?c4)]\<rparr>) = s2\<lparr>writes := [], conns := [(1, ?c3)], watched := x\<rparr>" by blast
  let ?s = "s2\<lparr>writes := [], conns := [(1, ?c3)], watched := x\<rparr>"
  have d: "deliver (handle ?E) [((1, True), plain 200 (''ok'' @ newline))] (s2\<lparr>conns := [(1, ?c4)]\<rparr>, ?g) = Some (?s, ?g)"
    unfolding deliver.simps Let_def q by (simp add: resumes_def Conn0_def deliver.simps)
  have t: "take 9 health_request @ drop 9 health_request = health_request" by simp
  have l: "length health_request \<le> kMaxRequestBytes" by (simp add: health_request_def crlf_def kMaxRequestBytes_def)
  have 3: "main_step ?E (ConnEvent 1 ?ev [Chunk (drop 9 health_request), Again]) (s2, ?g) = Some (?s, ?g)"
  proof -
    have "read_data [Chunk (drop 9 health_request), Again] (length (c_in ?c2)) = Some (drop 9 health_request)"
      using l by simp
    moreover have "set_conn 1 (?c2\<lparr>c_in := c_in ?c2 @ drop 9 health_request, c_received := c_received ?c2 @ drop 9 health_request\<rparr>) s2 =
        s2\<lparr>conns := [(1, ?c\<lparr>c_in := health_request, c_received := health_request\<rparr>)]\<rparr>"
      by (simp add: set_conn_def s2_def)
    moreover have "map_of (conns s2) 1 = Some ?c2" "\<not> awaiting_handler ?c2" by (simp_all add: s2_def Conn0_def)
    ultimately have "conn_input (handle ?E) 1 [Chunk (drop 9 health_request), Again] (s2, ?g) = Some (?s, ?g)"
      using p d by (simp only: conn_input_def Let_def prod.case option.case if_False)
    then show ?thesis by (simp add: conn_ready_def s2_def)
  qed
  show ?thesis
    using 1 2 3 by (auto simp: health_run_def s1_def s2_def server_routes)
qed

text \<open>A submission whose visibility is not a number.\<close>

definition bad_request :: string where
  "bad_request = ''POST /v1/jobs?visibility_ms=x HTTP/1.1'' @ crlf @ crlf"

definition bad_submit :: Request where
  "bad_submit = \<lparr>rq_method = ''POST'', rq_path = ''/v1/jobs'', rq_query = [(''visibility_ms'', ''x'')], rq_headers = [], rq_body = []\<rparr>"

lemma bad_parses: "parse_request bad_request = Parsed bad_submit True []"
  by (simp add: parse_request_def bad_request_def crlf_def has_prefix_def Let_def parse_line_def rfind_char_def substr_def
      parse_headers.simps bad_submit_def lower_def lower_char_def plus_space_def kMaxRequestBytes_def parse_query.simps find_at_def add_pair_def)

text \<open>The numbers a route reads, and that one of them does not parse.\<close>

definition unreadable :: "Request \<Rightarrow> string \<Rightarrow> bool" where
  "unreadable r k = (case map_of (rq_query r) k of None \<Rightarrow> False | Some v \<Rightarrow> parse_u64 v = None)"

fun reads_unreadable :: "route_id \<Rightarrow> Request \<Rightarrow> bool" where
  "reads_unreadable JobsRoute r = (unreadable r ''visibility_ms'' \<or> unreadable r ''max_attempts'')"
| "reads_unreadable LeaseRoute r = unreadable r ''worker''"
| "reads_unreadable AckRoute r =
    ((case map_of (rq_query r) ''id'' of None \<Rightarrow> False | Some v \<Rightarrow> from_hex v \<noteq> None) \<and>
     (unreadable r ''epoch'' \<or> unreadable r ''seq''))"
| "reads_unreadable _ r = False"

lemma qnum_unreadable: "qnum r k d = None \<longleftrightarrow> unreadable r k"
  by (simp add: qnum_def unreadable_def split: option.split)

lemma handle_unreadable: "handle E h r re g = None \<longleftrightarrow> reads_unreadable h r"
  by (cases h)
    (auto simp: qnum_unreadable [symmetric, where d = 0] case_prod_beta Let_def split: option.splits)


section \<open>Properties\<close>

text \<open>
  C13. In order, once each: after any run of the process, on every connection, open or closed, the requests
  handed to handlers are the first requests of the bytes received, however the bytes were cut into
  reads, each but at most the last one has its response, the responses were appended in that order, and
  what was written and what waits to be written are exactly those responses.
\<close>

theorem http_in_order:
  assumes "queue_open E (node_new c b sk d sb) = Some (True, n0)" "main_run E xs (server, gateway_new n0) = Some (s, g)"
    and "\<not> gen_wrapped s" "cn \<in> set (gone s) \<or> map_of (conns s) k = Some cn"
  shows "prefix (c_handed cn) (requests (c_received cn)) \<and> length (c_handed cn) \<le> length (c_answered cn) + 1 \<and>
    list_all2 (\<lambda>x b. \<exists>r. b = response_bytes (snd x) r) (take (length (c_answered cn)) (c_handed cn)) (c_answered cn) \<and>
    c_sent cn @ c_out cn = concat (c_answered cn)"
proof -
  have "conn_ok cn"
    using served_run(1) [OF assms(1,2)] assms(3,4) by (auto simp: http_ok_def live_ok_def simp del: map_of_eq_Some_iff)
  from conn_ok_served [OF this] show ?thesis by blast
qed

theorem http_in_order_witness:
  "\<exists>n0 s g cn. queue_open sample_env sample_node = Some (True, n0) \<and> main_run sample_env health_run (server, gateway_new n0) = Some (s, g) \<and>
     map_of (conns s) 1 = Some cn \<and> c_handed cn = [(health_ok, True)] \<and> prefix (c_handed cn) (requests (c_received cn))"
proof -
  obtain st0 where o: "queue_open sample_env sample_node = Some (True, upd (\<lambda>q. q\<lparr>st := st0\<rparr>) sample_node)"
    by (rule sample_opened)
  let ?n = "upd (\<lambda>q. q\<lparr>st := st0\<rparr>) sample_node"
  obtain s cn where h: "main_run sample_env health_run (server, gateway_new ?n) = Some (s, gateway_new ?n)" "map_of (conns s) 1 = Some cn"
    "\<not> gen_wrapped s" "c_handed cn = [(health_ok, True)]"
    using health_served [of ?n] by blast
  from http_in_order [OF o h(1,3), of cn 1] h(2) have "prefix (c_handed cn) (requests (c_received cn))" by simp
  with o h show ?thesis by (intro exI [of _ ?n] exI [of _ s] exI [of _ "gateway_new ?n"] exI [of _ cn]) simp
qed

text \<open>
  C14. No client is left waiting: whenever no RPC is in flight, every complete request in the bytes received
  on an open connection has been handed to its handler and answered, on every route. What is left in the
  buffer is an incomplete request.
\<close>

theorem http_answers_all:
  assumes "queue_open E (node_new c b sk d sb) = Some (True, n0)" "main_run E xs (server, gateway_new n0) = Some (s, g)"
    and "\<not> gen_wrapped s" "\<not> wrapped (gw_node g)" "calls (fst (gw_node g)) = []" "map_of (conns s) k = Some cn"
  shows "c_handed cn = requests (c_received cn) \<and> parse_request (c_in cn) = Incomplete \<and>
    list_all2 (\<lambda>x b. \<exists>r. b = response_bytes (snd x) r) (requests (c_received cn)) (c_answered cn) \<and>
    c_sent cn @ c_out cn = concat (c_answered cn)"
proof -
  note r = served_run [OF assms(1,2)]
  have n: "gw_node g = queue_run E (gw_events g) n0" and t: "gw_tokens g + answered (gw_node g) = run_tokens (gw_events g)"
    using r(2) assms(4) by (auto simp: gw_ok_def)
  have "answered (gw_node g) = run_tokens (gw_events g)"
    unfolding n by (rule idle_answered [OF assms(1)]) (use assms(4,5) n in simp_all)
  then have "gw_waiting g = []" using t by (simp add: gw_tokens_def)
  then have "live_ok {} {#} k cn" using http_ok_conn [OF r(1) assms(3,6)] by (simp add: gw_held_def)
  then have l: "conn_ok cn" "\<not> awaiting_handler cn" "parse_request (c_in cn) = Incomplete" by (auto simp: live_ok_def split: if_splits)
  then have "requests (c_received cn) = c_handed cn"
    using takes_requests [of "c_received cn" "c_handed cn" "c_in cn"] by (simp add: conn_ok_def requests_Incomplete)
  then show ?thesis using l by (simp add: conn_ok_def served_def)
qed

theorem http_answers_all_witness:
  "\<exists>n0 s g cn. queue_open sample_env sample_node = Some (True, n0) \<and> main_run sample_env health_run (server, gateway_new n0) = Some (s, g) \<and>
     map_of (conns s) 1 = Some cn \<and> requests (c_received cn) = [(health_ok, True)] \<and> length (c_answered cn) = 1"
proof -
  obtain st0 where o: "queue_open sample_env sample_node = Some (True, upd (\<lambda>q. q\<lparr>st := st0\<rparr>) sample_node)"
    by (rule sample_opened)
  let ?n = "upd (\<lambda>q. q\<lparr>st := st0\<rparr>) sample_node"
  obtain s cn where h: "main_run sample_env health_run (server, gateway_new ?n) = Some (s, gateway_new ?n)" "map_of (conns s) 1 = Some cn"
    "\<not> gen_wrapped s" "c_handed cn = [(health_ok, True)]"
    using health_served [of ?n] by blast
  have "\<not> wrapped (gw_node (gateway_new ?n))" "calls (fst (gw_node (gateway_new ?n))) = []"
    by (simp_all add: gateway_new_def node_new_def qnode_new_def rpc_new_def wrapped_def)
  from http_answers_all [OF o h(1,3) this h(2)] have r: "requests (c_received cn) = [(health_ok, True)]"
      and "length (requests (c_received cn)) = length (c_answered cn)"
    using h(4) by (metis, metis list_all2_lengthD)
  then have "length (c_answered cn) = 1" by simp
  with o h r show ?thesis by (intro exI [of _ ?n] exI [of _ s] exI [of _ "gateway_new ?n"] exI [of _ cn]) simp
qed

text \<open>
  C39. A number that does not parse ends the process: the handlers that read numbers, for submissions
  (\<open>visibility_ms\<close>, \<open>max_attempts\<close>), leases (\<open>worker\<close>) and, after a valid identifier,
  acknowledgements (\<open>epoch\<close>, \<open>seq\<close>), raise an exception exactly when one of them is not a number that fits
  64 bits. Nothing catches it: when such a request is complete on a connection that waits for no handler, the run of
  the process is over, whoever sent it and whatever the state of the node.
\<close>

theorem bad_number_ends_process:
  "(handle E h req re g = None \<longleftrightarrow> reads_unreadable h req) \<and>
   (map_of (conns s) k = Some cn \<and> \<not> awaiting_handler cn \<and> read_data rds (length (c_in cn)) = Some b \<and>
    parse_request (c_in cn @ b) = Parsed req keep rest \<and>
    find_route (rq_method req @ '' '' @ rq_path req) (routes s) = Some h \<and> reads_unreadable h req \<longrightarrow>
    main_run E ((m, ConnEvent k \<lparr>ev_err = False, ev_in = True, ev_out = w\<rparr> rds) # xs) (s, g) = None)"
  using handle_unreadable [of E h req re g] handle_unreadable [of "E\<lparr>e_mem := m\<rparr>" h req "(k, keep)" g]
  by (auto simp: conn_ready_def conn_input_def try_parse_def Let_def)

theorem bad_number_ends_process_witness:
  "find_route ''POST /v1/jobs'' (routes server) = Some JobsRoute \<and>
   main_run sample_env [(e_mem sample_env, ConnEvent 1 \<lparr>ev_err = False, ev_in = True, ev_out = False\<rparr> [Chunk bad_request])]
     (server\<lparr>conns := [(1, Conn0)]\<rparr>, gateway_new sample_node) = None"
proof -
  have r: "find_route ''POST /v1/jobs'' (routes server) = Some JobsRoute"
    by (simp add: server_def add_route_def http_new_def find_route_def has_prefix_def)
  have "read_data [Chunk bad_request] (length (c_in Conn0)) = Some bad_request" "parse_u64 ''x'' = None"
    by (simp_all add: Conn0_def bad_request_def crlf_def kMaxRequestBytes_def parse_u64_def is_space_def is_digit_def)
  with bad_number_ends_process [of sample_env JobsRoute bad_submit "(1, True)" "gateway_new sample_node"
      "server\<lparr>conns := [(1, Conn0)]\<rparr>" 1 Conn0 "[Chunk bad_request]" bad_request True "[]" "e_mem sample_env" False "[]"] r bad_parses
  show ?thesis by (simp add: Conn0_def bad_submit_def unreadable_def del: main_run.simps)
qed

end
