(* ===== verification/Http_Client.thy ===== *)
theory Http_Client
  imports Http
begin

text \<open>
  The blocking HTTP client of the worker and the load generator, \<^verbatim>\<open>src/src/http_client.cc\<close>, and the text both ends of a
  connection agree on: the server's parser gives back the client's request, the client's parser the
  server's response. The results of the system calls are inputs.
\<close>

section \<open>The client\<close>

record HttpResponse =
  hr_code :: int
  hr_headers :: "(string \<times> string) list"
  hr_body :: string

definition HttpResponse0 :: HttpResponse where
  "HttpResponse0 = \<lparr>hr_code = 0, hr_headers = [], hr_body = []\<rparr>"

text \<open>The host and port, the path, the host and the port of a URL.\<close>

definition split_url :: "string \<Rightarrow> (string \<times> string \<times> string \<times> u16) option" where
  "split_url url =
    (if \<not> has_prefix ''http://'' url then None
     else
      (let rest = drop 7 url;
           (hostport, path) = (case find_sub ''/'' rest of None \<Rightarrow> (rest, ''/'') | Some k \<Rightarrow> (take k rest, drop k rest));
           (host, port) =
             (case find_sub '':'' hostport of
                None \<Rightarrow> (hostport, 80)
              | Some k \<Rightarrow> (take k hostport, of_nat (strtoul (drop (k + 1) hostport))))
       in Some (hostport, path, host, port)))"

definition client_request :: "string \<Rightarrow> string \<Rightarrow> string \<Rightarrow> (string \<times> string) list \<Rightarrow> string \<Rightarrow> string" where
  "client_request meth hostport path headers b =
    meth @ '' '' @ path @ '' HTTP/1.1'' @ crlf @ ''Host: '' @ hostport @ crlf @ ''Connection: close'' @ crlf @
    ''Content-Length: '' @ to_string (length b) @ crlf @ concat (map header_line headers) @ crlf @ b"

text \<open>
  The results of the calls: whether a socket is made, an address is well formed, the connection starts, becomes
  writable in time and has no error; then each \<open>send\<close> and \<open>recv\<close>, where \<open>Wait\<close> tells whether the wait that
  follows ends before the deadline. Where the results end the deadline has passed.
\<close>

datatype send_result = Sent nat | SendWait bool | SendError

datatype recv_result = Received string | RecvWait bool | RecvError

record net =
  n_socket :: bool
  n_address :: "string \<Rightarrow> bool"
  n_connect :: bool
  n_writable :: bool
  n_no_error :: bool
  n_sends :: "send_result list"
  n_recvs :: "recv_result list"

fun send_request :: "send_result list \<Rightarrow> nat \<Rightarrow> bool" where
  "send_request ws 0 = True"
| "send_request [] (Suc n) = False"
| "send_request (Sent k # ws) (Suc n) = (k > 0 \<and> send_request ws (Suc n - k))"
| "send_request (SendWait ready # ws) (Suc n) = (ready \<and> send_request ws (Suc n))"
| "send_request (SendError # ws) (Suc n) = False"

fun recv_all :: "recv_result list \<Rightarrow> string option" where
  "recv_all [] = None"
| "recv_all (Received b # rs) = (if b = [] then Some [] else map_option ((@) b) (recv_all rs))"
| "recv_all (RecvWait ready # rs) = (if ready then recv_all rs else None)"
| "recv_all (RecvError # rs) = None"

text \<open>\<open>std::atoi\<close>: a \<open>long\<close> that saturates, cut to 32 bits.\<close>

definition atoi :: "string \<Rightarrow> int" where
  "atoi s =
    (let s = dropWhile is_space s;
         neg = (s \<noteq> [] \<and> hd s = CHR ''-'');
         s = (if s \<noteq> [] \<and> (hd s = CHR ''-'' \<or> hd s = CHR ''+'') then tl s else s);
         v = int (digits_value (takeWhile is_digit s));
         v = (if neg then max (- (2 ^ 63)) (- v) else min (2 ^ 63 - 1) v)
     in sint (word_of_int v :: 32 word))"

function fetch_headers :: "string \<Rightarrow> nat \<Rightarrow> nat \<Rightarrow> (string \<times> string) list \<Rightarrow> (string \<times> string) list" where
  "fetch_headers s hdr_end k hs =
    (if k < hdr_end then
      (let eol = (case find_at crlf s k of None \<Rightarrow> hdr_end | Some e \<Rightarrow> if e > hdr_end then hdr_end else e);
           line = substr s k (eol - k);
           hs = (case find_sub '':'' line of
                   None \<Rightarrow> hs
                 | Some c \<Rightarrow> AList.update (lower (take c line)) (dropWhile (\<lambda>x. x = CHR '' '') (drop (c + 1) line)) hs)
       in fetch_headers s hdr_end (eol + 2) hs)
     else hs)"
  by pat_completeness auto
termination
  by (relation "measure (\<lambda>(s, e, k, hs). e - k)") (auto dest: find_at_bound split: option.splits)

declare fetch_headers.simps [simp del]

definition parse_response :: "string \<Rightarrow> HttpResponse" where
  "parse_response resp =
    (case find_sub (crlf @ crlf) resp of
       None \<Rightarrow> HttpResponse0
     | Some hdr_end \<Rightarrow>
        if length resp < 12 then HttpResponse0
        else
         (let k = (case find_sub crlf resp of None \<Rightarrow> length resp | Some e \<Rightarrow> e) + 2
          in \<lparr>hr_code = atoi (drop 9 resp), hr_headers = fetch_headers resp hdr_end k [], hr_body = drop (hdr_end + 4) resp\<rparr>))"

definition http_fetch :: "string \<Rightarrow> string \<Rightarrow> (string \<times> string) list \<Rightarrow> string \<Rightarrow> net \<Rightarrow> HttpResponse" where
  "http_fetch meth url headers b net =
    (case split_url url of
       None \<Rightarrow> HttpResponse0
     | Some (hostport, path, host, port) \<Rightarrow>
        if \<not> n_socket net \<or> \<not> n_address net host \<or> \<not> n_connect net \<or> \<not> n_writable net \<or> \<not> n_no_error net then HttpResponse0
        else
         (let req = client_request meth hostport path headers b in
          if \<not> send_request (n_sends net) (length req) then HttpResponse0
          else (case recv_all (n_recvs net) of None \<Rightarrow> HttpResponse0 | Some resp \<Rightarrow> parse_response resp)))"

lemma fetch_headers_eq: "fetch_headers s e k hs = parse_headers s e k hs"
proof (induction s e k hs rule: fetch_headers.induct)
  case (1 s e k hs)
  then show ?case
    by (subst fetch_headers.simps, subst parse_headers.simps) (auto simp: Let_def add_header_def split: option.splits)
qed


section \<open>Lines\<close>

text \<open>A text without carriage return, and the block of lines that makes the head of a message.\<close>

definition clean :: "string \<Rightarrow> bool" where
  "clean s \<longleftrightarrow> CHR 0x0D \<notin> set s"

lemma clean_simps [simp]: "clean []" "clean (c # s) \<longleftrightarrow> c \<noteq> CHR 0x0D \<and> clean s" "clean (s @ t) \<longleftrightarrow> clean s \<and> clean t"
  by (auto simp: clean_def)

definition block :: "string list \<Rightarrow> string" where
  "block ls = concat (map (\<lambda>l. l @ crlf) ls)"

lemma block_simps [simp]: "block [] = []" "block (l # ls) = l @ crlf @ block ls" "block (ls @ ls') = block ls @ block ls'"
  by (simp_all add: block_def)

definition lines_ok :: "string list \<Rightarrow> bool" where
  "lines_ok ls \<longleftrightarrow> (\<forall>l \<in> set ls. clean l \<and> l \<noteq> [])"

lemma find_sub_skip:
  assumes "\<And>c. c \<in> set l \<Longrightarrow> c \<noteq> d"
  shows "find_sub (d # p) (l @ t) = map_option ((+) (length l)) (find_sub (d # p) t)"
  using assms by (induction l; cases "find_sub (d # p) t") (auto simp: has_prefix_def)

lemma find_char: "c \<notin> set l \<Longrightarrow> find_sub [c] (l @ c # t) = Some (length l)"
  using find_sub_skip [of l c "[]" "c # t"] by (auto simp: has_prefix_def)

lemma find_crlf: "clean l \<Longrightarrow> find_sub crlf (l @ crlf @ t) = Some (length l)"
  using find_sub_skip [of l "CHR 0x0D" "[CHR 0x0A]" "crlf @ t"] by (auto simp: clean_def crlf_def has_prefix_def)

lemma find_end:
  assumes "lines_ok (l # ls)"
  shows "find_sub (crlf @ crlf) (block (l # ls) @ crlf @ b) = Some (length (block (l # ls)) - 2)"
  using assms
proof (induction ls arbitrary: l)
  case Nil
  then show ?case
    using find_sub_skip [of l "CHR 0x0D" "CHR 0x0A # crlf" "crlf @ crlf @ b"] by (auto simp: clean_def lines_ok_def crlf_def has_prefix_def)
next
  case (Cons m ls)
  have m: "clean l" "m \<noteq> []" "hd m \<noteq> CHR 0x0D"
    using Cons.prems hd_in_set [of m] by (auto simp: lines_ok_def clean_def simp del: hd_in_set)
  have s: "find_sub (crlf @ crlf) (crlf @ block (m # ls) @ crlf @ b) =
      map_option (\<lambda>k. Suc (Suc k)) (find_sub (crlf @ crlf) (block (m # ls) @ crlf @ b))"
    using m(2,3) by (cases m) (simp_all add: crlf_def has_prefix_def option.map_comp comp_def)
  have "find_sub (crlf @ crlf) (block (m # ls) @ crlf @ b) = Some (length (block (m # ls)) - 2)"
    by (rule Cons.IH) (use Cons.prems in \<open>simp add: lines_ok_def\<close>)
  then show ?case
    using s m(1) find_sub_skip [of l "CHR 0x0D" "CHR 0x0A # crlf" "crlf @ block (m # ls) @ crlf @ b"]
    by (auto simp: clean_def crlf_def)
qed

lemma parse_headers_block:
  assumes "lines_ok ls"
  shows "parse_headers (pre @ block ls @ crlf @ b) (length pre + length (block ls) - 2) (length pre) hs = fold add_header ls hs"
  using assms
proof (induction ls arbitrary: pre hs)
  case Nil
  have "\<not> length pre < length pre + length (block []) - 2" by simp
  then show ?case by (subst parse_headers.simps) (simp only: if_False fold_simps)
next
  case (Cons l ls)
  have l: "clean l" "l \<noteq> []" "lines_ok ls" using Cons.prems by (auto simp: lines_ok_def)
  have f: "find_at crlf (pre @ block (l # ls) @ crlf @ b) (length pre) = Some (length pre + length l)"
    using find_crlf [OF l(1), of "block ls @ crlf @ b"] by (simp add: find_at_def)
  have c: "length crlf = 2" by (simp add: crlf_def)
  have e: "length (pre @ l @ crlf) + length (block ls) - 2 = length pre + length (block (l # ls)) - 2" by simp
  show ?case
    using f l(2) Cons.IH [OF l(3), of "pre @ l @ crlf" "add_header l hs", unfolded e]
    by (subst parse_headers.simps) (simp add: Let_def substr_def c)
qed


text \<open>What a message of a first line, header lines and a body looks like to the parsers.\<close>

lemma message_facts:
  fixes b :: string
  assumes "lines_ok (l # ls)"
  defines "s \<equiv> block (l # ls) @ crlf @ b" and "e \<equiv> length (block (l # ls)) - 2"
  shows "find_sub (crlf @ crlf) s = Some e" "find_sub crlf s = Some (length l)" "take (length l) s = l"
    "parse_headers s e (length l + 2) [] = fold add_header ls []" "drop (e + 4) s = b" "length s = e + 4 + length b"
proof -
  have c: "length crlf = 2" by (simp add: crlf_def)
  have l: "clean l" "lines_ok ls" using assms(1) by (simp_all add: lines_ok_def)
  show "find_sub (crlf @ crlf) s = Some e" unfolding s_def e_def by (rule find_end [OF assms(1)])
  show "find_sub crlf s = Some (length l)" using find_crlf [OF l(1), of "block ls @ crlf @ b"] by (simp add: s_def)
  show "take (length l) s = l" "drop (e + 4) s = b" "length s = e + 4 + length b" by (simp_all add: s_def e_def c)
  show "parse_headers s e (length l + 2) [] = fold add_header ls []"
    using parse_headers_block [OF l(2), of "l @ crlf" b "[]"] by (simp add: s_def e_def c)
qed


section \<open>Both ends agree\<close>

lemma add_header_line: "CHR '':'' \<notin> set k \<Longrightarrow> add_header (k @ '': '' @ v) hs = AList.update (lower k) (dropWhile (\<lambda>x. x = CHR '' '') v) hs"
  using find_char [of "CHR '':''" k "CHR '' '' # v"] by (simp add: add_header_def)

text \<open>Headers a caller may add: their names and values stay on their line, and do not replace the client's.\<close>

definition header_ok :: "string \<times> string \<Rightarrow> bool" where
  "header_ok = (\<lambda>(k, v). clean k \<and> CHR '':'' \<notin> set k \<and> clean v)"

definition header_text :: "string \<times> string \<Rightarrow> string" where
  "header_text = (\<lambda>(k, v). k @ '': '' @ v)"

definition header_map :: "(string \<times> string) list \<Rightarrow> (string \<times> string) list \<Rightarrow> (string \<times> string) list" where
  "header_map = fold (\<lambda>(k, v). AList.update (lower k) (dropWhile (\<lambda>x. x = CHR '' '') v))"

lemma header_map_Cons [simp]:
  "header_map [] acc = acc" "header_map ((k, v) # hs) acc = header_map hs (AList.update (lower k) (dropWhile (\<lambda>x. x = CHR '' '') v) acc)"
  by (simp_all add: header_map_def)

lemma header_lines: "concat (map header_line hs) = block (map header_text hs)"
  by (induction hs) (auto simp: header_line_def header_text_def)

lemma headers_ok_lines: "list_all header_ok hs \<Longrightarrow> lines_ok (map header_text hs)"
  by (induction hs) (auto simp: header_ok_def header_text_def lines_ok_def)

lemma headers_ok_map: "list_all header_ok hs \<Longrightarrow> fold add_header (map header_text hs) acc = header_map hs acc"
proof (induction hs arbitrary: acc)
  case (Cons h hs)
  then show ?case by (cases h) (simp add: header_ok_def header_text_def add_header_line [simplified])
qed simp

lemma header_map_other: "\<forall>(k, v) \<in> set hs. lower k \<noteq> n \<Longrightarrow> map_of (header_map hs acc) n = map_of acc n"
  by (induction hs arbitrary: acc) (auto simp: map_of_update)

lemma rfind_char_last: "c \<notin> set t \<Longrightarrow> rfind_char c (s @ c # t) = Some (length s)"
  using find_char [of c "rev t" "rev s"] by (simp add: rfind_char_def)

text \<open>The target of a request line.\<close>

definition parse_target :: "string \<Rightarrow> string \<times> (string \<times> string) list" where
  "parse_target target =
    (case find_sub ''?'' target of
       Some q \<Rightarrow> (url_decode (take q target), parse_query (drop (q + 1) target) 0 [])
     | None \<Rightarrow> (url_decode target, []))"

lemma parse_line_client:
  assumes "CHR '' '' \<notin> set meth"
  shows "parse_line (meth @ '' '' @ path @ '' HTTP/1.1'') = Some (meth, parse_target path)"
proof -
  define l where "l = meth @ '' '' @ path @ '' HTTP/1.1''"
  have "find_sub '' '' l = Some (length meth)"
    using find_char [OF assms, of "path @ '' HTTP/1.1''"] by (simp add: l_def)
  moreover have "rfind_char (CHR '' '') l = Some (length meth + 1 + length path)"
    using rfind_char_last [of "CHR '' ''" "''HTTP/1.1''" "meth @ '' '' @ path"] by (simp add: l_def)
  moreover have "substr l (length meth + 1) (length path) = path" "take (length meth) l = meth" by (simp_all add: substr_def l_def)
  ultimately have "parse_line l = Some (meth, parse_target path)"
    by (simp add: parse_line_def Let_def parse_target_def split: option.splits)
  then show ?thesis by (simp add: l_def)
qed

lemma client_request_lines:
  "client_request meth hostport path headers b =
     block ((meth @ '' '' @ path @ '' HTTP/1.1'') #
       map header_text ([(''Host'', hostport), (''Connection'', ''close''), (''Content-Length'', to_string (length b))] @ headers)) @ crlf @ b"
  by (simp add: client_request_def header_lines header_text_def)

lemma clean_to_string [simp]: "clean (to_string n)"
  using to_string_digits [of "CHR 0x0D" n] by (auto simp: clean_def is_digit_def)

lemma dropWhile_to_string [simp]: "dropWhile (\<lambda>x. x = CHR '' '') (to_string n) = to_string n"
proof -
  obtain c cs where c: "to_string n = c # cs" by (meson neq_Nil_conv to_string_not_Nil)
  then show ?thesis using to_string_digits [of c n] by (auto simp: is_digit_def)
qed

lemma lower_names:
  "lower ''Host'' = ''host''" "lower ''Connection'' = ''connection''" "lower ''Content-Length'' = ''content-length''"
  "lower ''Content-Type'' = ''content-type''" "lower ''close'' = ''close''"
  by code_simp+

definition client_headers :: "string \<Rightarrow> string \<Rightarrow> (string \<times> string) list \<Rightarrow> (string \<times> string) list" where
  "client_headers hostport b headers =
     header_map headers [(''host'', dropWhile (\<lambda>x. x = CHR '' '') hostport), (''connection'', ''close''), (''content-length'', to_string (length b))]"

lemma parse_client_request:
  assumes "CHR '' '' \<notin> set meth" "clean meth" "clean path" "clean hostport" "list_all header_ok headers" "length b \<le> kMaxRequestBytes"
    and own: "\<forall>(k, v) \<in> set headers. lower k \<noteq> ''connection'' \<and> lower k \<noteq> ''content-length''"
  shows "parse_request (client_request meth hostport path headers b) =
    Parsed \<lparr>rq_method = meth, rq_path = fst (parse_target path), rq_query = snd (parse_target path),
      rq_headers = client_headers hostport b headers, rq_body = b\<rparr> False []"
proof -
  define l where "l = meth @ '' '' @ path @ '' HTTP/1.1''"
  define h where "h = [(''Host'', hostport), (''Connection'', ''close''), (''Content-Length'', to_string (length b))] @ headers"
  have h: "list_all header_ok h" using assms by (simp add: header_ok_def h_def)
  have "lines_ok (l # map header_text h)" using headers_ok_lines [OF h] assms by (simp add: lines_ok_def l_def)
  note ok = this
  define s where "s = block (l # map header_text h) @ crlf @ b"
  define e where "e = length (block (l # map header_text h)) - 2"
  note f = message_facts [OF ok, of b, folded s_def e_def]
  have hs: "fold add_header (map header_text h) [] = client_headers hostport b headers"
    unfolding headers_ok_map [OF h] by (simp add: h_def client_headers_def lower_names)
  have m: "map_of (client_headers hostport b headers) ''content-length'' = Some (to_string (length b))"
    "map_of (client_headers hostport b headers) ''connection'' = Some ''close''"
    unfolding client_headers_def by (subst header_map_other; use own in auto)+
  have n: "strtoul (to_string (length b)) = length b" using assms(6) by (intro strtoul_to_string) (simp add: kMaxRequestBytes_def)
  obtain tp tq where t: "parse_target path = (tp, tq)" by fastforce
  have p: "parse_line l = Some (meth, tp, tq)" using parse_line_client [OF assms(1)] by (simp add: l_def t)
  have "drop (e + 4 + length b) s = []" using f(6) by simp
  moreover have "client_request meth hostport path headers b = s"
    by (simp add: client_request_lines l_def h_def s_def)
  ultimately show ?thesis
    using assms(6) by (simp add: parse_request_def f f(4) [simplified] hs p m n t Let_def substr_def lower_names)
qed

lemma atoi_to_string:
  assumes "n < 2 ^ 31"
  shows "atoi (to_string n @ CHR '' '' # t) = int n"
proof -
  obtain c cs where c: "to_string n = c # cs" by (meson neq_Nil_conv to_string_not_Nil)
  have "is_digit c" using to_string_digits [of c n] c by simp
  then have d: "\<not> is_space c" "c \<noteq> CHR ''-''" "c \<noteq> CHR ''+''"
    by (auto simp: is_digit_def is_space_def)
  define s where "s = to_string n @ CHR '' '' # t"
  have s: "dropWhile is_space s = s" "hd s \<noteq> CHR ''-''" "hd s \<noteq> CHR ''+''" using d by (simp_all add: s_def c)
  have t: "takeWhile is_digit s = to_string n"
    using to_string_digits [of _ n] unfolding s_def by (subst takeWhile_append2) (auto simp: is_digit_def)
  have v: "min (2 ^ 63 - 1) (int n) = int n" using assms by (simp add: min_def)
  have w: "sint (word_of_int (int n) :: 32 word) = int n"
    unfolding sint_sbintrunc' by (rule signed_take_bit_int_eq_self) (use assms in simp_all)
  have "atoi s = int n" unfolding atoi_def Let_def s(1) using s(2,3) by (simp only: simp_thms if_False t to_string_value v w)
  then show ?thesis by (simp add: s_def)
qed

lemma reason_facts: "length (reason n) \<le> 21" "clean (reason n)"
  by (simp_all add: reason_def)

definition server_headers :: "bool \<Rightarrow> Response \<Rightarrow> (string \<times> string) list" where
  "server_headers keep r =
     header_map (rs_extra r) [(''content-type'', dropWhile (\<lambda>x. x = CHR '' '') (rs_type r)), (''content-length'', to_string (length (rs_body r))),
       (''connection'', if keep then ''keep-alive'' else ''close'')]"

lemma response_lines:
  assumes "length (to_string (rs_code r)) + length (rs_type r) + length (to_string (length (rs_body r))) \<le> 150"
  shows "response_bytes keep r =
    block ((''HTTP/1.1 '' @ to_string (rs_code r) @ '' '' @ reason (rs_code r)) #
      map header_text ([(''Content-Type'', rs_type r), (''Content-Length'', to_string (length (rs_body r))),
        (''Connection'', if keep then ''keep-alive'' else ''close'')] @ rs_extra r)) @ crlf @ rs_body r"
proof -
  let ?t = "''HTTP/1.1 '' @ to_string (rs_code r) @ '' '' @ reason (rs_code r) @ crlf @ ''Content-Type: '' @ rs_type r @ crlf @
    ''Content-Length: '' @ to_string (length (rs_body r)) @ crlf @ ''Connection: '' @ (if keep then ''keep-alive'' else ''close'') @ crlf"
  have "length ?t \<le> 255" using assms reason_facts(1) [of "rs_code r"] by (cases keep) (simp_all add: crlf_def)
  then have "response_head keep r = ?t" unfolding response_head_def by (rule take_all)
  then show ?thesis by (simp add: response_bytes_def header_lines header_text_def)
qed

lemma parse_server_response:
  assumes "length (to_string (rs_code r)) + length (rs_type r) + length (to_string (length (rs_body r))) \<le> 150"
    and "rs_code r < 2 ^ 31" "clean (rs_type r)" "list_all header_ok (rs_extra r)"
  shows "parse_response (response_bytes keep r) = \<lparr>hr_code = int (rs_code r), hr_headers = server_headers keep r, hr_body = rs_body r\<rparr>"
proof -
  define l where "l = ''HTTP/1.1 '' @ to_string (rs_code r) @ '' '' @ reason (rs_code r)"
  define h where "h = [(''Content-Type'', rs_type r), (''Content-Length'', to_string (length (rs_body r))),
    (''Connection'', if keep then ''keep-alive'' else ''close'')] @ rs_extra r"
  have h: "list_all header_ok h" using assms by (simp add: header_ok_def h_def)
  have ok: "lines_ok (l # map header_text h)"
    using headers_ok_lines [OF h] reason_facts(2) by (simp add: lines_ok_def l_def)
  define s where "s = block (l # map header_text h) @ crlf @ rs_body r"
  define e where "e = length (block (l # map header_text h)) - 2"
  note f = message_facts [OF ok, of "rs_body r", folded s_def e_def]
  have hs: "fold add_header (map header_text h) [] = server_headers keep r"
    unfolding headers_ok_map [OF h] by (simp add: h_def server_headers_def lower_names)
  have "response_bytes keep r = s" unfolding response_lines [OF assms(1)] s_def l_def h_def ..
  moreover have "atoi (drop 9 s) = int (rs_code r)"
    using atoi_to_string [OF assms(2)] by (simp add: s_def l_def)
  moreover have "\<not> length s < 12" by (simp add: s_def l_def crlf_def)
  ultimately show ?thesis
    using f(4) by (simp add: parse_response_def f hs fetch_headers_eq Let_def)
qed

end
