(* ===== verification/Worker.thy ===== *)
theory Worker
  imports Gateway_Runs Http_Client
begin

text \<open>
  The worker, \<^verbatim>\<open>src/src/worker_main.cc\<close>: it leases a job from its node, delivers it and reports the outcome. The
  property follows a grant through the texts of the connections to the queue's acknowledgement. Pauses and
  signals are left out.
\<close>

section \<open>The worker\<close>

text \<open>\<open>made\<close> is not in the code: the requests made so far.\<close>

type_synonym request_call = "string \<times> string \<times> (string \<times> string) list \<times> string"

record worker =
  node_url :: string
  worker_id :: string
  poll_ms :: int
  deliver_timeout_ms :: int
  nets :: "net list"
  made :: "request_call list"

definition worker0 :: "net list \<Rightarrow> worker" where
  "worker0 ns = \<lparr>node_url = ''http://127.0.0.1:8080'', worker_id = ''1'', poll_ms = 100, deliver_timeout_ms = 5000, nets = ns, made = []\<rparr>"

function worker_args :: "string list \<Rightarrow> worker \<Rightarrow> worker option" where
  "worker_args [] w = Some w"
| "worker_args (a # rest) w =
    (if a = ''--node'' then worker_args (tl rest) (w\<lparr>node_url := next_arg rest\<rparr>)
     else if a = ''--worker-id'' then worker_args (tl rest) (w\<lparr>worker_id := next_arg rest\<rparr>)
     else if a = ''--poll-ms'' then worker_args (tl rest) (w\<lparr>poll_ms := atoi (next_arg rest)\<rparr>)
     else if a = ''--deliver-timeout-ms'' then worker_args (tl rest) (w\<lparr>deliver_timeout_ms := atoi (next_arg rest)\<rparr>)
     else None)"
  by pat_completeness auto
termination
  by (relation "measure (\<lambda>(as, w). length as)") auto

text \<open>One exchange; without a further network result it fails like a connection that times out.\<close>

definition fetch :: "string \<Rightarrow> string \<Rightarrow> (string \<times> string) list \<Rightarrow> string \<Rightarrow> worker \<Rightarrow> HttpResponse \<times> worker" where
  "fetch meth target headers b w =
    (let w = w\<lparr>made := made w @ [(meth, target, headers, b)]\<rparr> in
     case nets w of
       [] \<Rightarrow> (HttpResponse0, w)
     | net # ns \<Rightarrow> (http_fetch meth target headers b net, w\<lparr>nets := ns\<rparr>))"

definition hdr :: "HttpResponse \<Rightarrow> string \<Rightarrow> string" where
  "hdr r k = (case map_of (hr_headers r) k of None \<Rightarrow> [] | Some v \<Rightarrow> v)"

fun ack_loop :: "nat \<Rightarrow> string \<Rightarrow> worker \<Rightarrow> worker" where
  "ack_loop 0 target w = w"
| "ack_loop (Suc n) target w =
    (let (r, w) = fetch ''POST'' target [] [] w
     in if hr_code r \<noteq> 0 \<and> hr_code r \<noteq> 503 then w else ack_loop n target w)"

definition ack_url :: "string \<Rightarrow> string \<Rightarrow> string \<Rightarrow> string \<Rightarrow> bool \<Rightarrow> string" where
  "ack_url base i ep sq ok =
    base @ ''/v1/ack?id='' @ i @ ''&epoch='' @ ep @ ''&seq='' @ sq @ ''&result='' @ (if ok then ''ok'' else ''fail'')"

definition worker_turn :: "worker \<Rightarrow> worker" where
  "worker_turn w =
    (let (lease, w) = fetch ''POST'' (node_url w @ ''/v1/lease?worker='' @ worker_id w) [] [] w in
     if hr_code lease \<noteq> 200 then w
     else
      (let i = hdr lease ''x-tautq-id''; target = hdr lease ''x-tautq-url''; key = hdr lease ''x-tautq-key'';
           ep = hdr lease ''x-tautq-epoch''; sq = hdr lease ''x-tautq-seq'' in
       if i = [] \<or> target = [] then w
       else
        (let (delivery, w) = fetch ''POST'' target [(''Idempotency-Key'', key), (''X-Tautq-Attempt'', hdr lease ''x-tautq-attempt'')]
               (hr_body lease) w;
             ok = hr_code delivery \<ge> 200 \<and> hr_code delivery < 300
         in ack_loop 50 (ack_url (node_url w) i ep sq ok) w)))"

definition worker_run :: "nat \<Rightarrow> worker \<Rightarrow> worker" where
  "worker_run turns = worker_turn ^^ turns"


section \<open>Queries\<close>

lemma url_decode_plain: "CHR ''%'' \<notin> set s \<Longrightarrow> CHR ''+'' \<notin> set s \<Longrightarrow> url_decode s = s"
  by (induction s rule: url_decode.induct) (auto simp: plus_space_def)

lemma parse_query_step:
  assumes "CHR ''&'' \<notin> set kv"
  shows "parse_query (pre @ kv @ CHR ''&'' # rest) (length pre) qry =
    parse_query (pre @ kv @ CHR ''&'' # rest) (length (pre @ kv @ ''&'')) (add_pair kv qry)"
  using find_char [OF assms, of rest] by (subst parse_query.simps) (simp add: find_at_def substr_def Let_def)

lemma parse_query_last:
  assumes "CHR ''&'' \<notin> set kv" "kv \<noteq> []"
  shows "parse_query (pre @ kv) (length pre) qry = add_pair kv qry"
proof -
  have "parse_query (pre @ kv) (Suc (length pre + length kv)) q = q" for q by (subst parse_query.simps) simp
  then show ?thesis
    using find_char_None [THEN iffD2, OF assms(1)] assms(2) by (subst parse_query.simps) (simp add: find_at_def substr_def Let_def)
qed

lemma add_pair_plain:
  assumes "CHR ''='' \<notin> set k" "CHR ''%'' \<notin> set k" "CHR ''+'' \<notin> set k" "CHR ''%'' \<notin> set v" "CHR ''+'' \<notin> set v"
  shows "add_pair (k @ CHR ''='' # v) qry = AList.update k v qry"
proof -
  have "url_decode k = k" "url_decode v = v" using assms by (simp_all add: url_decode_plain)
  then show ?thesis using find_char [OF assms(1), of v] by (simp add: add_pair_def)
qed

text \<open>Texts of hexadecimal digits need no escapes.\<close>

definition digits :: "string \<Rightarrow> bool" where
  "digits s \<longleftrightarrow> (\<forall>c \<in> set s. hex_value c \<noteq> None)"

lemma digits_hex: "digits (hex_digits n w)"
  by (induction n w rule: hex_digits.induct) (auto simp: digits_def hex_value_hex_char [OF nibble_bound])

lemma digits_text: "digits (to_hex i)" "digits (to_string n)"
proof -
  show "digits (to_hex i)" using digits_hex unfolding to_hex_def digits_def by auto
  have "hex_value c \<noteq> None" if "is_digit c" for c
    using that by (simp add: hex_value_def is_digit_def less_eq_char_def)
  then show "digits (to_string n)" using to_string_digits unfolding digits_def by blast
qed

lemma digits_not: "digits s \<Longrightarrow> hex_value c = None \<Longrightarrow> c \<notin> set s"
  by (auto simp: digits_def)

lemma not_digit:
  "hex_value (CHR ''&'') = None" "hex_value (CHR ''%'') = None" "hex_value (CHR ''+'') = None" "hex_value (CHR 0x0D) = None"
  "hex_value (CHR '' '') = None" "hex_value (CHR ''?'') = None"
  by code_simp+

lemma digits_clean: "digits s \<Longrightarrow> clean s"
  by (simp add: clean_def digits_not not_digit)

lemma digits_unspaced: "digits s \<Longrightarrow> dropWhile (\<lambda>x. x = CHR '' '') s = s"
  using not_digit(5) by (cases s) (auto simp: digits_def)

definition query_text :: "string \<Rightarrow> string \<Rightarrow> string \<Rightarrow> bool \<Rightarrow> string" where
  "query_text i ep sq ok = ''id='' @ i @ ''&epoch='' @ ep @ ''&seq='' @ sq @ ''&result='' @ (if ok then ''ok'' else ''fail'')"

lemma parse_ack_query:
  assumes "digits i" "digits ep" "digits sq"
  shows "parse_query (query_text i ep sq ok) 0 [] =
    [(''id'', i), (''epoch'', ep), (''seq'', sq), (''result'', if ok then ''ok'' else ''fail'')]"
proof -
  let ?r = "if ok then ''ok'' else ''fail''"
  have n: "CHR ''&'' \<notin> set v \<and> CHR ''%'' \<notin> set v \<and> CHR ''+'' \<notin> set v" if "digits v" for v
    using that by (simp add: digits_not not_digit)
  have a: "add_pair (''id='' @ i) q = AList.update ''id'' i q" "add_pair (''epoch='' @ ep) q = AList.update ''epoch'' ep q"
    "add_pair (''seq='' @ sq) q = AList.update ''seq'' sq q" "add_pair (''result='' @ ?r) q = AList.update ''result'' ?r q" for q
    using add_pair_plain [of "''id''" i q] add_pair_plain [of "''epoch''" ep q] add_pair_plain [of "''seq''" sq q]
      add_pair_plain [of "''result''" ?r q] n assms by simp_all
  have "parse_query (query_text i ep sq ok) 0 [] =
      parse_query (query_text i ep sq ok) (length (''id='' @ i @ ''&'')) (add_pair (''id='' @ i) [])"
    using parse_query_step [of "''id='' @ i" "[]" "''epoch='' @ ep @ ''&seq='' @ sq @ ''&result='' @ ?r" "[]"] n assms
    by (simp add: query_text_def)
  also have "\<dots> = parse_query (query_text i ep sq ok) (length (''id='' @ i @ ''&epoch='' @ ep @ ''&'')) (add_pair (''epoch='' @ ep) (add_pair (''id='' @ i) []))"
    using parse_query_step [of "''epoch='' @ ep" "''id='' @ i @ ''&''" "''seq='' @ sq @ ''&result='' @ ?r" "add_pair (''id='' @ i) []"] n assms
    by (simp add: query_text_def)
  also have "\<dots> = parse_query (query_text i ep sq ok) (length (''id='' @ i @ ''&epoch='' @ ep @ ''&seq='' @ sq @ ''&''))
      (add_pair (''seq='' @ sq) (add_pair (''epoch='' @ ep) (add_pair (''id='' @ i) [])))"
    using parse_query_step [of "''seq='' @ sq" "''id='' @ i @ ''&epoch='' @ ep @ ''&''" "''result='' @ ?r"
        "add_pair (''epoch='' @ ep) (add_pair (''id='' @ i) [])"] n assms
    by (simp add: query_text_def)
  also have "\<dots> = add_pair (''result='' @ ?r) (add_pair (''seq='' @ sq) (add_pair (''epoch='' @ ep) (add_pair (''id='' @ i) [])))"
    using parse_query_last [of "''result='' @ ?r" "''id='' @ i @ ''&epoch='' @ ep @ ''&seq='' @ sq @ ''&''"]
    by (simp add: query_text_def)
  finally show ?thesis by (simp add: a [simplified])
qed



section \<open>From call to handler\<close>

text \<open>The request a server takes from the text of a call.\<close>

definition seen_as :: "request_call \<Rightarrow> Request option" where
  "seen_as = (\<lambda>(meth, target, headers, b).
    case split_url target of
      None \<Rightarrow> None
    | Some (hostport, path, host, port) \<Rightarrow>
       (case parse_request (client_request meth hostport path headers b) of Parsed r keep rest \<Rightarrow> Some r | _ \<Rightarrow> None))"

lemma split_url_path:
  assumes "CHR ''/'' \<notin> set hp"
  shows "\<exists>host port. split_url (''http://'' @ hp @ CHR ''/'' # p) = Some (hp, CHR ''/'' # p, host, port)"
proof -
  have "find_sub ''/'' (hp @ CHR ''/'' # p) = Some (length hp)" by (rule find_char [OF assms])
  then show ?thesis by (simp add: split_url_def has_prefix_def Let_def split: option.splits)
qed

lemma seen_as_call:
  assumes "CHR ''/'' \<notin> set hp" "clean hp" "CHR '' '' \<notin> set meth" "clean meth" "clean p" "list_all header_ok headers" "length b \<le> kMaxRequestBytes"
    and "\<forall>(k, v) \<in> set headers. lower k \<noteq> ''connection'' \<and> lower k \<noteq> ''content-length''"
  shows "seen_as (meth, ''http://'' @ hp @ CHR ''/'' # p, headers, b) =
    Some \<lparr>rq_method = meth, rq_path = fst (parse_target (CHR ''/'' # p)), rq_query = snd (parse_target (CHR ''/'' # p)),
      rq_headers = client_headers hp b headers, rq_body = b\<rparr>"
proof -
  obtain host port where "split_url (''http://'' @ hp @ CHR ''/'' # p) = Some (hp, CHR ''/'' # p, host, port)"
    using split_url_path [OF assms(1)] by blast
  moreover have "clean (CHR ''/'' # p)" using assms(5) by simp
  ultimately show ?thesis using parse_client_request [OF assms(3,4) _ assms(2,6,7,8), of "CHR ''/'' # p"] by (simp add: seen_as_def)
qed

lemma ack_target:
  assumes "digits i" "digits ep" "digits sq"
  shows "parse_target (''/v1/ack?'' @ query_text i ep sq ok) =
    (''/v1/ack'', [(''id'', i), (''epoch'', ep), (''seq'', sq), (''result'', if ok then ''ok'' else ''fail'')])"
proof -
  have "find_sub ''?'' (''/v1/ack?'' @ query_text i ep sq ok) = Some 7"
    using find_char [of "CHR ''?''" "''/v1/ack''" "query_text i ep sq ok"] by simp
  then show ?thesis using parse_ack_query [OF assms] by (simp add: parse_target_def plus_space_def)
qed

text \<open>The report of the worker reaches the queue as the acknowledgement of exactly that grant.\<close>

definition reports :: "request_call \<Rightarrow> LeaseGrant \<Rightarrow> bool \<Rightarrow> bool" where
  "reports c g ok \<longleftrightarrow> (\<exists>r. seen_as c = Some r \<and> find_route (rq_method r @ '' '' @ rq_path r) (routes server) = Some AckRoute \<and>
     map_of (rq_query r) ''id'' = Some (to_hex (g_id g)) \<and> qnum r ''epoch'' 0 = Some (g_epoch g) \<and> qnum r ''seq'' 0 = Some (g_lease_seq g) \<and>
     (map_of (rq_query r) ''result'' = Some ''ok'') = ok)"

lemma reports_ack:
  assumes "reports c g ok"
  shows "\<exists>r. seen_as c = Some r \<and> find_route (rq_method r @ '' '' @ rq_path r) (routes server) = Some AckRoute \<and>
    handle E AckRoute r re gw = Some (ask E (OnAck (g_id g) (g_epoch g) (g_lease_seq g) ok) JobId0 re gw)"
  using assms by (auto simp: reports_def from_hex_of)

lemma qnum_printed: "map_of (rq_query r) k = Some (to_string (unat n)) \<Longrightarrow> qnum r k d = Some n"
proof -
  assume "map_of (rq_query r) k = Some (to_string (unat n))"
  moreover have "unat (ucast n :: u64) = unat n"
    using unat_u32_bound [of n] by (simp add: unsigned_ucast_eq take_bit_nat_def)
  then have "parse_u64 (to_string (unat n)) = Some (ucast n)" by (metis parse_u64_to_string)
  moreover have "ucast (ucast n :: u64) = n" by (rule bit_word_eqI) (simp add: bit_unsigned_iff)
  ultimately show ?thesis by (simp add: qnum_def)
qed

lemma ack_route: "find_route ''POST /v1/ack'' (routes server) = Some AckRoute"
  by (simp add: server_def add_route_def http_new_def find_route_def has_prefix_def)

lemma ack_reports:
  assumes "CHR ''/'' \<notin> set hp" "clean hp"
  shows "reports (''POST'', ack_url (''http://'' @ hp) (to_hex (g_id g)) (to_string (unat (g_epoch g))) (to_string (unat (g_lease_seq g))) ok, [], []) g ok"
proof -
  let ?q = "query_text (to_hex (g_id g)) (to_string (unat (g_epoch g))) (to_string (unat (g_lease_seq g))) ok"
  have c: "clean (''v1/ack?'' @ ?q)" by (simp add: query_text_def digits_clean digits_text)
  have u: "ack_url (''http://'' @ hp) (to_hex (g_id g)) (to_string (unat (g_epoch g))) (to_string (unat (g_lease_seq g))) ok =
      ''http://'' @ hp @ CHR ''/'' # ''v1/ack?'' @ ?q"
    by (simp add: ack_url_def query_text_def)
  have t: "parse_target (CHR ''/'' # ''v1/ack?'' @ ?q) = (''/v1/ack'', [(''id'', to_hex (g_id g)), (''epoch'', to_string (unat (g_epoch g))),
      (''seq'', to_string (unat (g_lease_seq g))), (''result'', if ok then ''ok'' else ''fail'')])"
    using ack_target [OF digits_text(1,2,2)] by simp
  show ?thesis
    unfolding u reports_def
    by (subst seen_as_call [OF assms _ _ c]) (simp_all add: t [simplified] qnum_printed ack_route kMaxRequestBytes_def)
qed



section \<open>From grant to worker\<close>

text \<open>Every call of an exchange succeeds, and these bytes arrive before the server closes, in any pieces.\<close>

definition exchanged :: "net \<Rightarrow> string \<Rightarrow> string \<Rightarrow> (string \<times> string) list \<Rightarrow> string \<Rightarrow> string \<Rightarrow> bool" where
  "exchanged net meth target headers b resp \<longleftrightarrow> (\<exists>hostport path host port. split_url target = Some (hostport, path, host, port) \<and>
     n_socket net \<and> n_address net host \<and> n_connect net \<and> n_writable net \<and> n_no_error net \<and>
     send_request (n_sends net) (length (client_request meth hostport path headers b)) \<and> recv_all (n_recvs net) = Some resp)"

lemma exchanged_fetch: "exchanged net meth target headers b resp \<Longrightarrow> http_fetch meth target headers b net = parse_response resp"
  by (auto simp: exchanged_def http_fetch_def Let_def)

definition grant_ok :: "LeaseGrant \<Rightarrow> bool" where
  "grant_ok g \<longleftrightarrow> (\<forall>s \<in> {g_url g, g_idem_key g}. clean s \<and> dropWhile (\<lambda>x. x = CHR '' '') s = s) \<and> g_url g \<noteq> [] \<and> length (g_body g) < 2 ^ 64"

lemma lower_grant:
  "lower ''X-Tautq-Id'' = ''x-tautq-id''" "lower ''X-Tautq-Epoch'' = ''x-tautq-epoch''" "lower ''X-Tautq-Seq'' = ''x-tautq-seq''"
  "lower ''X-Tautq-Url'' = ''x-tautq-url''" "lower ''X-Tautq-Key'' = ''x-tautq-key''" "lower ''X-Tautq-Attempt'' = ''x-tautq-attempt''"
  "lower ''X-Tautq-Visibility-Ms'' = ''x-tautq-visibility-ms''" "lower ''Idempotency-Key'' = ''idempotency-key''"
  by code_simp+

lemma grant_short:
  assumes "length b < 2 ^ 64"
  shows "length (to_string 200) + length ''application/octet-stream'' + length (to_string (length b)) \<le> 150"
  using to_string_length [of "length b" 19] to_string_length [of 200 2] assms by (simp)

lemma grant_read:
  fixes keep :: bool
  assumes "grant_ok g"
  defines "r \<equiv> parse_response (response_bytes keep (lease_response kCreated g))"
  shows "hr_code r = 200" "hr_body r = string_of_bytes (g_body g)" "hdr r ''x-tautq-id'' = to_hex (g_id g)"
    "hdr r ''x-tautq-epoch'' = to_string (unat (g_epoch g))" "hdr r ''x-tautq-seq'' = to_string (unat (g_lease_seq g))"
    "hdr r ''x-tautq-url'' = g_url g" "hdr r ''x-tautq-key'' = g_idem_key g" "hdr r ''x-tautq-attempt'' = to_string (unat (g_attempt g))"
proof -
  let ?r = "lease_response kCreated g"
  have c: "length (g_body g) < 2 ^ 64" "clean (g_url g)" "clean (g_idem_key g)" using assms(1) by (auto simp: grant_ok_def)
  have h: "list_all header_ok (rs_extra ?r)"
    using c by (simp add: lease_response_def header_ok_def digits_clean digits_text)
  have p: "r = \<lparr>hr_code = int (rs_code ?r), hr_headers = server_headers keep ?r, hr_body = rs_body ?r\<rparr>"
    unfolding r_def by (rule parse_server_response [OF _ _ _ h])
      (use grant_short [of "g_body g"] c in \<open>simp_all add: lease_response_def string_of_bytes_def\<close>)
  show "hr_code r = 200" "hr_body r = string_of_bytes (g_body g)" by (simp_all add: p lease_response_def)
  show "hdr r ''x-tautq-id'' = to_hex (g_id g)" "hdr r ''x-tautq-epoch'' = to_string (unat (g_epoch g))"
    "hdr r ''x-tautq-seq'' = to_string (unat (g_lease_seq g))" "hdr r ''x-tautq-url'' = g_url g" "hdr r ''x-tautq-key'' = g_idem_key g"
    "hdr r ''x-tautq-attempt'' = to_string (unat (g_attempt g))"
    using assms(1) by (simp_all add: p hdr_def server_headers_def lease_response_def lower_grant map_of_update digits_unspaced digits_text grant_ok_def)
qed

text \<open>
  Nothing keeps a line end out of a job's URL: one that carries a further header line makes the worker report the
  outcome for another job.
\<close>

lemma url_injects_header:
  assumes "clean u" "clean (g_idem_key g)" "length (g_body g) < 2 ^ 64"
  shows "hdr (parse_response (response_bytes keep (lease_response kCreated (g\<lparr>g_url := u @ crlf @ ''X-Tautq-Id: '' @ to_hex i\<rparr>)))) ''x-tautq-id'' = to_hex i"
proof -
  let ?r = "lease_response kCreated (g\<lparr>g_url := u @ crlf @ ''X-Tautq-Id: '' @ to_hex i\<rparr>)"
  define r where "r = ?r\<lparr>rs_extra := [(''X-Tautq-Id'', to_hex (g_id g)), (''X-Tautq-Epoch'', to_string (unat (g_epoch g))),
    (''X-Tautq-Seq'', to_string (unat (g_lease_seq g))), (''X-Tautq-Url'', u), (''X-Tautq-Id'', to_hex i), (''X-Tautq-Key'', g_idem_key g),
    (''X-Tautq-Attempt'', to_string (unat (g_attempt g))), (''X-Tautq-Visibility-Ms'', to_string (unat (g_visibility_ms g)))]\<rparr>"
  have "response_bytes keep ?r = response_bytes keep r"
    by (simp add: r_def response_bytes_def response_head_def header_line_def lease_response_def)
  moreover have h: "list_all header_ok (rs_extra r)" using assms by (simp add: r_def header_ok_def digits_clean digits_text)
  have "parse_response (response_bytes keep r) = \<lparr>hr_code = int (rs_code r), hr_headers = server_headers keep r, hr_body = rs_body r\<rparr>"
    by (rule parse_server_response [OF _ _ _ h])
      (use grant_short [of "g_body g"] assms(3) in \<open>simp_all add: r_def lease_response_def string_of_bytes_def\<close>)
  ultimately show ?thesis
    by (simp add: hdr_def server_headers_def r_def lower_grant map_of_update digits_unspaced digits_text)
qed

lemma to_hex_length: "length (to_hex i) = 32"
  by (simp add: to_hex_def)

lemma fetch_simps [simp]:
  "made (snd (fetch m t h b w)) = made w @ [(m, t, h, b)]" "node_url (snd (fetch m t h b w)) = node_url w"
  "nets (snd (fetch m t h b w)) = tl (nets w)"
  "fst (fetch m t h b w) = (case nets w of [] \<Rightarrow> HttpResponse0 | net # ns \<Rightarrow> http_fetch m t h b net)"
  by (simp_all add: fetch_def Let_def split: list.splits)

lemma ack_loop_made: "\<exists>n. made (ack_loop k u w) = made w @ replicate n (''POST'', u, [], []) \<and> n \<le> k \<and> (0 < k \<longrightarrow> 0 < n)"
proof (induction k arbitrary: w)
  case (Suc k)
  let ?w = "snd (fetch ''POST'' u [] [] w)"
  from Suc.IH [of ?w] obtain n where n: "made (ack_loop k u ?w) = made ?w @ replicate n (''POST'', u, [], [])" "n \<le> k" by blast
  have "made (ack_loop (Suc k) u w) \<in> {made ?w, made (ack_loop k u ?w)}" by (simp add: case_prod_beta Let_def)
  then consider "made (ack_loop (Suc k) u w) = made w @ replicate 1 (''POST'', u, [], [])"
    | "made (ack_loop (Suc k) u w) = made w @ replicate (Suc n) (''POST'', u, [], [])"
    using n by auto
  then show ?case using n(2) by (metis Suc_le_mono le0 One_nat_def zero_less_Suc)
qed simp


section \<open>Properties\<close>

text \<open>
  C15. The worker reports what it was granted. Let the node's URL be \<open>http://\<close> and a host without slash or carriage
  return, and let the granted job's URL and key have no carriage return and no leading blank, and the URL not be empty;
  nothing in the code enforces this of a job (\<open>url_injects_header\<close>). When the node's answer to the lease request
  arrives, whatever the job's body and in whatever pieces, the worker delivers that body to the job's URL under the
  job's key, and then calls the node between one and fifty times with a report that the node takes as the
  acknowledgement of exactly that job, epoch and lease number, successful just when the delivery was
  answered with a code from 200 to 299.
\<close>

theorem worker_acks_grant:
  assumes "node_url w = ''http://'' @ hp" "CHR ''/'' \<notin> set hp" "clean hp" "grant_ok g" "nets w = net # ns"
    and "exchanged net ''POST'' (node_url w @ ''/v1/lease?worker='' @ worker_id w) [] [] (response_bytes keep (lease_response kCreated g))"
  shows "let lease = (''POST'', node_url w @ ''/v1/lease?worker='' @ worker_id w, [], []);
      hs = [(''Idempotency-Key'', g_idem_key g), (''X-Tautq-Attempt'', to_string (unat (g_attempt g)))];
      b = string_of_bytes (g_body g);
      code = hr_code (case ns of [] \<Rightarrow> HttpResponse0 | net' # _ \<Rightarrow> http_fetch ''POST'' (g_url g) hs b net')
    in \<exists>n ack r. made (worker_turn w) = made w @ [lease, (''POST'', g_url g, hs, b)] @ replicate n ack \<and> 1 \<le> n \<and> n \<le> 50 \<and>
      seen_as ack = Some r \<and> find_route (rq_method r @ '' '' @ rq_path r) (routes server) = Some AckRoute \<and>
      handle E AckRoute r re gw = Some (ask E (OnAck (g_id g) (g_epoch g) (g_lease_seq g) (200 \<le> code \<and> code < 300)) JobId0 re gw)"
proof -
  let ?hs = "[(''Idempotency-Key'', g_idem_key g), (''X-Tautq-Attempt'', to_string (unat (g_attempt g)))]"
  let ?b = "string_of_bytes (g_body g)" and ?l = "node_url w @ ''/v1/lease?worker='' @ worker_id w"
  let ?code = "hr_code (case ns of [] \<Rightarrow> HttpResponse0 | net' # _ \<Rightarrow> http_fetch ''POST'' (g_url g) ?hs ?b net')"
  let ?ok = "200 \<le> ?code \<and> ?code < 300"
  let ?u = "ack_url (''http://'' @ hp) (to_hex (g_id g)) (to_string (unat (g_epoch g))) (to_string (unat (g_lease_seq g))) ?ok"
  define w1 where "w1 = snd (fetch ''POST'' ?l [] [] w)"
  define w2 where "w2 = snd (fetch ''POST'' (g_url g) ?hs ?b w1)"
  define lr where "lr = parse_response (response_bytes keep (lease_response kCreated g))"
  note lr = grant_read [OF assms(4), of keep, folded lr_def]
  have f: "fst (fetch ''POST'' ?l [] [] w) = lr" unfolding lr_def fetch_simps assms(5) list.case by (rule exchanged_fetch [OF assms(6)])
  have n: "to_hex (g_id g) \<noteq> []" "g_url g \<noteq> []" using to_hex_length [of "g_id g"] assms(4) by (auto simp: grant_ok_def)
  have w1: "nets w1 = ns" "node_url w1 = ''http://'' @ hp" "made w1 = made w @ [(''POST'', ?l, [], [])]"
    using assms(1,5) by (simp_all add: w1_def)
  have w2: "node_url w2 = ''http://'' @ hp" "hr_code (fst (fetch ''POST'' (g_url g) ?hs ?b w1)) = ?code"
    using w1 by (simp_all add: w2_def)
  have "worker_turn w = ack_loop 50 ?u w2"
    using n unfolding worker_turn_def case_prod_beta Let_def f lr
    by (simp only: w1_def [symmetric] w2_def [symmetric] w2 simp_thms if_False)
  moreover obtain n where "made (ack_loop 50 ?u w2) = made w2 @ replicate n (''POST'', ?u, [], [])" "n \<le> 50" "0 < n"
    using ack_loop_made [of 50 ?u w2] by auto
  moreover have "made w2 = made w @ [(''POST'', ?l, [], []), (''POST'', g_url g, ?hs, ?b)]" by (simp add: w2_def w1)
  ultimately have t: "made (worker_turn w) = made w @ [(''POST'', ?l, [], []), (''POST'', g_url g, ?hs, ?b)] @ replicate n (''POST'', ?u, [], [])"
    "1 \<le> n" "n \<le> 50" by simp_all
  from reports_ack [OF ack_reports [OF assms(2,3), of g ?ok], of E re gw] obtain r where "seen_as (''POST'', ?u, [], []) = Some r"
    "find_route (rq_method r @ '' '' @ rq_path r) (routes server) = Some AckRoute"
    "handle E AckRoute r re gw = Some (ask E (OnAck (g_id g) (g_epoch g) (g_lease_seq g) ?ok) JobId0 re gw)" by blast
  with t show ?thesis unfolding Let_def by blast
qed

text \<open>A worker whose node answers with a grant, and whose other connections time out.\<close>

definition sample_grant :: LeaseGrant where
  "sample_grant = LeaseGrant0\<lparr>g_url := ''http://s/x'', g_idem_key := ''k'', g_epoch := 2, g_lease_seq := 3\<rparr>"

definition sample_worker :: worker where
  "sample_worker = (worker0 [\<lparr>n_socket = True, n_address = (\<lambda>_. True), n_connect = True, n_writable = True, n_no_error = True,
     n_sends = [Sent 1000], n_recvs = [Received (response_bytes False (lease_response kCreated sample_grant)), Received []]\<rparr>])
     \<lparr>node_url := ''http://h''\<rparr>"

theorem worker_acks_grant_witness:
  "\<exists>n ack. made (worker_turn sample_worker) =
     [(''POST'', ''http://h/v1/lease?worker=1'', [], []),
      (''POST'', ''http://s/x'', [(''Idempotency-Key'', ''k''), (''X-Tautq-Attempt'', ''0'')], [])] @ replicate n ack \<and> 1 \<le> n \<and> n \<le> 50"
proof -
  let ?b = "response_bytes False (lease_response kCreated sample_grant)"
  obtain net where net: "nets sample_worker = net # []" "n_socket net" "\<And>a. n_address net a" "n_connect net" "n_writable net" "n_no_error net"
    "n_sends net = [Sent 1000]" "n_recvs net = [Received ?b, Received []]"
    by (simp add: sample_worker_def worker0_def)
  have u: "node_url sample_worker = ''http://'' @ ''h''" "worker_id sample_worker = ''1''" "made sample_worker = []"
    by (simp_all add: sample_worker_def worker0_def)
  have g: "grant_ok sample_grant" by (simp add: grant_ok_def sample_grant_def LeaseGrant0_def)
  have n: "?b \<noteq> []" by (simp add: response_bytes_def crlf_def)
  have "split_url (''http://'' @ ''h'' @ CHR ''/'' # ''v1/lease?worker=1'') = Some (''h'', ''/v1/lease?worker=1'', ''h'', 80)"
    by (simp add: split_url_def has_prefix_def Let_def)
  moreover have "send_request [Sent 1000] (length (client_request ''POST'' ''h'' ''/v1/lease?worker=1'' [] []))" by code_simp
  ultimately have e: "exchanged net ''POST'' (node_url sample_worker @ ''/v1/lease?worker='' @ worker_id sample_worker) [] [] ?b"
    using net n u by (simp add: exchanged_def)
  have c: "CHR ''/'' \<notin> set ''h''" "clean ''h''" by simp_all
  have t: "to_string 0 = ''0''" by code_simp
  from worker_acks_grant [OF u(1) c g net(1) e, of sample_env "(1, False)" "gateway_new sample_node"]
  show ?thesis by (auto simp: Let_def u sample_grant_def LeaseGrant0_def string_of_bytes_def t)
qed

end
