(* ===== verification/Verify.thy ===== *)
theory Verify
  imports Store
begin

text \<open>
  The judge of the chaos runs, \<^verbatim>\<open>src/src/verify_main.cc\<close>: it replays the log of every node, reads the accepted
  submissions and the receipts of the sink, and passes or fails the run. The property says what a pass
  means over the records in the logs. A directory name is one path component, the two text files are given by a
  function from names to contents, and the messages on the error stream are left out.
\<close>

section \<open>What the logs say of a job\<close>

record JobFacts =
  merged :: Job
  have_copy :: bool
  done_seqs :: "u32 set"
  max_lease_seq :: u32
  max_epoch :: u32

definition JobFacts0 :: JobFacts where
  "JobFacts0 = \<lparr>merged = Job0, have_copy = False, done_seqs = {}, max_lease_seq = 0, max_epoch = 1\<rparr>"

record facts =
  v_jobs :: "(string \<times> JobFacts) list"
  key_ids :: "(string \<times> string set) list"

definition facts0 :: facts where
  "facts0 = \<lparr>v_jobs = [], key_ids = []\<rparr>"

text \<open>\<open>jobs[to_hex(id)]\<close>, which makes the entry if there is none, and a change of it.\<close>

definition facts_at :: "string \<Rightarrow> facts \<Rightarrow> JobFacts" where
  "facts_at h v = (case map_of (v_jobs v) h of None \<Rightarrow> JobFacts0 | Some f \<Rightarrow> f)"

definition at_job :: "JobId \<Rightarrow> (JobFacts \<Rightarrow> JobFacts) \<Rightarrow> facts \<Rightarrow> facts" where
  "at_job i F v = v\<lparr>v_jobs := AList.update (to_hex i) (F (facts_at (to_hex i) v)) (v_jobs v)\<rparr>"

definition add_key :: "string \<Rightarrow> string \<Rightarrow> facts \<Rightarrow> facts" where
  "add_key k h v = v\<lparr>key_ids := AList.update k (insert h (case map_of (key_ids v) k of None \<Rightarrow> {} | Some s \<Rightarrow> s)) (key_ids v)\<rparr>"

definition merge_copy :: "Job \<Rightarrow> JobFacts \<Rightarrow> JobFacts" where
  "merge_copy j f =
    (if \<not> have_copy f \<or> job_advances (merged f) j then f\<lparr>merged := j\<rparr> else f)
      \<lparr>have_copy := True, max_lease_seq := max (max_lease_seq f) (lease_seq j), max_epoch := max (max_epoch f) (epoch j)\<rparr>"

definition fold_job :: "Job \<Rightarrow> facts \<Rightarrow> facts" where
  "fold_job j v = add_key (idem_key j) (to_hex (job_id j)) (at_job (job_id j) (merge_copy j) v)"

fun fold_record :: "Record \<Rightarrow> facts \<Rightarrow> facts" where
  "fold_record (SubmitRec j) v = fold_job j v"
| "fold_record (ReplicateRec j) v = fold_job j v"
| "fold_record (LeaseRec i ep sq w) v =
    at_job i (\<lambda>f. f\<lparr>max_lease_seq := max (max_lease_seq f) sq, max_epoch := max (max_epoch f) ep\<rparr>) v"
| "fold_record (DoneRec i ep sq) v =
    at_job i (\<lambda>f.
      let f = f\<lparr>done_seqs := insert sq (done_seqs f)\<rparr>;
          done_marker = (merged f)\<lparr>job_id := i, state := Done, epoch := max (max_epoch f) ep\<rparr>
      in if \<not> have_copy f \<or> job_advances (merged f) done_marker then f\<lparr>merged := done_marker, have_copy := True\<rparr> else f) v"
| "fold_record (TakeoverRec i ep ow) v = at_job i (\<lambda>f. f\<lparr>max_epoch := max (max_epoch f) ep\<rparr>) v"
| "fold_record (DeadLetterRec i ep) v =
    at_job i (\<lambda>f.
      if have_copy f then
        (let m = (merged f)\<lparr>state := DeadLetter, epoch := max (max_epoch f) ep\<rparr>
         in if job_advances (merged f) m then f\<lparr>merged := m\<rparr> else f)
      else f) v"
| "fold_record (ExpireRec i ep sq) v = v"

fun fold_log :: "bytes list \<Rightarrow> facts \<Rightarrow> facts option" where
  "fold_log [] v = Some v"
| "fold_log (b # bs) v =
    (case decode_record b of
       None \<Rightarrow> None
     | Some None \<Rightarrow> fold_log bs v
     | Some (Some (r, lsn)) \<Rightarrow> fold_log bs (fold_record r v))"

function log_names :: "string \<Rightarrow> nat \<Rightarrow> string list" where
  "log_names s k =
    (if k < length s then
      (let comma = (case find_at '','' s k of None \<Rightarrow> length s | Some c \<Rightarrow> c); dir = substr s k (comma - k)
       in if dir = [] then log_names s (comma + 1) else dir # log_names s (comma + 1))
     else [])"
  by pat_completeness auto
termination
  by (relation "measure (\<lambda>(s, k). length s - k)") (auto dest: find_at_bound split: option.splits)

declare log_names.simps [simp del]

text \<open>The outer \<open>None\<close> is a read outside a buffer, the inner one a log that cannot be replayed.\<close>

fun fold_logs :: "(bytes \<Rightarrow> u32) \<Rightarrow> nat \<Rightarrow> string list \<Rightarrow> disk \<Rightarrow> facts \<Rightarrow> facts option option" where
  "fold_logs crc sb [] d v = Some (Some v)"
| "fold_logs crc sb (dir # names) d v =
    (case wal_open crc [dir] (wal_new sb d) of
       None \<Rightarrow> None
     | Some (ok, bs, w) \<Rightarrow>
        (case fold_log bs v of
           None \<Rightarrow> None
         | Some v \<Rightarrow> if ok then fold_logs crc sb names (wdisk w) v else Some None))"


section \<open>Submissions and receipts\<close>

text \<open>\<open>std::getline\<close> up to a delimiter, and \<open>operator>>\<close> of a string, with what is left of the stream.\<close>

definition getline :: "char \<Rightarrow> string \<Rightarrow> (string \<times> string) option" where
  "getline c s = (if s = [] then None else Some (takeWhile (\<lambda>x. x \<noteq> c) s, drop 1 (dropWhile (\<lambda>x. x \<noteq> c) s)))"

definition get_word :: "string \<Rightarrow> (string \<times> string) option" where
  "get_word s =
    (let s = dropWhile is_space s; w = takeWhile (\<lambda>x. \<not> is_space x) s
     in if w = [] then None else Some (w, dropWhile (\<lambda>x. \<not> is_space x) s))"

lemma getline_shorter: "getline c s = Some (l, rest) \<Longrightarrow> length rest < length s"
proof -
  assume "getline c s = Some (l, rest)"
  then have "rest = drop 1 (dropWhile (\<lambda>x. x \<noteq> c) s)" "s \<noteq> []" by (auto simp: getline_def split: if_splits)
  then show ?thesis using length_dropWhile_le [of "\<lambda>x. x \<noteq> c" s] by (cases s) auto
qed

function lines :: "string \<Rightarrow> string list" where
  "lines s = (case getline (CHR 0x0A) s of None \<Rightarrow> [] | Some (l, rest) \<Rightarrow> l # lines rest)"
  by pat_completeness auto
termination
  by (relation "measure length") (auto simp: getline_shorter)

declare lines.simps [simp del]

definition accepted_line :: "string \<Rightarrow> (string \<times> string) option" where
  "accepted_line line = do {
     (key, l) \<leftarrow> getline (CHR '','') line;
     (i, l) \<leftarrow> getline (CHR '','') l;
     (code, l) \<leftarrow> getline (CHR '','') l;
     if code = ''200'' \<or> code = ''201'' then Some (key, i) else None
   }"

definition accepted_in :: "string \<Rightarrow> (string \<times> string) list" where
  "accepted_in txt = fold (\<lambda>l acc. case accepted_line l of None \<Rightarrow> acc | Some (key, i) \<Rightarrow> AList.update key i acc) (lines txt) []"

definition receipt_key :: "string \<Rightarrow> string option" where
  "receipt_key line = do { (ms, l) \<leftarrow> get_word line; (key, l) \<leftarrow> get_word l; Some key }"

definition deliveries_in :: "string \<Rightarrow> (string \<times> nat) list" where
  "deliveries_in txt =
    fold (\<lambda>l acc. case receipt_key l of
        None \<Rightarrow> acc
      | Some key \<Rightarrow> AList.update key ((case map_of acc key of None \<Rightarrow> 0 | Some n \<Rightarrow> n) + 1) acc) (lines txt) []"


section \<open>The verdict\<close>

definition in_state :: "JobState \<Rightarrow> string \<Rightarrow> facts \<Rightarrow> bool" where
  "in_state x i v = (case map_of (v_jobs v) i of None \<Rightarrow> False | Some f \<Rightarrow> state (merged f) = x)"

definition lost :: "bool \<Rightarrow> facts \<Rightarrow> string \<times> string \<Rightarrow> bool" where
  "lost allow_dlq v = (\<lambda>(key, i). \<not> in_state Done i v \<and> \<not> (allow_dlq \<and> in_state DeadLetter i v))"

definition double_done :: "string \<times> JobFacts \<Rightarrow> bool" where
  "double_done = (\<lambda>(i, f). card (done_seqs f) > 1)"

definition fallback_twin :: "facts \<Rightarrow> string \<Rightarrow> bool" where
  "fallback_twin v key = (case map_of (key_ids v) key of None \<Rightarrow> False | Some s \<Rightarrow> card s > 1)"

definition attributable :: "(string \<times> string) list \<Rightarrow> facts \<Rightarrow> string \<Rightarrow> bool" where
  "attributable acc v key =
    (fallback_twin v key \<or>
     (case map_of acc key of
        None \<Rightarrow> False
      | Some i \<Rightarrow> (case map_of (v_jobs v) i of None \<Rightarrow> False | Some f \<Rightarrow> max_lease_seq f > 1 \<or> max_epoch f > 1)))"

record report =
  n_lost :: nat
  n_double_done :: nat
  n_unexplained :: nat
  n_dlq :: nat
  n_twins :: nat
  dup_total :: nat

definition judge :: "bool \<Rightarrow> (string \<times> string) list \<Rightarrow> (string \<times> nat) list \<Rightarrow> facts \<Rightarrow> report" where
  "judge allow_dlq acc del v =
    (let repeated = filter (\<lambda>(key, n). n > 1) del
     in \<lparr>n_lost = length (filter (lost allow_dlq v) acc),
         n_double_done = length (filter double_done (v_jobs v)),
         n_unexplained = length (filter (\<lambda>(key, n). \<not> attributable acc v key) repeated),
         n_dlq = length (filter (\<lambda>(key, i). in_state DeadLetter i v) acc),
         n_twins = length (filter (\<lambda>(key, n). fallback_twin v key) repeated),
         dup_total = sum_list (map (\<lambda>(key, n). if n > 1 then n - 1 else 0) del)\<rparr>)"

definition failures :: "report \<Rightarrow> nat" where
  "failures r = of_bool (n_lost r \<noteq> 0) + of_bool (n_double_done r \<noteq> 0) + of_bool (n_unexplained r \<noteq> 0)"

record verify_options =
  submits_path :: string
  sink_path :: string
  logs_csv :: string
  allow_dlq :: bool

definition verify :: "(bytes \<Rightarrow> u32) \<Rightarrow> nat \<Rightarrow> verify_options \<Rightarrow> (string \<Rightarrow> string option) \<Rightarrow> disk \<Rightarrow> nat option" where
  "verify crc sb opts file d =
    (case fold_logs crc sb (log_names (logs_csv opts) 0) d facts0 of
       None \<Rightarrow> None
     | Some None \<Rightarrow> Some 1
     | Some (Some v) \<Rightarrow>
        (case file (submits_path opts) of
           None \<Rightarrow> Some 1
         | Some subs \<Rightarrow>
            (case file (sink_path opts) of
               None \<Rightarrow> Some 1
             | Some rcpts \<Rightarrow>
                Some (if failures (judge (allow_dlq opts) (accepted_in subs) (deliveries_in rcpts) v) = 0 then 0 else 1))))"

text \<open>The loop over the arguments: \<open>None\<close> for an unknown one.\<close>

function verify_args :: "string list \<Rightarrow> verify_options \<Rightarrow> verify_options option" where
  "verify_args [] opts = Some opts"
| "verify_args (a # rest) opts =
    (if a = ''--submits'' then verify_args (tl rest) (opts\<lparr>submits_path := next_arg rest\<rparr>)
     else if a = ''--sink'' then verify_args (tl rest) (opts\<lparr>sink_path := next_arg rest\<rparr>)
     else if a = ''--logs'' then verify_args (tl rest) (opts\<lparr>logs_csv := next_arg rest\<rparr>)
     else if a = ''--allow-dlq'' then verify_args rest (opts\<lparr>allow_dlq := True\<rparr>)
     else None)"
  by pat_completeness auto
termination
  by (relation "measure (\<lambda>(as, opts). length as)") auto

definition verify_main :: "(bytes \<Rightarrow> u32) \<Rightarrow> nat \<Rightarrow> string list \<Rightarrow> (string \<Rightarrow> string option) \<Rightarrow> disk \<Rightarrow> nat option" where
  "verify_main crc sb args file d =
    (case verify_args args \<lparr>submits_path = [], sink_path = [], logs_csv = [], allow_dlq = False\<rparr> of
       None \<Rightarrow> Some 2
     | Some opts \<Rightarrow> verify crc sb opts file d)"


section \<open>What a verdict rests on\<close>

text \<open>The records the logs hold, in the order they are replayed.\<close>

definition decoded :: "bytes list \<Rightarrow> Record list" where
  "decoded = List.map_filter (\<lambda>b. case decode_record b of Some (Some (r, lsn)) \<Rightarrow> Some r | _ \<Rightarrow> None)"

fun replayed :: "(bytes \<Rightarrow> u32) \<Rightarrow> nat \<Rightarrow> string list \<Rightarrow> disk \<Rightarrow> Record list" where
  "replayed crc sb [] d = []"
| "replayed crc sb (dir # names) d =
    (case wal_open crc [dir] (wal_new sb d) of
       None \<Rightarrow> []
     | Some (ok, bs, w) \<Rightarrow> decoded bs @ replayed crc sb names (wdisk w))"

fun job_of_rec :: "Record \<Rightarrow> JobId" where
  "job_of_rec (SubmitRec j) = job_id j"
| "job_of_rec (ReplicateRec j) = job_id j"
| "job_of_rec (LeaseRec i ep sq w) = i"
| "job_of_rec (DoneRec i ep sq) = i"
| "job_of_rec (ExpireRec i ep sq) = i"
| "job_of_rec (DeadLetterRec i ep) = i"
| "job_of_rec (TakeoverRec i ep ow) = i"

fun copy_of :: "Record \<Rightarrow> Job option" where
  "copy_of (SubmitRec j) = Some j"
| "copy_of (ReplicateRec j) = Some j"
| "copy_of _ = None"

text \<open>A record that completes its job, buries it, or shows a second grant or owner.\<close>

fun completes :: "Record \<Rightarrow> bool" where
  "completes (DoneRec i ep sq) = True"
| "completes r = (case copy_of r of None \<Rightarrow> False | Some j \<Rightarrow> state j = Done)"

fun buries :: "Record \<Rightarrow> bool" where
  "buries (DeadLetterRec i ep) = True"
| "buries r = (case copy_of r of None \<Rightarrow> False | Some j \<Rightarrow> state j = DeadLetter)"

fun retried :: "Record \<Rightarrow> bool" where
  "retried (LeaseRec i ep sq w) = (ep > 1 \<or> sq > 1)"
| "retried (TakeoverRec i ep ow) = (ep > 1)"
| "retried r = (case copy_of r of None \<Rightarrow> False | Some j \<Rightarrow> epoch j > 1 \<or> lease_seq j > 1)"

definition shown :: "Record set \<Rightarrow> string \<Rightarrow> (Record \<Rightarrow> bool) \<Rightarrow> bool" where
  "shown R h P \<longleftrightarrow> (\<exists>r\<in>R. to_hex (job_of_rec r) = h \<and> P r)"

lemma shown_insert: "shown (insert r R) h P \<longleftrightarrow> to_hex (job_of_rec r) = h \<and> P r \<or> shown R h P"
  by (auto simp: shown_def)

definition fact_ok :: "Record set \<Rightarrow> string \<Rightarrow> JobFacts \<Rightarrow> bool" where
  "fact_ok R h f \<longleftrightarrow> (state (merged f) = Done \<longrightarrow> shown R h completes) \<and> (state (merged f) = DeadLetter \<longrightarrow> shown R h buries) \<and>
     (max_lease_seq f > 1 \<or> max_epoch f > 1 \<longrightarrow> shown R h retried)"

definition copy_ids :: "Record set \<Rightarrow> string \<Rightarrow> string set" where
  "copy_ids R k = {h. \<exists>j r. h = to_hex (job_id j) \<and> r \<in> R \<and> copy_of r = Some j \<and> idem_key j = k}"

lemma copy_ids_insert: "copy_ids R k \<subseteq> copy_ids (insert r R) k"
  by (auto simp: copy_ids_def)

definition facts_ok :: "Record set \<Rightarrow> facts \<Rightarrow> bool" where
  "facts_ok R v \<longleftrightarrow> (\<forall>h f. map_of (v_jobs v) h = Some f \<longrightarrow> fact_ok R h f) \<and>
     (\<forall>i ep sq. DoneRec i ep sq \<in> R \<longrightarrow> (\<exists>f. map_of (v_jobs v) (to_hex i) = Some f \<and> sq \<in> done_seqs f)) \<and>
     (\<forall>k S. map_of (key_ids v) k = Some S \<longrightarrow> S \<subseteq> copy_ids R k)"

lemma facts_okD:
  assumes "facts_ok R v"
  shows "map_of (v_jobs v) h = Some f \<Longrightarrow> fact_ok R h f"
    "DoneRec i ep sq \<in> R \<Longrightarrow> \<exists>f. map_of (v_jobs v) (to_hex i) = Some f \<and> sq \<in> done_seqs f"
    "map_of (key_ids v) k = Some S \<Longrightarrow> S \<subseteq> copy_ids R k"
  using assms unfolding facts_ok_def by blast+

lemma facts_at_ok: "facts_ok R v \<Longrightarrow> fact_ok R h (facts_at h v)"
  by (auto simp: facts_ok_def facts_at_def fact_ok_def JobFacts0_def Job0_def split: option.splits)

lemma facts_ok_empty: "facts_ok {} facts0"
  by (simp add: facts_ok_def facts0_def)

lemma at_job_simps [simp]:
  "map_of (v_jobs (at_job i F v)) h = (if h = to_hex i then Some (F (facts_at h v)) else map_of (v_jobs v) h)"
  "key_ids (at_job i F v) = key_ids v"
  by (simp_all add: at_job_def map_of_update)

lemma add_key_simps [simp]:
  "v_jobs (add_key k h v) = v_jobs v"
  "map_of (key_ids (add_key k h v)) k' =
     (if k' = k then Some (insert h (case map_of (key_ids v) k of None \<Rightarrow> {} | Some S \<Rightarrow> S)) else map_of (key_ids v) k')"
  by (simp_all add: add_key_def map_of_update)

lemma fact_ok_insert: "fact_ok R h f \<Longrightarrow> fact_ok (insert r R) h f"
  by (auto simp: fact_ok_def shown_insert)

text \<open>One entry changes, and keeps what it knew of completions.\<close>

lemma at_job_ok:
  assumes v: "facts_ok R v" and r: "to_hex (job_of_rec r) = to_hex i"
    and f: "\<And>f. fact_ok R (to_hex i) f \<Longrightarrow> fact_ok (insert r R) (to_hex i) (F f) \<and> done_seqs f \<subseteq> done_seqs (F f)"
    and d: "\<And>i' ep sq f. r = DoneRec i' ep sq \<Longrightarrow> i' = i \<and> sq \<in> done_seqs (F f)"
  shows "facts_ok (insert r R) (at_job i F v)"
  unfolding facts_ok_def
proof (intro conjI allI impI)
  fix h f assume "map_of (v_jobs (at_job i F v)) h = Some f"
  then show "fact_ok (insert r R) h f"
    using f [OF facts_at_ok [OF v]] v fact_ok_insert by (auto simp: facts_ok_def split: if_splits)
next
  fix i' ep sq assume "DoneRec i' ep sq \<in> insert r R"
  then consider "r = DoneRec i' ep sq" | "DoneRec i' ep sq \<in> R" by blast
  then show "\<exists>f. map_of (v_jobs (at_job i F v)) (to_hex i') = Some f \<and> sq \<in> done_seqs f"
  proof cases
    case 1
    then show ?thesis using d by simp
  next
    case 2
    then obtain f0 where "map_of (v_jobs v) (to_hex i') = Some f0" "sq \<in> done_seqs f0" using facts_okD(2) [OF v] by blast
    then show ?thesis using f [OF facts_at_ok [OF v]] by (auto simp: facts_at_def)
  qed
next
  fix k S assume "map_of (key_ids (at_job i F v)) k = Some S"
  then show "S \<subseteq> copy_ids (insert r R) k"
    using facts_okD(3) [OF v] copy_ids_insert by (simp add: subset_trans [OF _ copy_ids_insert])
qed

lemma add_key_ok:
  assumes v: "facts_ok R v" and r: "r \<in> R" "copy_of r = Some j"
  shows "facts_ok R (add_key (idem_key j) (to_hex (job_id j)) v)"
  unfolding facts_ok_def
proof (intro conjI allI impI)
  fix k S assume "map_of (key_ids (add_key (idem_key j) (to_hex (job_id j)) v)) k = Some S"
  moreover have "to_hex (job_id j) \<in> copy_ids R (idem_key j)" using r by (auto simp: copy_ids_def)
  ultimately show "S \<subseteq> copy_ids R k"
    using facts_okD(3) [OF v] by (auto split: if_splits option.splits)
qed (use v in \<open>auto simp: facts_ok_def\<close>)

lemma fold_job_ok:
  assumes "facts_ok R v" "copy_of r = Some j"
  shows "facts_ok (insert r R) (fold_job j v)"
proof -
  have r: "job_of_rec r = job_id j" "r \<noteq> DoneRec i ep sq" for i ep sq using assms(2) by (cases r; simp)+
  have e: "completes r \<longleftrightarrow> state j = Done" "buries r \<longleftrightarrow> state j = DeadLetter" "retried r \<longleftrightarrow> epoch j > 1 \<or> lease_seq j > 1"
    using assms(2) by (cases r; simp)+
  show ?thesis
    unfolding fold_job_def
  proof (rule add_key_ok [OF at_job_ok [OF assms(1)] insertI1 assms(2)])
    show "fact_ok (insert r R) (to_hex (job_id j)) (merge_copy j f) \<and> done_seqs f \<subseteq> done_seqs (merge_copy j f)"
      if "fact_ok R (to_hex (job_id j)) f" for f
      using that r e by (auto simp: merge_copy_def fact_ok_def shown_insert less_max_iff_disj)
  qed (use r in simp_all)
qed

lemma fold_record_ok: "facts_ok R v \<Longrightarrow> facts_ok (insert r R) (fold_record r v)"
proof (induction r v rule: fold_record.induct)
  case (7 i ep sq v)
  then show ?case using fact_ok_insert copy_ids_insert unfolding facts_ok_def by (simp add: subset_trans [OF _ copy_ids_insert])
qed (auto intro!: fold_job_ok at_job_ok simp: fact_ok_def shown_insert less_max_iff_disj Let_def)

lemma fold_log_eq: "fold_log bs v = Some v' \<Longrightarrow> v' = fold fold_record (decoded bs) v"
  by (induction bs v rule: fold_log.induct) (auto simp: decoded_def map_filter_simps split: option.splits)

lemma fold_logs_eq: "fold_logs crc sb names d v = Some (Some v') \<Longrightarrow> v' = fold fold_record (replayed crc sb names d) v"
  by (induction names arbitrary: d v) (auto dest!: fold_log_eq split: option.splits if_splits)

lemma fold_records_ok: "facts_ok R v \<Longrightarrow> facts_ok (set rs \<union> R) (fold fold_record rs v)"
  by (induction rs arbitrary: R v) (use fold_record_ok in fastforce)+

lemma logs_ok: "fold_logs crc sb names d facts0 = Some (Some v) \<Longrightarrow> facts_ok (set (replayed crc sb names d)) v"
  using fold_records_ok [OF facts_ok_empty] by (auto dest: fold_logs_eq)

text \<open>How often a key was delivered.\<close>

definition receipts :: "string \<Rightarrow> string \<Rightarrow> nat" where
  "receipts txt key = length (filter (\<lambda>l. receipt_key l = Some key) (lines txt))"

lemma deliveries_count: "0 < receipts txt key \<Longrightarrow> map_of (deliveries_in txt) key = Some (receipts txt key)"
proof -
  let ?f = "\<lambda>l acc. case receipt_key l of None \<Rightarrow> acc
      | Some key \<Rightarrow> AList.update key ((case map_of acc key of None \<Rightarrow> 0 | Some n \<Rightarrow> n) + 1) acc"
  have "map_of (fold ?f ls acc) key =
      (let n = length (filter (\<lambda>l. receipt_key l = Some key) ls)
       in if n = 0 then map_of acc key else Some ((case map_of acc key of None \<Rightarrow> 0 | Some m \<Rightarrow> m) + n))" for ls acc
    by (induction ls arbitrary: acc) (auto simp: Let_def map_of_update split: option.splits)
  from this [of "lines txt" "[]"] show "0 < receipts txt key \<Longrightarrow> ?thesis" by (simp add: deliveries_in_def receipts_def Let_def)
qed

lemma passedD:
  assumes "failures (judge dlq acc del v) = 0"
  shows "map_of acc key = Some i \<Longrightarrow> \<not> lost dlq v (key, i)"
    "map_of (v_jobs v) h = Some f \<Longrightarrow> card (done_seqs f) \<le> 1"
    "map_of del key = Some n \<Longrightarrow> 1 < n \<Longrightarrow> attributable acc v key"
proof -
  have "filter (lost dlq v) acc = []" "filter double_done (v_jobs v) = []"
    "filter (\<lambda>(key, n). \<not> attributable acc v key) (filter (\<lambda>(key, n). n > 1) del) = []"
    using assms by (auto simp: failures_def judge_def Let_def)
  then show "map_of acc key = Some i \<Longrightarrow> \<not> lost dlq v (key, i)" "map_of (v_jobs v) h = Some f \<Longrightarrow> card (done_seqs f) \<le> 1"
    "map_of del key = Some n \<Longrightarrow> 1 < n \<Longrightarrow> attributable acc v key"
    by (fastforce simp: filter_empty_conv double_done_def dest: map_of_SomeD)+
qed

lemma attributableD:
  assumes "facts_ok R v" "attributable acc v key"
  shows "(\<exists>h h'. h \<in> copy_ids R key \<and> h' \<in> copy_ids R key \<and> h \<noteq> h') \<or> (\<exists>i. map_of acc key = Some i \<and> shown R i retried)"
proof -
  have "\<exists>h h'. h \<in> S \<and> h' \<in> S \<and> h \<noteq> h'" if "1 < card S" for S :: "string set"
    using that card_le_Suc0_iff_eq [of S] card_gt_0_iff [of S] by fastforce
  then have "\<exists>h h'. h \<in> copy_ids R key \<and> h' \<in> copy_ids R key \<and> h \<noteq> h'" if "fallback_twin v key"
    using that facts_okD(3) [OF assms(1)] by (fastforce simp: fallback_twin_def split: option.splits)
  moreover have "shown R i retried" if "map_of (v_jobs v) i = Some f" "max_lease_seq f > 1 \<or> max_epoch f > 1" for i f
    using facts_okD(1) [OF assms(1) that(1)] that(2) by (auto simp: fact_ok_def)
  ultimately show ?thesis using assms(2) by (auto simp: attributable_def split: option.splits)
qed


section \<open>Properties\<close>

text \<open>
  C16. A pass is earned: when the judge exits with 0, the logs were replayed and both files read, and over the
  records in the logs (1) every accepted submission has a record that completes its job, or one that buries
  it where dead letters are allowed; (2) all completion records of a job carry the same lease number;
  (3) a key delivered more than once belongs to two jobs, or to an accepted job with a record of a second
  grant or of a later owner.
\<close>

theorem verify_pass_sound:
  assumes "verify crc sb opts file d = Some 0"
  shows "\<exists>subs rcpts. let R = set (replayed crc sb (log_names (logs_csv opts) 0) d); acc = accepted_in subs in
    file (submits_path opts) = Some subs \<and> file (sink_path opts) = Some rcpts \<and>
    (\<forall>key i. map_of acc key = Some i \<longrightarrow> shown R i completes \<or> allow_dlq opts \<and> shown R i buries) \<and>
    (\<forall>i ep sq ep' sq'. DoneRec i ep sq \<in> R \<longrightarrow> DoneRec i ep' sq' \<in> R \<longrightarrow> sq = sq') \<and>
    (\<forall>key. 1 < receipts rcpts key \<longrightarrow>
      (\<exists>h h'. h \<in> copy_ids R key \<and> h' \<in> copy_ids R key \<and> h \<noteq> h') \<or> (\<exists>i. map_of acc key = Some i \<and> shown R i retried))"
proof -
  let ?R = "set (replayed crc sb (log_names (logs_csv opts) 0) d)"
  obtain v subs rcpts where v: "fold_logs crc sb (log_names (logs_csv opts) 0) d facts0 = Some (Some v)"
    and s: "file (submits_path opts) = Some subs" "file (sink_path opts) = Some rcpts"
    and p: "failures (judge (allow_dlq opts) (accepted_in subs) (deliveries_in rcpts) v) = 0"
    using assms by (auto simp: verify_def split: option.splits if_splits)
  have ok: "facts_ok ?R v" by (rule logs_ok [OF v])
  have 1: "shown ?R i completes \<or> allow_dlq opts \<and> shown ?R i buries" if "map_of (accepted_in subs) key = Some i" for key i
    using passedD(1) [OF p that] facts_okD(1) [OF ok] by (auto simp: lost_def in_state_def fact_ok_def split: option.splits)
  have 2: "sq = sq'" if r: "DoneRec i ep sq \<in> ?R" "DoneRec i ep' sq' \<in> ?R" for i ep sq ep' sq'
  proof -
    obtain f where f: "map_of (v_jobs v) (to_hex i) = Some f" "sq \<in> done_seqs f" "sq' \<in> done_seqs f"
      using facts_okD(2) [OF ok r(1)] facts_okD(2) [OF ok r(2)] by auto
    then show ?thesis using passedD(2) [OF p f(1)] card_le_Suc0_iff_eq [of "done_seqs f"] by simp
  qed
  have 3: "attributable (accepted_in subs) v key" if "1 < receipts rcpts key" for key
    using passedD(3) [OF p deliveries_count that] that by simp
  show ?thesis
    unfolding Let_def by (intro exI [of _ subs] exI [of _ rcpts] conjI allI impI s)
      (use 1 2 attributableD [OF ok 3] in blast)+
qed

text \<open>A run with one completed job, delivered once.\<close>

theorem verify_pass_sound_witness:
  "\<exists>opts file d. verify (\<lambda>b. 7) 100 opts file d = Some 0 \<and> log_names (logs_csv opts) 0 = [''d''] \<and>
     replayed (\<lambda>b. 7) 100 [''d''] d = [DoneRec JobId0 1 1] \<and> accepted_in (the (file (submits_path opts))) = [(''k'', to_hex JobId0)] \<and>
     shown {DoneRec JobId0 1 1} (to_hex JobId0) completes"
proof -
  let ?c = "\<lambda>b. 7 :: u32" and ?L = "[encode_record (DoneRec JobId0 1 1) 0]" and ?h = "to_hex JobId0"
  let ?d = "small_disk ?c ?L []"
  let ?opts = "\<lparr>submits_path = ''a'', sink_path = ''b'', logs_csv = ''d'', allow_dlq = False\<rparr>"
  let ?file = "\<lambda>n. Some (if n = ''a'' then ''k,'' @ ?h @ '',201'' else ''1 k'')"
  have e: "decode_record (encode_record (DoneRec JobId0 1 1) 0) = Some (Some (DoneRec JobId0 1 1, 0))" "valid_body (encode_record (DoneRec JobId0 1 1) 0)"
    by (rule decode_encode valid_encoded; simp)+
  have h: "?h = replicate 32 (CHR ''0'')" by code_simp
  obtain w where w: "wal_open ?c [''d''] (wal_new 100 ?d) = Some (True, ?L, w)"
    using wal_open_no_fault [of ?c "wal_new 100 ?d" "[''d'']" ?L] small_disk_on_disk [of ?L ?c "[]"]
    using e(2) by (auto simp: small_disk_def simp del: encode_record.simps)
  have n: "log_names ''d'' 0 = [''d'']"
    by (simp add: log_names.simps find_at_def has_prefix_def substr_def)
  have r: "replayed ?c 100 [''d''] ?d = [DoneRec JobId0 1 1]" using w e(1) by (simp add: decoded_def map_filter_simps del: encode_record.simps)
  have a: "accepted_in (''k,'' @ ?h @ '',201'') = [(''k'', ?h)]"
    unfolding h accepted_in_def by code_simp
  have f: "fold_logs ?c 100 [''d''] ?d facts0 = Some (Some (fold_record (DoneRec JobId0 1 1) facts0))"
    using w e(1) by (simp del: encode_record.simps fold_record.simps)
  have k: "deliveries_in ''1 k'' = [(''k'', 1)]" by code_simp
  have "failures (judge False [(''k'', ?h)] [(''k'', 1)] (fold_record (DoneRec JobId0 1 1) facts0)) = 0"
    by (simp add: failures_def judge_def lost_def in_state_def facts_at_def facts0_def JobFacts0_def Job0_def double_done_def at_job_def)
  then have v: "verify ?c 100 ?opts ?file ?d = Some 0" using n a k f by (simp add: verify_def)
  from verify_pass_sound [OF v, unfolded Let_def verify_options.select_convs n r] obtain subs
    where "Some (if ''a'' = ''a'' then ''k,'' @ ?h @ '',201'' else ''1 k'') = Some subs"
      "\<forall>key i. map_of (accepted_in subs) key = Some i \<longrightarrow> shown {DoneRec JobId0 1 1} i completes"
    by auto
  then have "shown {DoneRec JobId0 1 1} ?h completes" using a by auto
  then show ?thesis using v n r a by (intro exI [of _ ?opts] exI [of _ ?file] exI [of _ ?d]) simp
qed

text \<open>
  The verdict depends on the order of the logs: a completion replayed before a copy of a later epoch is
  overtaken by it, and counts when it is replayed after it.
\<close>

lemma verdict_depends_on_order:
  "let a = [ReplicateRec Job0, DoneRec JobId0 1 1]; b = [ReplicateRec (Job0\<lparr>epoch := 2\<rparr>)]
   in in_state Done (to_hex JobId0) (fold fold_record (b @ a) facts0) \<and> lost True (fold fold_record (a @ b) facts0) (''k'', to_hex JobId0)"
  by (simp add: Let_def fold_job_def merge_copy_def lost_def in_state_def facts_at_def facts0_def JobFacts0_def Job0_def
      job_advances_def add_key_def at_job_def)

end
