(* ===== verification/Sink.thy ===== *)
theory Sink
  imports Worker Verify
begin

text \<open>
  The sink, \<^verbatim>\<open>src/src/sink_main.cc\<close>: a server on the HTTP component that takes deliveries and writes the receipts the judge
  reads. The property follows a delivery of the worker to the judge's count.
\<close>

section \<open>The sink\<close>

text \<open>
  The log file, the clock in milliseconds, and what the generator decides for the next deliveries where
  failures are injected.
\<close>

record sink =
  sk_out :: string
  sk_ms :: nat
  sk_inject :: bool
  sk_fails :: "bool list"

datatype sink_route = SinkHealth | SinkHook

definition header_or_dash :: "string \<Rightarrow> Request \<Rightarrow> string" where
  "header_or_dash k r = (case map_of (rq_headers r) k of None \<Rightarrow> ''-'' | Some v \<Rightarrow> v)"

definition receipt_line :: "nat \<Rightarrow> Request \<Rightarrow> string" where
  "receipt_line t r =
    to_string t @ '' '' @ c_str (header_or_dash ''idempotency-key'' r) @ '' '' @ c_str (header_or_dash ''x-tautq-attempt'' r) @ '' '' @
    c_str (rq_path r) @ '' '' @ to_string (length (rq_body r)) @ newline"

fun sink_handle :: "(sink_route, sink) application" where
  "sink_handle SinkHealth r re s = Some ([(re, plain 200 (''ok'' @ newline))], s)"
| "sink_handle SinkHook r re s =
    (let (injected, s) = (if sk_inject s then (sk_fails s \<noteq> [] \<and> hd (sk_fails s), s\<lparr>sk_fails := tl (sk_fails s)\<rparr>) else (False, s)) in
     if injected then Some ([(re, plain 500 (''injected failure'' @ newline))], s)
     else Some ([(re, plain 200 (''ok'' @ newline))], s\<lparr>sk_out := sk_out s @ receipt_line (sk_ms s) r\<rparr>))"

definition sink_server :: "sink_route http" where
  "sink_server = add_route ''POST'' ''/'' SinkHook (add_route ''GET'' ''/healthz'' SinkHealth http_new)"

text \<open>The sink keeps no request waiting, so what is known of the server holds for it as well.\<close>

interpretation snk: http_app sink_handle "\<lambda>_. {#}"
proof
  fix h req re a rs a' assume "sink_handle h req re a = Some (rs, a')"
  then show "{#} + image_mset fst (mset rs) = add_mset re {#}"
    by (cases h) (auto simp: Let_def split: if_splits prod.splits)
qed


section \<open>Receipts\<close>

lemma getline_line: "c \<notin> set l \<Longrightarrow> getline c (l @ c # t) = Some (l, t)"
proof -
  assume "c \<notin> set l"
  then have "takeWhile (\<lambda>x. x \<noteq> c) (l @ c # t) = l" "dropWhile (\<lambda>x. x \<noteq> c) (l @ c # t) = c # t" by (induction l) auto
  then show ?thesis by (simp add: getline_def)
qed

lemma lines_cons: "CHR 0x0A \<notin> set l \<Longrightarrow> lines (l @ CHR 0x0A # t) = l # lines t"
  by (subst lines.simps) (simp add: getline_line)

lemma lines_Nil [simp]: "lines [] = []"
  by (subst lines.simps) (simp add: getline_def)

lemma lines_append:
  assumes "a = [] \<or> last a = CHR 0x0A"
  shows "lines (a @ b) = lines a @ lines b"
  using assms
proof (induction a rule: lines.induct)
  case (1 a)
  show ?case
  proof (cases "a = []")
    case True
    then show ?thesis by simp
  next
    case False
    then have "CHR 0x0A \<in> set a" using 1(2) last_in_set by metis
    then obtain l t where a: "a = l @ CHR 0x0A # t" "CHR 0x0A \<notin> set l" by (meson split_list_first)
    have "getline (CHR 0x0A) a = Some (l, t)" using a by (simp add: getline_line)
    moreover have "t = [] \<or> last t = CHR 0x0A" using a 1(2) by (auto split: if_splits)
    ultimately have "lines (t @ b) = lines t @ lines b" by (rule 1(1) [OF _ refl])
    then show ?thesis using lines_cons [OF a(2)] by (simp add: a(1))
  qed
qed

definition word :: "string \<Rightarrow> bool" where
  "word s \<longleftrightarrow> s \<noteq> [] \<and> (\<forall>c \<in> set s. \<not> is_space c \<and> c \<noteq> CHR 0x00)"

lemma get_word_first: "word s \<Longrightarrow> get_word (s @ CHR '' '' # t) = Some (s, CHR '' '' # t)"
proof -
  assume s: "word s"
  have sp: "is_space (CHR '' '')" by (simp add: is_space_def)
  have t: "takeWhile (\<lambda>x. \<not> is_space x) (s @ CHR '' '' # t) = s" "dropWhile (\<lambda>x. \<not> is_space x) (s @ CHR '' '' # t) = CHR '' '' # t"
    using s sp by (auto simp: word_def takeWhile_append2 dropWhile_append2)
  have d: "dropWhile is_space (s @ CHR '' '' # t) = s @ CHR '' '' # t" using s by (cases s) (simp_all add: word_def)
  show ?thesis using s by (simp add: get_word_def d t Let_def word_def)
qed

lemma get_word_skip: "get_word (CHR '' '' # t) = get_word t"
  by (simp add: get_word_def is_space_def)

lemma word_to_string: "word (to_string n)"
proof -
  have "\<not> is_space c \<and> c \<noteq> CHR 0x00" if "is_digit c" for c using that by (auto simp: is_digit_def is_space_def)
  then show ?thesis using to_string_digits unfolding word_def by auto
qed

lemma word_c_str: "word s \<Longrightarrow> c_str s = s"
  by (auto simp: word_def c_str_def takeWhile_eq_all_conv)

lemma receipt_line_key:
  assumes "map_of (rq_headers r) ''idempotency-key'' = Some key" "word key"
    "CHR 0x0A \<notin> set (header_or_dash ''x-tautq-attempt'' r)" "CHR 0x0A \<notin> set (rq_path r)"
  shows "\<exists>l. lines (receipt_line t r) = [l] \<and> receipt_key l = Some key"
proof -
  let ?a = "c_str (header_or_dash ''x-tautq-attempt'' r)" and ?p = "c_str (rq_path r)" and ?n = "to_string (length (rq_body r))"
  let ?l = "to_string t @ '' '' @ key @ '' '' @ ?a @ '' '' @ ?p @ '' '' @ ?n"
  have "c_str (header_or_dash ''idempotency-key'' r) = key" using assms(1) word_c_str [OF assms(2)] by (simp add: header_or_dash_def)
  then have e: "receipt_line t r = ?l @ CHR 0x0A # []" by (simp only: receipt_line_def newline_def append_assoc)
  have n: "is_space (CHR 0x0A)" by (simp add: is_space_def)
  have w: "CHR 0x0A \<notin> set x" if "word x" for x using that n unfolding word_def by blast
  have c: "CHR 0x0A \<notin> set (c_str x)" if "CHR 0x0A \<notin> set x" for x using that by (auto simp: c_str_def dest: set_takeWhileD)
  have "CHR 0x0A \<notin> set ?l" using w [OF word_to_string] w [OF assms(2)] c [OF assms(3)] c [OF assms(4)] by simp
  then have "lines (receipt_line t r) = [?l]" unfolding e by (simp add: lines_cons del: append_assoc)
  moreover have "receipt_key ?l = Some key"
    using get_word_first [OF word_to_string, of t "key @ '' '' @ ?a @ '' '' @ ?p @ '' '' @ ?n"]
      get_word_first [OF assms(2), of "?a @ '' '' @ ?p @ '' '' @ ?n"]
    by (simp add: receipt_key_def get_word_skip)
  ultimately show ?thesis by blast
qed

lemma receipts_append:
  assumes "a = [] \<or> last a = CHR 0x0A"
  shows "receipts (a @ b) key = receipts a key + receipts b key"
  using lines_append [OF assms] by (simp add: receipts_def)

lemma url_decode_slash: "url_decode (CHR ''/'' # s) = CHR ''/'' # url_decode s"
  by (cases "CHR ''/'' # s" rule: url_decode.cases) (auto simp: plus_space_def)

lemma hook_route:
  assumes "hd path = CHR ''/''" "path \<noteq> []"
  shows "find_route (''POST '' @ path) (routes sink_server) = Some SinkHook"
  using assms by (cases path) (simp_all add: sink_server_def add_route_def http_new_def find_route_def has_prefix_def)

lemma target_path: "fst (parse_target (CHR ''/'' # p)) \<noteq> [] \<and> hd (fst (parse_target (CHR ''/'' # p))) = CHR ''/''"
proof -
  have "\<exists>t. take q (CHR ''/'' # p) = CHR ''/'' # t" if "find_sub ''?'' (CHR ''/'' # p) = Some q" for q
    using that by (cases q) (auto simp: has_prefix_def split: if_splits)
  then show ?thesis by (auto simp: parse_target_def url_decode_slash split: option.splits)
qed

text \<open>The headers the worker sends with a delivery.\<close>

definition delivery_headers :: "string \<Rightarrow> nat \<Rightarrow> (string \<times> string) list" where
  "delivery_headers key n = [(''Idempotency-Key'', key), (''X-Tautq-Attempt'', to_string n)]"

lemma delivery_seen:
  assumes "CHR ''/'' \<notin> set hp" "clean hp" "clean p" "word key" "length b \<le> kMaxRequestBytes"
  shows "\<exists>r. seen_as (''POST'', ''http://'' @ hp @ CHR ''/'' # p, delivery_headers key n, b) = Some r \<and> rq_method r = ''POST'' \<and>
    rq_path r = fst (parse_target (CHR ''/'' # p)) \<and> map_of (rq_headers r) ''idempotency-key'' = Some key \<and>
    header_or_dash ''x-tautq-attempt'' r = to_string n \<and> rq_body r = b"
proof -
  have sp: "is_space (CHR 0x0D)" "is_space (CHR '' '')" by (simp_all add: is_space_def)
  then have c: "clean key" using assms(4) unfolding clean_def word_def by blast
  have d: "dropWhile (\<lambda>x. x = CHR '' '') key = key" using assms(4) sp(2) by (cases key) (auto simp: word_def)
  have h: "list_all header_ok (delivery_headers key n)" using c by (simp add: delivery_headers_def header_ok_def)
  have o: "\<forall>(k, v) \<in> set (delivery_headers key n). lower k \<noteq> ''connection'' \<and> lower k \<noteq> ''content-length''"
    by (simp add: delivery_headers_def lower_grant)
  have m: "CHR '' '' \<notin> set ''POST''" "clean ''POST''" by simp_all
  show ?thesis
    using seen_as_call [OF assms(1,2) m assms(3) h assms(5) o] d
    by (simp add: header_or_dash_def client_headers_def delivery_headers_def lower_grant map_of_update)
qed


section \<open>Properties\<close>

text \<open>
  C32. One receipt per delivery: the sink takes a delivery of the worker at its hook and answers it at once,
  with 200 after adding one receipt, which the judge counts under the key of the job and under no other, or
  with an injected 500 and no receipt. (The key is one word, and the path has no line end.)
\<close>

theorem delivery_receipt:
  assumes "CHR ''/'' \<notin> set hp" "clean hp" "clean p" "word key" "length b \<le> kMaxRequestBytes"
    and "CHR 0x0A \<notin> set (fst (parse_target (CHR ''/'' # p)))" "sk_out s = [] \<or> last (sk_out s) = CHR 0x0A"
  shows "\<exists>r a s'. seen_as (''POST'', ''http://'' @ hp @ CHR ''/'' # p, delivery_headers key n, b) = Some r \<and>
    find_route (rq_method r @ '' '' @ rq_path r) (routes sink_server) = Some SinkHook \<and> sink_handle SinkHook r re s = Some ([(re, a)], s') \<and>
    (rs_code a = 200 \<and> (\<forall>k. receipts (sk_out s') k = receipts (sk_out s) k + of_bool (k = key)) \<or>
     rs_code a = 500 \<and> sk_inject s \<and> sk_out s' = sk_out s)"
proof -
  obtain r where r: "seen_as (''POST'', ''http://'' @ hp @ CHR ''/'' # p, delivery_headers key n, b) = Some r" "rq_method r = ''POST''"
    "rq_path r = fst (parse_target (CHR ''/'' # p))" "map_of (rq_headers r) ''idempotency-key'' = Some key"
    "header_or_dash ''x-tautq-attempt'' r = to_string n"
    using delivery_seen [OF assms(1-5)] by blast
  have f: "find_route (rq_method r @ '' '' @ rq_path r) (routes sink_server) = Some SinkHook"
    using hook_route [of "rq_path r"] target_path [of p] r(2,3) by simp
  have w: "CHR 0x0A \<notin> set (header_or_dash ''x-tautq-attempt'' r)" "CHR 0x0A \<notin> set (rq_path r)"
    using to_string_digits [of "CHR 0x0A" n] assms(6) r(3,5) by (auto simp: is_digit_def)
  obtain l where l: "lines (receipt_line (sk_ms s) r) = [l]" "receipt_key l = Some key"
    using receipt_line_key [OF r(4) assms(4) w] by blast
  have "receipts (sk_out s @ receipt_line (sk_ms s) r) k = receipts (sk_out s) k + of_bool (k = key)" for k
    unfolding receipts_append [OF assms(7)] using l by (auto simp: receipts_def)
  then show ?thesis using r(1) f by (simp add: Let_def plain_def)
qed

theorem delivery_receipt_witness:
  "\<exists>r a s'. seen_as (''POST'', ''http://'' @ ''s'' @ CHR ''/'' # ''x'', delivery_headers ''k'' 0, ''body'') = Some r \<and>
    sink_handle SinkHook r (1, False) \<lparr>sk_out = [], sk_ms = 5, sk_inject = False, sk_fails = []\<rparr> = Some ([((1, False), a)], s') \<and>
    receipts (sk_out s') ''k'' = 1"
proof -
  let ?s = "\<lparr>sk_out = [], sk_ms = 5, sk_inject = False, sk_fails = []\<rparr>"
  have w: "word ''k''" by (simp add: word_def is_space_def)
  have p: "CHR 0x0A \<notin> set (fst (parse_target (CHR ''/'' # ''x'')))" by (simp add: parse_target_def has_prefix_def plus_space_def)
  have z: "receipts [] k = 0" for k by (simp add: receipts_def)
  have c: "CHR ''/'' \<notin> set ''s''" "clean ''s''" "clean ''x''" "length ''body'' \<le> kMaxRequestBytes" "sk_out ?s = [] \<or> last (sk_out ?s) = CHR 0x0A"
    "\<not> sk_inject ?s"
    by (simp_all add: kMaxRequestBytes_def)
  from delivery_receipt [OF c(1,2,3) w c(4) p c(5), of 0 "(1, False)"] obtain r a s'
    where "seen_as (''POST'', ''http://'' @ ''s'' @ CHR ''/'' # ''x'', delivery_headers ''k'' 0, ''body'') = Some r"
      "sink_handle SinkHook r (1, False) ?s = Some ([((1, False), a)], s')"
      "\<forall>k. receipts (sk_out s') k = receipts (sk_out ?s) k + of_bool (k = ''k'')"
    using c(6) by blast
  then show ?thesis using z by (intro exI [of _ r] exI [of _ a] exI [of _ s']) simp
qed

end
