(* ===== verification/Loadgen.thy ===== *)
theory Loadgen
  imports Metrics Http_Client
begin

text \<open>
  The arithmetic of the load generator, \<^verbatim>\<open>src/src/loadgen_main.cc\<close>: sums and differences of the nodes' histograms and the
  quantiles read from them. Operations on doubles are rounded as in \<open>Doubles\<close>; the scanning of the metrics text, the threads and
  the clock are left out.
\<close>

section \<open>Histograms of the cluster\<close>

text \<open>The buckets are a map ordered by bound.\<close>

record Hist =
  buckets :: "(rat \<times> u64) list"
  h_count :: u64
  h_completions :: u64

definition Hist0 :: Hist where
  "Hist0 = \<lparr>buckets = [], h_count = 0, h_completions = 0\<rparr>"

fun add_bucket :: "rat \<Rightarrow> u64 \<Rightarrow> (rat \<times> u64) list \<Rightarrow> (rat \<times> u64) list" where
  "add_bucket le v [] = [(le, v)]"
| "add_bucket le v ((x, c) # bs) =
    (if le < x then (le, v) # (x, c) # bs
     else if le = x then (x, c + v) # bs
     else (x, c) # add_bucket le v bs)"

definition sum_scrapes :: "Hist list \<Rightarrow> Hist" where
  "sum_scrapes hs =
    fold (\<lambda>h tot. \<lparr>buckets = fold (\<lambda>(le, c). add_bucket le c) (buckets h) (buckets tot), h_count = h_count tot + h_count h,
      h_completions = h_completions tot + h_completions h\<rparr>) hs Hist0"

text \<open>The second component is whether the value had to be clamped.\<close>

definition delta_or_zero :: "u64 \<Rightarrow> u64 \<Rightarrow> bool \<Rightarrow> u64 \<times> bool" where
  "delta_or_zero after before clamped = (if after < before then (0, True) else (after - before, clamped))"

fun bucket_deltas :: "(rat \<times> u64) list \<Rightarrow> (rat \<times> u64) list \<Rightarrow> bool \<Rightarrow> (rat \<times> u64) list \<times> bool" where
  "bucket_deltas [] before clamped = ([], clamped)"
| "bucket_deltas ((le, c) # bs) before clamped =
    (let (v, clamped) = delta_or_zero c (case map_of before le of None \<Rightarrow> 0 | Some n \<Rightarrow> n) clamped;
         (ds, clamped) = bucket_deltas bs before clamped
     in ((le, v) # ds, clamped))"

text \<open>Linear interpolation inside the bucket that ends at \<open>le\<close>; a bound above \<open>1e17\<close> is the last, open bucket.\<close>

definition estimate :: "rat \<Rightarrow> rat \<Rightarrow> u64 \<Rightarrow> rat \<Rightarrow> u64 \<Rightarrow> rat" where
  "estimate target prev_le prev_cum le cum =
    (let in_bucket = dbl_of_nat (unat (cum - prev_cum));
         frac = (if in_bucket \<le> 0 then 1 else dbl (dbl (target - dbl_of_nat (unat prev_cum)) / in_bucket));
         hi = (if le > 10 ^ 17 then dbl (prev_le * 2) else le)
     in dbl (dbl (prev_le + dbl (dbl (hi - prev_le) * frac)) * 1000))"

fun quantile_scan :: "rat \<Rightarrow> (rat \<times> u64) list \<Rightarrow> rat \<Rightarrow> u64 \<Rightarrow> rat" where
  "quantile_scan target [] prev_le prev_cum = dbl (prev_le * 1000)"
| "quantile_scan target ((le, cum) # ds) prev_le prev_cum =
    (if dbl_of_nat (unat cum) \<ge> target then estimate target prev_le prev_cum le cum
     else quantile_scan target ds le cum)"

definition quantile_ms :: "(rat \<times> u64) list \<Rightarrow> u64 \<Rightarrow> rat \<Rightarrow> rat" where
  "quantile_ms delta tot q = (if tot = 0 then - 1 else quantile_scan (dbl (q * dbl_of_nat (unat tot))) delta 0 0)"

function gateway_names :: "string \<Rightarrow> nat \<Rightarrow> string list" where
  "gateway_names s k =
    (if k < length s then
      (let comma = (case find_at '','' s k of None \<Rightarrow> length s | Some c \<Rightarrow> c)
       in substr s k (comma - k) # gateway_names s (comma + 1))
     else [])"
  by pat_completeness auto
termination
  by (relation "measure (\<lambda>(s, k). length s - k)") (auto dest: find_at_bound split: option.splits)

declare gateway_names.simps [simp del]

record load_options =
  gateways_s :: string
  sink_url :: string
  lg_prefix :: string
  rate :: int
  duration_s :: int
  threads :: int

definition load_options0 :: load_options where
  "load_options0 = \<lparr>gateways_s = [], sink_url = [], lg_prefix = ''lg'', rate = 100, duration_s = 30, threads = 8\<rparr>"

function load_args :: "string list \<Rightarrow> load_options \<Rightarrow> load_options option" where
  "load_args [] opts = Some opts"
| "load_args (a # rest) opts =
    (if a = ''--gateways'' then load_args (tl rest) (opts\<lparr>gateways_s := next_arg rest\<rparr>)
     else if a = ''--sink-url'' then load_args (tl rest) (opts\<lparr>sink_url := next_arg rest\<rparr>)
     else if a = ''--rate'' then load_args (tl rest) (opts\<lparr>rate := atoi (next_arg rest)\<rparr>)
     else if a = ''--duration-s'' then load_args (tl rest) (opts\<lparr>duration_s := atoi (next_arg rest)\<rparr>)
     else if a = ''--threads'' then load_args (tl rest) (opts\<lparr>threads := atoi (next_arg rest)\<rparr>)
     else if a = ''--prefix'' then load_args (tl rest) (opts\<lparr>lg_prefix := next_arg rest\<rparr>)
     else None)"
  by pat_completeness auto
termination
  by (relation "measure (\<lambda>(as, opts). length as)") auto

text \<open>The URL of one submission, and the figures of a row: completed jobs, three quantiles, and whether to distrust it.\<close>

definition submit_url :: "load_options \<Rightarrow> string list \<Rightarrow> u64 \<Rightarrow> nat \<Rightarrow> u64 \<Rightarrow> string" where
  "submit_url opts gateways sq t n =
    gateways ! (unat sq mod length gateways) @ ''/v1/jobs?key='' @ lg_prefix opts @ ''-'' @ to_string t @ ''-'' @ to_string (unat n) @
    ''&url='' @ sink_url opts"

record row =
  completed :: u64
  p50 :: rat
  p95 :: rat
  p99 :: rat
  suspect :: bool

definition load_row :: "Hist \<Rightarrow> Hist \<Rightarrow> nat \<Rightarrow> row" where
  "load_row before after unreachable =
    (let (delta, clamped) = bucket_deltas (buckets after) (buckets before) False;
         (c, clamped) = delta_or_zero (h_count after) (h_count before) clamped
     in \<lparr>completed = c, p50 = quantile_ms delta c (dbl (50 / 100)), p95 = quantile_ms delta c (dbl (95 / 100)),
         p99 = quantile_ms delta c (dbl (99 / 100)),
         suspect = (clamped \<or> unreachable > 0)\<rparr>)"


section \<open>Quantiles\<close>

text \<open>
  The estimate is made inside the first bucket whose cumulative count reaches the target; without one, the
  last bound is reported. Below two to the 53rd the counts compared are exact, and the difference inside
  the bucket does not wrap.
\<close>

lemma quantile_scan_bucket:
  "(\<exists>pre lo pc le c post. (prev_le, prev_cum) # ds = pre @ (lo, pc) # (le, c) # post \<and> target \<le> dbl_of_nat (unat c) \<and>
      (\<forall>(le', c') \<in> set (tl (pre @ [(lo, pc)])). dbl_of_nat (unat c') < target) \<and>
      quantile_scan target ds prev_le prev_cum = estimate target lo pc le c) \<or>
   (\<forall>(le, c) \<in> set ds. dbl_of_nat (unat c) < target) \<and> quantile_scan target ds prev_le prev_cum = dbl (last (prev_le # map fst ds) * 1000)"
proof (induction ds arbitrary: prev_le prev_cum)
  case (Cons d ds)
  obtain le c where d: "d = (le, c)" by fastforce
  show ?case
  proof (cases "target \<le> dbl_of_nat (unat c)")
    case True
    then show ?thesis
      by (intro disjI1 exI [of _ "[]"] exI [of _ prev_le] exI [of _ prev_cum] exI [of _ le] exI [of _ c] exI [of _ ds]) (simp add: d)
  next
    case False
    have q: "quantile_scan target (d # ds) prev_le prev_cum = quantile_scan target ds le c" using False by (simp add: d)
    from Cons.IH [of le c]
    consider pre lo pc le' c' post where "(le, c) # ds = pre @ (lo, pc) # (le', c') # post" "target \<le> dbl_of_nat (unat c')"
        "\<forall>(le', c') \<in> set (tl (pre @ [(lo, pc)])). dbl_of_nat (unat c') < target" "quantile_scan target ds le c = estimate target lo pc le' c'"
      | "\<forall>(le, c) \<in> set ds. dbl_of_nat (unat c) < target" "quantile_scan target ds le c = dbl (last (le # map fst ds) * 1000)"
      by blast
    then show ?thesis
    proof cases
      case 1
      have "(prev_le, prev_cum) # d # ds = ((prev_le, prev_cum) # pre) @ (lo, pc) # (le', c') # post" using 1(1) by (simp add: d)
      moreover have "pre @ [(lo, pc)] = (le, c) # tl (pre @ [(lo, pc)])" using 1(1) by (cases pre) simp_all
      then have "\<forall>(le', c') \<in> set (tl (((prev_le, prev_cum) # pre) @ [(lo, pc)])). dbl_of_nat (unat c') < target"
        using 1(3) False by (metis append_Cons list.sel(3) not_le prod.case set_ConsD)
      ultimately show ?thesis unfolding q using 1(2,4) by blast
    next
      case 2
      then show ?thesis unfolding q using False by (simp add: d)
    qed
  qed
qed simp

lemma bucket_difference:
  assumes "unat (pc :: u64) < 2 ^ 53" "unat (c :: u64) < 2 ^ 53" "dbl_of_nat (unat pc) < target" "target \<le> dbl_of_nat (unat c)"
  shows "unat (c - pc) = unat c - unat pc" "unat pc < unat c"
proof -
  have "(of_nat (unat pc) :: rat) < of_nat (unat c)"
    using less_le_trans [OF assms(3,4)] assms(1,2) by (simp only: dbl_of_small_nat)
  then show "unat pc < unat c" by (simp only: of_nat_less_iff)
  then show "unat (c - pc) = unat c - unat pc" by (intro unat_sub) (simp add: word_le_nat_alt)
qed

end
