(* ===== verification/Loop.thy ===== *)
theory Loop
  imports Tautq_Prelude "HOL-Library.AList"
begin

text \<open>
  The epoll loop, \<^verbatim>\<open>src/src/loop.cc\<close>: the table of handlers and the dispatch of one wait. A handler is a value and
  \<open>run\<close> what calling it does to the loop and to the rest of the process; the results of the system calls
  are inputs.
\<close>

record 'h loop =
  handlers :: "(nat \<times> 'h) list"

definition loop_add :: "nat \<Rightarrow> 'h \<Rightarrow> bool \<Rightarrow> 'h loop \<Rightarrow> bool \<times> 'h loop" where
  "loop_add fd h ctl l = (if \<not> ctl then (False, l) else (True, l\<lparr>handlers := AList.update fd h (handlers l)\<rparr>))"

definition loop_mod :: "bool \<Rightarrow> 'h loop \<Rightarrow> bool \<times> 'h loop" where
  "loop_mod ctl l = (ctl, l)"

definition loop_del :: "nat \<Rightarrow> 'h loop \<Rightarrow> 'h loop" where
  "loop_del fd l = l\<lparr>handlers := AList.delete fd (handlers l)\<rparr>"

datatype wait_result = Interrupted | WaitError | Events "(nat \<times> nat) list"

definition dispatch_one :: "('h \<Rightarrow> nat \<Rightarrow> 'h loop \<times> 's \<Rightarrow> 'h loop \<times> 's) \<Rightarrow> nat \<times> nat \<Rightarrow> 'h loop \<times> 's \<Rightarrow> 'h loop \<times> 's" where
  "dispatch_one run = (\<lambda>(fd, ev) x. case map_of (handlers (fst x)) fd of None \<Rightarrow> x | Some h \<Rightarrow> run h ev x)"

definition run_once :: "('h \<Rightarrow> nat \<Rightarrow> 'h loop \<times> 's \<Rightarrow> 'h loop \<times> 's) \<Rightarrow> wait_result \<Rightarrow> 'h loop \<times> 's \<Rightarrow> bool \<times> 'h loop \<times> 's" where
  "run_once run r x =
    (case r of
       Interrupted \<Rightarrow> (True, x)
     | WaitError \<Rightarrow> (False, x)
     | Events evs \<Rightarrow> (True, fold (dispatch_one run) evs x))"

text \<open>
  What holds of the process and its handlers before a wait, and is kept by every registered handler, holds
  after it: a handler is only called while it is registered.
\<close>

lemma run_once_keeps:
  assumes step: "\<And>fd h ev l s. P l s \<Longrightarrow> map_of (handlers l) fd = Some h \<Longrightarrow> P (fst (run h ev (l, s))) (snd (run h ev (l, s)))"
    and "P l s" "run_once run r (l, s) = (ok, l', s')"
  shows "P l' s'"
proof -
  have "P (fst (fold (dispatch_one run) evs x)) (snd (fold (dispatch_one run) evs x))" if "P (fst x) (snd x)" for evs x
    using that
  proof (induction evs arbitrary: x)
    case (Cons e evs)
    obtain fd ev where e: "e = (fd, ev)" by fastforce
    have "P (fst (dispatch_one run e x)) (snd (dispatch_one run e x))"
      using Cons.prems step [of "fst x" "snd x" fd] by (auto simp: dispatch_one_def e split: option.splits)
    then show ?case using Cons.IH by simp
  qed simp
  from this [of "(l, s)"] show ?thesis using assms(2,3) by (auto simp: run_once_def split: wait_result.splits) (metis fst_conv snd_conv)
qed

text \<open>A descriptor that is closed during a wait gets no more of its events, unless it is registered again.\<close>

lemma closed_not_called: "map_of (handlers (fst x)) fd = None \<Longrightarrow> dispatch_one run (fd, ev) x = x"
  by (simp add: dispatch_one_def)

text \<open>
  Where the descriptor is registered again during the same wait, the event of the old connection is given to
  the new one.
\<close>

lemma stale_event_reaches_new_handler:
  defines "run \<equiv> \<lambda>(h :: nat) ev (l, s). if h = 0 then (snd (loop_add 7 2 True (loop_del 7 l)), s) else (l, s @ [(h, ev)])"
  shows "snd (snd (run_once run (Events [(3, 1), (7, 16)]) (\<lparr>handlers = [(3, 0), (7, 1)]\<rparr>, []))) = [(2, 16)]"
  by (simp add: run_once_def dispatch_one_def run_def loop_add_def loop_del_def)

end
