(* ===== verification/Spec2Isabelle.thy ===== *)
theory Spec2Isabelle
  imports Queue_Claims Sink Loadgen Loop
begin

text \<open>
  A verification development for tautq, a replicated job queue in C++ (the programs of \<^verbatim>\<open>src/src/\<close>).

  The programs. A cluster is a set of node processes (\<^verbatim>\<open>node_main.cc\<close>). Each serves clients and workers over
  HTTP (\<^verbatim>\<open>http.cc\<close> on the epoll loop \<^verbatim>\<open>loop.cc\<close>) and hands their requests to its queue node (\<^verbatim>\<open>queue_node.cc\<close>).
  A queue node keeps a table of jobs (\<^verbatim>\<open>store.cc\<close>) that is the fold of a write-ahead log (\<^verbatim>\<open>wal.cc\<close>) of records
  (\<^verbatim>\<open>records.cc\<close>, \<^verbatim>\<open>job.h\<close>). It places jobs on a hash ring (\<^verbatim>\<open>ring.cc\<close>, \<^verbatim>\<open>swim_membership.h\<close>), replicates them to their
  replica set, fences stale owners by epochs, and takes jobs over from dead owners by majority vote. Nodes talk through
  an RPC layer (\<^verbatim>\<open>rpc.cc\<close>, frames in \<^verbatim>\<open>wire.cc\<close> and \<^verbatim>\<open>bytes.h\<close>) over datagrams of one socket (\<^verbatim>\<open>demux.cc\<close>). Beside the nodes there are
  the worker (\<^verbatim>\<open>worker_main.cc\<close>), the sink that receives deliveries (\<^verbatim>\<open>sink_main.cc\<close>), the judge of the chaos runs
  (\<^verbatim>\<open>verify_main.cc\<close>) and the load generator (\<^verbatim>\<open>loadgen_main.cc\<close>), the first and the last on the HTTP client (\<^verbatim>\<open>http_client.cc\<close>).

  How the model reads. Structs are records, enumerations and variants are datatypes, machine integers are
  words, and \<open>std::unordered_map\<close> is an association list with the operations of \<^verbatim>\<open>AList\<close>. A decoder
  returns \<open>None\<close> for a read outside its span (undefined behaviour) and \<open>Some None\<close> where the code reports a
  malformed input. A \<open>double\<close> is the rational number it stands for and every operation rounds (\<^verbatim>\<open>Doubles.thy\<close>). Time is
  a number of nanoseconds. An exception that nothing catches is \<open>None\<close>. Callbacks are values: \<open>cont\<close>, \<open>quorum_cb\<close> and
  \<open>reply_cb\<close> of \<^verbatim>\<open>Queue.thy\<close> are the closures of \<^verbatim>\<open>queue_node.cc\<close>, and a client's callback is a token that is answered in
  \<open>out\<close>. A queue node is the pair of its RPC state and its queue state. Fields that no operation reads and that are
  not in the code serve the statements only: \<open>out\<close>, \<open>history\<close>, \<open>votes\<close>, \<open>null_deref\<close>, \<open>seq_wrapped\<close> of a queue node, \<open>req_wrapped\<close> of
  the RPC layer, \<open>c_received\<close>, \<open>c_handed\<close>, \<open>c_answered\<close>, \<open>c_sent\<close>, \<open>gone\<close> and \<open>gen_wrapped\<close> of the HTTP server, \<open>gw_events\<close> of the node
  process and \<open>made\<close> of the worker.

  Theories and what they show.

  \<^item> \<^verbatim>\<open>Tautq_Prelude\<close>, \<^verbatim>\<open>Std_String\<close>, \<^verbatim>\<open>Doubles\<close>: shared vocabulary, the C++ library's strings and numbers, rounding.
  \<^item> \<^verbatim>\<open>Bytes\<close>, \<^verbatim>\<open>Wire\<close>, \<^verbatim>\<open>Job\<close>, \<^verbatim>\<open>Records\<close>: byte fields (locales \<open>fixed_field\<close> and \<open>exact_field\<close>, interpreted for each width, identifiers and
    endpoints), datagrams, jobs with the merge order \<open>job_advances\<close>, records. Codecs are exact inverses and no
    decoder leaves its bytes; the merge order is the order of a rank.
  \<^item> \<^verbatim>\<open>Disk\<close>, \<^verbatim>\<open>Wal\<close>: the POSIX calls on an explicit disk with a script of outcomes, and \<^verbatim>\<open>wal.cc\<close> on it. \<^verbatim>\<open>Wal_Log\<close>, \<^verbatim>\<open>Wal_Compact\<close>, \<^verbatim>\<open>Wal_History\<close>: a log
    refines a list of bodies under every script; compaction is atomic; over whole lives with crashes what was acknowledged stays.
  \<^item> \<^verbatim>\<open>Store\<close>: the table as a fold. The locales \<open>record_log\<close>, \<open>write_ahead\<close> and \<open>logged_table\<close> give crash consistency of a
    table on any log that refines a list, and are interpreted on the write-ahead log.
  \<^item> \<^verbatim>\<open>Ring\<close>: owners and replica sets as the clockwise order of the ring; the two membership views.
  \<^item> \<^verbatim>\<open>Demux\<close>, \<^verbatim>\<open>Rpc\<close>: inboxes, handshake, calls, responses and timeouts; the locale \<open>rpc_client\<close> carries a relation through the layer.
  \<^item> \<^verbatim>\<open>Queue\<close>, \<^verbatim>\<open>Queue_Params\<close>: every member function of \<open>QueueNode\<close>. \<^verbatim>\<open>Queue_Steps\<close>: a relation on nodes that holds of a few primitive steps
    holds of every operation and event (locales \<open>node_steps\<close>, \<open>queue_steps\<close>, \<open>node_client\<close>, \<open>node_events\<close>). It is
    interpreted in \<^verbatim>\<open>Queue_Tokens\<close> (accounting of requests, the log behind the table), \<^verbatim>\<open>Queue_Backing\<close> (nothing waits for nothing),
    \<^verbatim>\<open>Queue_Clock\<close> (answers only grow, deadlines; locales \<open>loose_steps\<close> and \<open>loose_events\<close>) and \<^verbatim>\<open>Queue_Votes\<close> (votes bind). \<^verbatim>\<open>Queue_Runs\<close> and
    \<^verbatim>\<open>Queue_Claims\<close> state what follows for whole runs, for fencing and for takeovers, and where the rules have gaps.
  \<^item> \<^verbatim>\<open>Http\<close>, \<^verbatim>\<open>Http_Serving\<close>: the server, and, in the locales \<open>http_app\<close> and \<open>app_invariant\<close>, that any application answering each
    request once is served in order. \<^verbatim>\<open>Metrics\<close>, \<^verbatim>\<open>Gateway\<close>, \<^verbatim>\<open>Gateway_Runs\<close>: the node process, its routes, start-up and runs.
  \<^item> \<^verbatim>\<open>Http_Client\<close>, \<^verbatim>\<open>Worker\<close>, \<^verbatim>\<open>Sink\<close>, \<^verbatim>\<open>Verify\<close>, \<^verbatim>\<open>Loadgen\<close>, \<^verbatim>\<open>Loop\<close>: the other programs and the epoll loop; what the client writes the server
    reads, and the worker's report names the lease it was given.

  Bounds and termination. No definition uses fuel: loops are structural or have a termination proof. Loops that
  the code bounds keep its bound (fifty reports of the worker, one round of the ready list in \<open>lease_scan\<close>). A script of outcomes
  is finite, and calls succeed once it is exhausted; a retry loop ends because each retry takes an outcome. Statements
  about whole runs assume, where they need it, that the 64-bit request counter and the 32-bit job counter have not wrapped.

  Parameters. The taut library is not part of the repository: the checksum \<open>crc\<close> is an arbitrary function, a session is given by
  \<open>session_ops\<close> (its construction, send, poll, tick and the size of its receive buffer), the gossip view by \<open>membership\<close>, and the parsing of an address by the parameter
  \<open>mk\<close>. The socket, the results of \<open>recv\<close>, \<open>send\<close>, \<open>accept\<close> and \<open>epoll_wait\<close>, random decisions and clocks are inputs.

  Simplifications. A crash is a crash of the process, which keeps what was written; \<open>sys_sync\<close> records what is
  durable, but losing unsynced data is not modelled. An event of a node or of the process is atomic, as the code is single-threaded: the answers the queue
  gives during an operation are sent when the operation returns, and a session hands over the messages of one poll
  before they are dispatched. A closure of an HTTP handler is dropped when it has been used; that the
  queue uses none twice is shown for the queue node itself. Offsets and lengths are natural numbers, since no frame comes near the
  size of the address space. A \<open>double\<close> is never infinite.

  Not modelled: the creation of sockets, signals, messages on the error stream, the worker's pauses, the sink's command line, the load
  generator's threads, clock and scanning of the metrics text, and the browser demonstration (\<^verbatim>\<open>src/wasm/\<close>).
\<close>

end
